(* ===== verification/Prelude.thy ===== *)
theory Prelude
  imports Complex_Main "HOL-Library.Word" "HOL-Library.AList"
begin

text \<open>
  Shared vocabulary of the development: the machine integers of the server (\<open>u64\<close>,
  \<open>u32\<close>, \<open>u8\<close>) with Rust's saturating and checked operations, text as UTF-8 bytes
  (\<open>string\<close>) and as Unicode scalar values (\<open>ustr\<close>), decimal numbers as the
  standard library prints and parses them, the standard library's \<open>HashMap\<close> as an
  interface (a locale) with its model, and the generic lemmas the components share.
\<close>

named_theorems u64_simps \<open>reading saturating and checked 64-bit operations as naturals\<close>
named_theorems table_simps \<open>lookup laws of the hash-table model\<close>

section \<open>Machine integers\<close>

type_synonym u64 = "64 word"
type_synonym u32 = "32 word"
type_synonym u8 = "8 word"

text \<open>The largest \<open>u64\<close>, Rust's \<open>u64::MAX\<close>.\<close>

definition u64_max :: u64 where
  "u64_max = 18446744073709551615"

definition sat_add :: "u64 \<Rightarrow> u64 \<Rightarrow> u64" where
  "sat_add a b = (if unat a + unat b < 2 ^ 64 then a + b else u64_max)"

definition sat_sub :: "u64 \<Rightarrow> u64 \<Rightarrow> u64" where
  "sat_sub a b = (if b \<le> a then a - b else 0)"

definition sat_mul :: "u64 \<Rightarrow> u64 \<Rightarrow> u64" where
  "sat_mul a b = (if unat a * unat b < 2 ^ 64 then a * b else u64_max)"

definition checked_sub :: "u64 \<Rightarrow> u64 \<Rightarrow> u64 option" where
  "checked_sub a b = (if b \<le> a then Some (a - b) else None)"

definition checked_add :: "u64 \<Rightarrow> u64 \<Rightarrow> u64 option" where
  "checked_add a b = (if unat a + unat b < 2 ^ 64 then Some (a + b) else None)"

lemma unat_u64_max [u64_simps]: "unat u64_max = 18446744073709551615"
  by (simp add: u64_max_def)

lemma unat_lt_u64: "unat (a :: u64) < 18446744073709551616"
  using unsigned_less [of a] by simp

lemma unat_le_u64: "unat (a :: u64) \<le> 18446744073709551615"
  using unat_lt_u64 [of a] by simp

lemma unat_add_u64: "unat a + unat b < 2 ^ 64 \<Longrightarrow> unat (a + b :: u64) = unat a + unat b"
  by (simp add: unat_word_ariths)

lemma unat_sat_add [u64_simps]:
  "unat (sat_add a b) = min (unat a + unat b) 18446744073709551615"
proof (cases "unat a + unat b < 2 ^ 64")
  case True
  then show ?thesis by (simp add: sat_add_def unat_word_ariths min_def)
next
  case False
  then show ?thesis by (simp add: sat_add_def u64_simps min_def)
qed

lemma unat_sat_sub [u64_simps]: "unat (sat_sub a b) = unat a - unat b"
  by (auto simp: sat_sub_def unat_sub word_le_nat_alt)

lemma unat_sat_mul [u64_simps]:
  "unat (sat_mul a b) = min (unat a * unat b) 18446744073709551615"
proof (cases "unat a * unat b < 2 ^ 64")
  case True
  then show ?thesis by (simp add: sat_mul_def unat_word_ariths min_def)
next
  case False
  then show ?thesis by (simp add: sat_mul_def u64_simps min_def)
qed

lemma checked_sub_one:
  "checked_sub n 1 = (if n = 0 then None else Some (n - 1))"
proof -
  have "1 \<le> n \<longleftrightarrow> n \<noteq> 0"
    by (metis word_neq_0_conv word_less_1 not_le)
  then show ?thesis by (simp add: checked_sub_def)
qed

lemma checked_sub_one_Some: "checked_sub n 1 = Some l \<Longrightarrow> unat n = Suc (unat l)"
  using unat_gt_0 [of n]
  by (auto simp: checked_sub_one unat_minus_one split: if_splits)

lemma checked_sub_one_less: "checked_sub n 1 = Some l \<Longrightarrow> l < n"
  by (drule checked_sub_one_Some) (simp add: word_less_nat_alt)

lemma sat_sub_le_final: "checked_sub n 1 = Some l \<Longrightarrow> k \<noteq> 0 \<Longrightarrow> sat_sub n k \<le> l"
proof -
  assume "checked_sub n 1 = Some l" "k \<noteq> 0"
  moreover have "0 < unat k" using \<open>k \<noteq> 0\<close> by (simp add: unat_gt_0)
  ultimately show ?thesis
    by (simp add: word_le_nat_alt u64_simps checked_sub_one_Some)
qed

text \<open>Code equations on integers, whose arithmetic evaluates in binary.\<close>

lemma unat_bound_code: "unat a + unat b < 2 ^ 64 \<longleftrightarrow> uint a + uint b < (18446744073709551616 :: int)"
  "unat c * unat d < 2 ^ 64 \<longleftrightarrow> uint c * uint d < (18446744073709551616 :: int)"
  for a b c d :: u64
proof -
  have "n < 2 ^ 64 \<longleftrightarrow> int n < 18446744073709551616" for n :: nat by simp
  then show "unat a + unat b < 2 ^ 64 \<longleftrightarrow> uint a + uint b < (18446744073709551616 :: int)"
    "unat c * unat d < 2 ^ 64 \<longleftrightarrow> uint c * uint d < (18446744073709551616 :: int)"
    by (simp_all only: of_nat_add of_nat_mult uint_nat)
qed

lemma sat_add_code [code]:
  "sat_add a b = (if uint a + uint b < 18446744073709551616 then a + b else u64_max)"
  by (simp only: sat_add_def unat_bound_code)

lemma sat_mul_code [code]:
  "sat_mul a b = (if uint a * uint b < 18446744073709551616 then a * b else u64_max)"
  by (simp only: sat_mul_def unat_bound_code)

lemma checked_add_code [code]:
  "checked_add a b = (if uint a + uint b < 18446744073709551616 then Some (a + b) else None)"
  by (simp only: checked_add_def unat_bound_code)

text \<open>The words the components compare most, as naturals.\<close>

lemmas word_nat_order = word_less_nat_alt word_le_nat_alt word_unat_eq_iff

section \<open>Lists\<close>

text \<open>Rust's \<open>Iterator::position\<close>.\<close>

fun position :: "('a \<Rightarrow> bool) \<Rightarrow> 'a list \<Rightarrow> nat option" where
  "position P [] = None"
| "position P (x # xs) = (if P x then Some 0 else map_option Suc (position P xs))"

lemma position_Some:
  "position P xs = Some i \<Longrightarrow> i < length xs \<and> P (xs ! i) \<and> (\<forall>j < i. \<not> P (xs ! j))"
proof (induction xs arbitrary: i)
  case (Cons x xs)
  show ?case
  proof (cases "P x")
    case False
    with Cons.prems obtain k where k: "position P xs = Some k" "i = Suc k" by auto
    with Cons.IH [OF k(1)] False show ?thesis by (auto simp: less_Suc_eq_0_disj)
  qed (use Cons.prems in auto)
qed simp

lemma position_None: "position P xs = None \<longleftrightarrow> (\<forall>x \<in> set xs. \<not> P x)"
  by (induction xs) auto

text \<open>Applying a function to the first element that satisfies a predicate, Rust's
  \<open>iter_mut().find(..)\<close> followed by an update.\<close>

fun update_first :: "('a \<Rightarrow> bool) \<Rightarrow> ('a \<Rightarrow> 'a) \<Rightarrow> 'a list \<Rightarrow> 'a list" where
  "update_first P f [] = []"
| "update_first P f (x # xs) = (if P x then f x # xs else x # update_first P f xs)"

lemma length_update_first [simp]: "length (update_first P f xs) = length xs"
  by (induction xs) auto

lemma in_update_first:
  "x \<in> set (update_first P f xs) \<Longrightarrow> x \<in> set xs \<or> (\<exists>y \<in> set xs. P y \<and> x = f y)"
  by (induction xs) (auto split: if_splits)

lemma map_update_first:
  "(\<And>x. P x \<Longrightarrow> g (f x) = g x) \<Longrightarrow> map g (update_first P f xs) = map g xs"
  by (induction xs) auto

text \<open>When the predicate tests a key no two elements share, that is a \<open>map\<close>.\<close>

lemma update_first_key:
  "distinct (map g xs) \<Longrightarrow>
   update_first (\<lambda>x. g x = k) f xs = map (\<lambda>x. if g x = k then f x else x) xs"
proof (induction xs)
  case (Cons x xs)
  show ?case
  proof (cases "g x = k")
    case True
    with Cons.prems have "\<forall>y \<in> set xs. g y \<noteq> k" by (auto simp: image_iff)
    then have "map (\<lambda>x. if g x = k then f x else x) xs = xs"
      by (intro map_idI) auto
    with True show ?thesis by simp
  qed (use Cons in auto)
qed simp

lemma update_first_none: "\<forall>x \<in> set xs. \<not> P x \<Longrightarrow> update_first P f xs = xs"
  by (induction xs) auto

lemma sorted_take_drop:
  "sorted_wrt R xs \<Longrightarrow> x \<in> set (drop n xs) \<Longrightarrow> r \<in> set (take n xs) \<Longrightarrow> R r x"
  using sorted_wrt_append [of R "take n xs" "drop n xs"] by simp

lemma set_map_filter_eq: "set (List.map_filter f xs) = {y. \<exists>x \<in> set xs. f x = Some y}"
  by (force simp: map_filter_def)

text \<open>Reading off an evaluated result.\<close>

lemma case_SomeE:
  "(case x of None \<Rightarrow> False | Some s \<Rightarrow> P s) \<Longrightarrow> (\<And>s. x = Some s \<Longrightarrow> P s \<Longrightarrow> thesis) \<Longrightarrow> thesis"
  by (cases x) simp_all

lemma case_InrE:
  "(case x of Inl _ \<Rightarrow> False | Inr s \<Rightarrow> P s) \<Longrightarrow> (\<And>s. x = Inr s \<Longrightarrow> P s \<Longrightarrow> thesis) \<Longrightarrow> thesis"
  by (cases x) simp_all

lemma find_Some_in: "List.find P xs = Some x \<Longrightarrow> x \<in> set xs \<and> P x"
  by (auto simp: find_Some_iff)

end
