(* ===== verification/F64.thy ===== *)
theory F64
  imports Prelude
begin

text \<open>
  IEEE 754 binary64 as the server uses it. A finite double is the rational number it
  denotes; every arithmetic operation is the exact one followed by rounding to nearest,
  ties to even, with 53 significant bits, gradual underflow at \<open>2 ^ -1074\<close> and
  overflow to infinity. The two zeros are one value: no modelled code prints, divides by
  or inspects the sign of a zero. Comparisons with NaN are false, \<open>max\<close> and \<open>min\<close>
  ignore a NaN operand, and casts to \<open>u64\<close> saturate, as in Rust.
\<close>

section \<open>Rounding\<close>

text \<open>The number of binary digits of a positive integer.\<close>

function bits :: "int \<Rightarrow> int" where
  "bits n = (if n \<le> 0 then 0 else 1 + bits (n div 2))"
  by pat_completeness auto
termination
  by (relation "measure nat") auto

declare bits.simps [simp del]

text \<open>The exponent of the leading binary digit of a positive rational.\<close>

definition flog2 :: "rat \<Rightarrow> int" where
  "flog2 x = (if 1 \<le> x then bits \<lfloor>x\<rfloor> - 1 else - bits (\<lceil>1 / x\<rceil> - 1))"

definition pow2 :: "int \<Rightarrow> rat" where
  "pow2 k = (if 0 \<le> k then 2 ^ nat k else 1 / 2 ^ nat (- k))"

text \<open>Rounding to the nearest integer, ties to even.\<close>

definition round_half_even :: "rat \<Rightarrow> int" where
  "round_half_even x =
     (let n = \<lfloor>x\<rfloor>; d = x - of_int n
      in if d < 1 / 2 then n else if 1 / 2 < d then n + 1 else if even n then n else n + 1)"

definition round53 :: "rat \<Rightarrow> rat" where
  "round53 x =
     (if x = 0 then 0
      else let q = max (flog2 \<bar>x\<bar> - 52) (- 1074)
           in of_int (round_half_even (x / pow2 q)) * pow2 q)"

section \<open>Values and operations\<close>

datatype f64 = NaN | PInf | NInf | Fin rat

definition f64_of_rat :: "rat \<Rightarrow> f64" where
  "f64_of_rat x =
     (let r = round53 x
      in if r \<ge> pow2 1024 then PInf else if r \<le> - pow2 1024 then NInf else Fin r)"

text \<open>Negation is exact, so subtraction is addition of the negation.\<close>

fun f64_neg :: "f64 \<Rightarrow> f64" where
  "f64_neg NaN = NaN"
| "f64_neg PInf = NInf"
| "f64_neg NInf = PInf"
| "f64_neg (Fin a) = Fin (- a)"

fun f64_add :: "f64 \<Rightarrow> f64 \<Rightarrow> f64" where
  "f64_add (Fin a) (Fin b) = f64_of_rat (a + b)"
| "f64_add NaN y = NaN"
| "f64_add x NaN = NaN"
| "f64_add PInf NInf = NaN"
| "f64_add NInf PInf = NaN"
| "f64_add PInf y = PInf"
| "f64_add NInf y = NInf"
| "f64_add x PInf = PInf"
| "f64_add x NInf = NInf"

definition f64_sub :: "f64 \<Rightarrow> f64 \<Rightarrow> f64" where
  "f64_sub x y = f64_add x (f64_neg y)"

text \<open>The sign of a value: \<open>-1\<close>, \<open>0\<close> or \<open>1\<close>; unused for NaN.\<close>

fun f64_sgn :: "f64 \<Rightarrow> int" where
  "f64_sgn NaN = 0"
| "f64_sgn PInf = 1"
| "f64_sgn NInf = - 1"
| "f64_sgn (Fin a) = (if 0 < a then 1 else if a < 0 then - 1 else 0)"

definition f64_signed_inf :: "int \<Rightarrow> f64" where
  "f64_signed_inf s = (if 0 < s then PInf else if s < 0 then NInf else NaN)"

fun f64_mul :: "f64 \<Rightarrow> f64 \<Rightarrow> f64" where
  "f64_mul (Fin a) (Fin b) = f64_of_rat (a * b)"
| "f64_mul NaN y = NaN"
| "f64_mul x NaN = NaN"
| "f64_mul x y = f64_signed_inf (f64_sgn x * f64_sgn y)"

text \<open>
  Division. Every modelled division has a divisor that the code has just tested to be
  positive, or a non-zero constant. A zero divisor is taken as the positive zero.
\<close>

fun f64_div :: "f64 \<Rightarrow> f64 \<Rightarrow> f64" where
  "f64_div (Fin a) (Fin b) =
     (if b = 0 then f64_signed_inf (f64_sgn (Fin a)) else f64_of_rat (a / b))"
| "f64_div NaN y = NaN"
| "f64_div x NaN = NaN"
| "f64_div (Fin a) y = Fin 0"
| "f64_div x (Fin b) = f64_signed_inf (f64_sgn x * (if b < 0 then - 1 else 1))"
| "f64_div x y = NaN"

fun f64_lt :: "f64 \<Rightarrow> f64 \<Rightarrow> bool" where
  "f64_lt NaN y = False"
| "f64_lt x NaN = False"
| "f64_lt (Fin a) (Fin b) = (a < b)"
| "f64_lt NInf NInf = False"
| "f64_lt NInf y = True"
| "f64_lt x PInf = (x \<noteq> PInf)"
| "f64_lt x y = False"

definition f64_eq :: "f64 \<Rightarrow> f64 \<Rightarrow> bool" where
  "f64_eq x y = (x \<noteq> NaN \<and> x = y)"

definition f64_le :: "f64 \<Rightarrow> f64 \<Rightarrow> bool" where
  "f64_le x y = (f64_lt x y \<or> f64_eq x y)"

abbreviation f64_gt :: "f64 \<Rightarrow> f64 \<Rightarrow> bool" where
  "f64_gt x y \<equiv> f64_lt y x"

abbreviation f64_ge :: "f64 \<Rightarrow> f64 \<Rightarrow> bool" where
  "f64_ge x y \<equiv> f64_le y x"

definition f64_max :: "f64 \<Rightarrow> f64 \<Rightarrow> f64" where
  "f64_max x y = (if x = NaN then y else if y = NaN then x else if f64_lt x y then y else x)"

definition f64_min :: "f64 \<Rightarrow> f64 \<Rightarrow> f64" where
  "f64_min x y = (if x = NaN then y else if y = NaN then x else if f64_lt y x then y else x)"

text \<open>\<open>f64::clamp\<close> for bounds that are in order, as at every modelled call.\<close>

definition f64_clamp :: "f64 \<Rightarrow> f64 \<Rightarrow> f64 \<Rightarrow> f64" where
  "f64_clamp x lo hi = (if f64_lt x lo then lo else if f64_lt hi x then hi else x)"

fun f64_abs :: "f64 \<Rightarrow> f64" where
  "f64_abs NaN = NaN"
| "f64_abs PInf = PInf"
| "f64_abs NInf = PInf"
| "f64_abs (Fin a) = Fin \<bar>a\<bar>"

fun f64_is_finite :: "f64 \<Rightarrow> bool" where
  "f64_is_finite (Fin a) = True"
| "f64_is_finite x = False"

text \<open>\<open>n as f64\<close> of an unsigned integer, and \<open>x.floor() as u64\<close>.\<close>

definition f64_of_nat :: "nat \<Rightarrow> f64" where
  "f64_of_nat n = f64_of_rat (of_nat n)"

fun f64_floor_u64 :: "f64 \<Rightarrow> u64" where
  "f64_floor_u64 NaN = 0"
| "f64_floor_u64 PInf = u64_max"
| "f64_floor_u64 NInf = 0"
| "f64_floor_u64 (Fin a) =
     (if \<lfloor>a\<rfloor> < 0 then 0 else if \<lfloor>a\<rfloor> \<ge> 2 ^ 64 then u64_max else of_int \<lfloor>a\<rfloor>)"

abbreviation f64_zero :: f64 where
  "f64_zero \<equiv> Fin 0"

section \<open>Laws of rounding\<close>

lemma bits_le: "n < 2 ^ k \<Longrightarrow> bits n \<le> int k"
proof (induction k arbitrary: n)
  case 0
  then show ?case by (simp add: bits.simps [of n])
next
  case (Suc k)
  show ?case
  proof (cases "n \<le> 0")
    case True
    then show ?thesis by (simp add: bits.simps [of n])
  next
    case False
    from Suc.prems have "n div 2 < 2 ^ k" by simp
    then have "bits (n div 2) \<le> int k" by (rule Suc.IH)
    with False show ?thesis by (simp add: bits.simps [of n])
  qed
qed

lemma bits_nonneg: "0 \<le> bits n"
  by (induction n rule: bits.induct) (subst bits.simps, simp)

lemma pow2_pos [simp]: "0 < pow2 k"
  by (simp add: pow2_def)

lemma round_half_even_of_int [simp]: "round_half_even (of_int n) = n"
  by (simp add: round_half_even_def)

lemma round_half_even_nonneg: "0 \<le> x \<Longrightarrow> 0 \<le> round_half_even x"
  by (auto simp: round_half_even_def Let_def)

lemma floor_neg_rat: "\<lfloor>- (x :: rat)\<rfloor> = (if of_int \<lfloor>x\<rfloor> = x then - \<lfloor>x\<rfloor> else - \<lfloor>x\<rfloor> - 1)"
proof (cases "of_int \<lfloor>x\<rfloor> = x")
  case True
  then have "\<lfloor>- x\<rfloor> = - \<lfloor>x\<rfloor>" by (metis floor_of_int of_int_minus)
  then show ?thesis by (rule trans) (simp add: True)
next
  case False
  then have "of_int \<lfloor>x\<rfloor> < x" using of_int_floor_le [of x] by linarith
  then have "\<lfloor>- x\<rfloor> = - \<lfloor>x\<rfloor> - 1"
    by (intro floor_unique) (use floor_correct [of x] in auto)
  with False show ?thesis by simp
qed

lemma round_half_even_neg: "round_half_even (- x) = - round_half_even x"
proof (cases "of_int \<lfloor>x\<rfloor> = x")
  case True
  then show ?thesis
    by (metis of_int_minus round_half_even_of_int)
next
  case False
  then have gt: "of_int \<lfloor>x\<rfloor> < x" using of_int_floor_le [of x] by linarith
  have fl: "\<lfloor>- x\<rfloor> = - \<lfloor>x\<rfloor> - 1" using False by (simp add: floor_neg_rat)
  have d: "- x - of_int \<lfloor>- x\<rfloor> = 1 - (x - of_int \<lfloor>x\<rfloor>)" by (simp add: fl)
  have half: "(1 - (x - of_int \<lfloor>x\<rfloor>) < 1 / 2) = (1 / 2 < x - of_int \<lfloor>x\<rfloor>)"
    "(1 / 2 < 1 - (x - of_int \<lfloor>x\<rfloor>)) = (x - of_int \<lfloor>x\<rfloor> < 1 / 2)"
    by auto
  show ?thesis
    unfolding round_half_even_def Let_def d half by (auto simp: fl)
qed

lemma round53_of_int:
  assumes "\<bar>n\<bar> < 2 ^ 53"
  shows "round53 (of_int n) = of_int n"
proof (cases "n = 0")
  case False
  define q where "q = max (flog2 \<bar>of_int n\<bar> - 52) (- 1074)"
  have one: "1 \<le> \<bar>of_int n :: rat\<bar>" using False by linarith
  have "\<lfloor>\<bar>of_int n :: rat\<bar>\<rfloor> = \<bar>n\<bar>"
    by (metis floor_of_int of_int_abs)
  then have "flog2 \<bar>of_int n\<bar> \<le> 52"
    using bits_le [of "\<bar>n\<bar>" 53] assms one by (simp add: flog2_def)
  then have q: "q \<le> 0" by (simp add: q_def)
  have "(of_int n :: rat) / pow2 q = of_int (n * 2 ^ nat (- q))"
    using q by (cases "q = 0") (auto simp: pow2_def)
  then have "of_int (round_half_even (of_int n / pow2 q)) * pow2 q = (of_int n :: rat)"
    by (metis round_half_even_of_int nonzero_eq_divide_eq pow2_pos less_irrefl)
  with False show ?thesis by (simp add: round53_def q_def Let_def)
qed (simp add: round53_def)

lemma round53_0 [simp]: "round53 0 = 0"
  by (simp add: round53_def)

lemma round53_nonneg: "0 \<le> x \<Longrightarrow> 0 \<le> round53 x"
  by (auto simp: round53_def Let_def intro!: mult_nonneg_nonneg round_half_even_nonneg
      divide_nonneg_pos less_imp_le [OF pow2_pos])

lemma round53_neg: "round53 (- x) = - round53 x"
  by (simp add: round53_def Let_def round_half_even_neg)

lemma pow2_1024: "pow2 1024 = 2 ^ 1024"
  by (simp add: pow2_def)

lemma f64_of_rat_nonneg:
  "0 \<le> x \<Longrightarrow> f64_of_rat x = PInf \<or> (\<exists>r \<ge> 0. f64_of_rat x = Fin r)"
  using round53_nonneg [of x] pow2_pos [of 1024]
  by (auto simp: f64_of_rat_def Let_def simp del: pow2_pos)

lemma f64_of_rat_not_NaN [simp]: "f64_of_rat x \<noteq> NaN"
  by (simp add: f64_of_rat_def Let_def)

lemma f64_of_rat_0 [simp]: "f64_of_rat 0 = Fin 0"
  using pow2_pos [of 1024] by (auto simp: f64_of_rat_def Let_def not_le simp del: pow2_pos)

lemma f64_of_rat_neg: "f64_of_rat (- x) = f64_neg (f64_of_rat x)"
  using pow2_pos [of 1024]
  by (auto simp: f64_of_rat_def Let_def round53_neg simp del: pow2_pos)

lemma f64_of_nat_exact: "n < 2 ^ 53 \<Longrightarrow> f64_of_nat n = Fin (of_nat n)"
proof -
  assume n: "n < 2 ^ 53"
  have r: "round53 (of_nat n) = of_nat n"
    using round53_of_int [of "int n"] n by simp
  have "(of_nat n :: rat) < 2 ^ 53"
    using n by (metis of_nat_less_iff of_nat_numeral of_nat_power)
  also have "(2 :: rat) ^ 53 \<le> pow2 1024"
    unfolding pow2_1024 by (rule power_increasing) simp_all
  finally have "of_nat n < pow2 1024" .
  with r show ?thesis
    using pow2_pos [of 1024] by (simp add: f64_of_nat_def f64_of_rat_def not_le del: pow2_pos)
qed

section \<open>Laws of comparison, maximum and minimum\<close>

lemma f64_lt_irrefl [simp]: "\<not> f64_lt x x"
  by (cases x) auto

lemma f64_lt_NaN [simp]: "\<not> f64_lt x NaN" "\<not> f64_lt NaN y"
  by (cases x; simp)+

lemma f64_lt_trans: "f64_lt x y \<Longrightarrow> f64_lt y z \<Longrightarrow> f64_lt x z"
  by (cases x; cases y; cases z) auto

lemma f64_lt_asym: "f64_lt x y \<Longrightarrow> \<not> f64_lt y x"
  by (cases x; cases y) auto

lemma f64_trichotomy: "x \<noteq> NaN \<Longrightarrow> y \<noteq> NaN \<Longrightarrow> f64_lt x y \<or> x = y \<or> f64_lt y x"
  by (cases x; cases y) auto

lemma f64_le_iff_not_lt: "x \<noteq> NaN \<Longrightarrow> y \<noteq> NaN \<Longrightarrow> f64_le x y \<longleftrightarrow> \<not> f64_lt y x"
  using f64_trichotomy [of x y] f64_lt_asym [of x y]
  by (auto simp: f64_le_def f64_eq_def)

lemma f64_le_refl [simp]: "f64_le x x \<longleftrightarrow> x \<noteq> NaN"
  by (simp add: f64_le_def f64_eq_def)

lemma f64_le_trans: "f64_le x y \<Longrightarrow> f64_le y z \<Longrightarrow> f64_le x z"
  by (auto simp: f64_le_def f64_eq_def intro: f64_lt_trans)

lemma f64_le_lt_trans: "f64_le x y \<Longrightarrow> f64_lt y z \<Longrightarrow> f64_lt x z"
  by (auto simp: f64_le_def f64_eq_def intro: f64_lt_trans)

lemma f64_lt_imp_le: "f64_lt x y \<Longrightarrow> f64_le x y"
  by (simp add: f64_le_def)

lemma f64_le_not_NaN: "f64_le x y \<Longrightarrow> x \<noteq> NaN \<and> y \<noteq> NaN"
  by (auto simp: f64_le_def f64_eq_def)

lemma f64_lt_Fin [simp]: "f64_lt (Fin a) (Fin b) \<longleftrightarrow> a < b"
  by simp

lemma f64_le_Fin [simp]: "f64_le (Fin a) (Fin b) \<longleftrightarrow> a \<le> b"
  by (auto simp: f64_le_def f64_eq_def)

lemma f64_max_ge: "x \<noteq> NaN \<or> y \<noteq> NaN \<Longrightarrow>
    (x \<noteq> NaN \<longrightarrow> f64_le x (f64_max x y)) \<and> (y \<noteq> NaN \<longrightarrow> f64_le y (f64_max x y))"
  using f64_trichotomy [of x y] f64_lt_asym [of x y]
  by (auto simp: f64_max_def f64_le_def f64_eq_def)

lemma f64_max_zero_ge [simp]: "f64_le (Fin 0) (f64_max x (Fin 0))"
  using f64_max_ge [of x "Fin 0"] by simp

lemma f64_max_Fin [simp]: "f64_max (Fin a) (Fin b) = Fin (max a b)"
  by (simp add: f64_max_def max_def)

lemma f64_min_Fin [simp]: "f64_min (Fin a) (Fin b) = Fin (min a b)"
  by (simp add: f64_min_def min_def)

lemma f64_min_le: "x \<noteq> NaN \<Longrightarrow> y \<noteq> NaN \<Longrightarrow> f64_le (f64_min x y) x \<and> f64_le (f64_min x y) y"
  using f64_trichotomy [of x y] f64_lt_asym [of x y]
  by (auto simp: f64_min_def f64_le_def f64_eq_def)

lemma f64_min_cases: "f64_min x y = x \<or> f64_min x y = y"
  by (simp add: f64_min_def)

lemma f64_max_cases: "f64_max x y = x \<or> f64_max x y = y"
  by (simp add: f64_max_def)

lemma f64_clamp_bounds:
  assumes "f64_le lo hi" "x \<noteq> NaN"
  shows "f64_le lo (f64_clamp x lo hi) \<and> f64_le (f64_clamp x lo hi) hi"
proof -
  have "lo \<noteq> NaN" "hi \<noteq> NaN" using assms(1) by (auto dest: f64_le_not_NaN)
  then show ?thesis
    using assms f64_le_iff_not_lt [of lo x] f64_le_iff_not_lt [of x hi]
    by (auto simp: f64_clamp_def)
qed

text \<open>A difference and its mirror image have the same magnitude.\<close>

lemma f64_add_comm: "f64_add x y = f64_add y x"
  by (cases x; cases y) (auto simp: add.commute)

lemma f64_neg_neg [simp]: "f64_neg (f64_neg x) = x"
  by (cases x) auto

lemma f64_neg_add: "f64_neg (f64_add x y) = f64_add (f64_neg x) (f64_neg y)"
proof (cases x; cases y)
  fix a b
  assume "x = Fin a" "y = Fin b"
  moreover have "f64_of_rat (- a - b) = f64_neg (f64_of_rat (a + b))"
    using f64_of_rat_neg [of "a + b"] by simp
  ultimately show ?thesis by simp
qed auto

lemma f64_abs_neg [simp]: "f64_abs (f64_neg x) = f64_abs x"
  by (cases x) auto

lemma f64_abs_sub_comm: "f64_abs (f64_sub x y) = f64_abs (f64_sub y x)"
  by (metis f64_abs_neg f64_neg_add f64_neg_neg f64_add_comm f64_sub_def)

lemma f64_PInf_ge_0 [simp]: "f64_le (Fin 0) PInf"
  by (simp add: f64_le_def)

lemma f64_of_rat_ge_0: "0 \<le> x \<Longrightarrow> f64_le (Fin 0) (f64_of_rat x)"
proof -
  assume "0 \<le> x"
  then consider "f64_of_rat x = PInf" | r where "0 \<le> r" "f64_of_rat x = Fin r"
    using f64_of_rat_nonneg by blast
  then show ?thesis by cases simp_all
qed

lemma f64_of_nat_ge_0: "f64_le (Fin 0) (f64_of_nat n)"
  by (simp add: f64_of_nat_def f64_of_rat_ge_0)

lemma f64_ge_0_cases:
  "f64_le (Fin 0) x \<Longrightarrow> x = PInf \<or> (\<exists>a \<ge> 0. x = Fin a)"
  by (cases x) (auto simp: f64_le_def f64_eq_def)

lemma f64_add_nonneg:
  "f64_le (Fin 0) x \<Longrightarrow> f64_le (Fin 0) y \<Longrightarrow> f64_le (Fin 0) (f64_add x y)"
  by (drule f64_ge_0_cases, drule f64_ge_0_cases) (auto intro!: f64_of_rat_ge_0)

lemma f64_mul_nonneg:
  "f64_le (Fin 0) x \<Longrightarrow> 0 < b \<Longrightarrow> f64_le (Fin 0) (f64_mul x (Fin b))"
  by (drule f64_ge_0_cases) (auto intro!: f64_of_rat_ge_0 simp: f64_signed_inf_def)

section \<open>Evaluation\<close>

text \<open>Code equations that keep the numbers small: the overflow test looks at the number of
  binary digits instead of comparing with \<open>2 ^ 1024\<close>.\<close>

lemma bits_gt: "2 ^ k \<le> n \<Longrightarrow> int k < bits n"
proof (induction k arbitrary: n)
  case 0
  then show ?case using bits_nonneg [of "n div 2"] by (subst bits.simps) simp
next
  case (Suc k)
  then have "2 ^ k \<le> n div 2" by simp
  moreover have "0 < n" using Suc.prems zero_less_power [of "2 :: int" "Suc k"] by linarith
  ultimately show ?case using Suc.IH [of "n div 2"] by (subst bits.simps) simp
qed

lemma bits_iff: "bits n \<le> int k \<longleftrightarrow> n < 2 ^ k"
  using bits_le [of n k] bits_gt [of k n] by linarith

lemma abs_less_cases:
  "0 < (l :: rat) \<Longrightarrow> (if l \<le> r then a else if r \<le> - l then b else c) =
     (if \<bar>r\<bar> < l then c else if 0 < r then a else b)"
  by (auto simp: abs_if)

definition f64_pack :: "rat \<Rightarrow> f64" where
  "f64_pack r = (if bits \<lfloor>\<bar>r\<bar>\<rfloor> \<le> 1024 then Fin r else if 0 < r then PInf else NInf)"

lemma f64_of_rat_code [code]: "f64_of_rat x = f64_pack (round53 x)"
proof -
  let ?r = "round53 x"
  have "bits \<lfloor>\<bar>?r\<bar>\<rfloor> \<le> 1024 \<longleftrightarrow> \<lfloor>\<bar>?r\<bar>\<rfloor> < 2 ^ 1024"
    using bits_iff [of "\<lfloor>\<bar>?r\<bar>\<rfloor>" 1024] by (simp only: of_nat_numeral)
  also have "\<dots> \<longleftrightarrow> \<bar>?r\<bar> < pow2 1024"
    by (simp only: floor_less_iff of_int_power of_int_numeral pow2_1024)
  finally have b: "bits \<lfloor>\<bar>?r\<bar>\<rfloor> \<le> 1024 \<longleftrightarrow> \<bar>?r\<bar> < pow2 1024" .
  have "0 < pow2 1024" by (rule pow2_pos)
  then show ?thesis
    unfolding f64_of_rat_def f64_pack_def Let_def b by (rule abs_less_cases)
qed

text \<open>Powers of two by squaring, on integers.\<close>

function two_pow :: "int \<Rightarrow> int" where
  "two_pow n = (if n \<le> 0 then 1 else if even n then two_pow (n div 2) * two_pow (n div 2)
     else 2 * two_pow (n - 1))"
  by pat_completeness auto
termination
  by (relation "measure nat") auto

declare two_pow.simps [simp del]

lemma two_pow: "two_pow n = 2 ^ nat n"
proof (induction n rule: two_pow.induct)
  case (1 n)
  show ?case
  proof (cases "n \<le> 0")
    case False
    show ?thesis
    proof (cases "even n")
      case True
      then obtain m where m: "n = 2 * m" by blast
      then have "nat n = nat m + nat m" using False by simp
      then have "(2 :: int) ^ nat n = 2 ^ nat m * 2 ^ nat m" by (simp only: power_add)
      then show ?thesis using 1(1) False True m by (subst two_pow.simps) simp
    next
      case odd: False
      have "nat n = Suc (nat (n - 1))" using False by simp
      then show ?thesis using 1(3) False odd by (subst two_pow.simps) simp
    qed
  qed (subst two_pow.simps, simp)
qed

lemma pow2_code [code]: "pow2 k = (if 0 \<le> k then of_int (two_pow k) else 1 / of_int (two_pow (- k)))"
  by (simp add: pow2_def two_pow)

text \<open>Rounding stays above every integer threshold the server compares with.\<close>

lemma round_half_even_ge: "of_int k \<le> x \<Longrightarrow> k \<le> round_half_even x"
  using le_floor_iff [of k x] by (auto simp: round_half_even_def Let_def)

lemma bits_lower: "0 < n \<Longrightarrow> 2 ^ nat (bits n - 1) \<le> n"
proof -
  assume "0 < n"
  then have "0 < bits n" using bits_gt [of 0 n] by simp
  then have "\<not> bits n \<le> int (nat (bits n - 1))" by simp
  then show ?thesis by (simp only: bits_iff not_less)
qed

lemma round53_ge_int:
  assumes "0 < n" "n < 2 ^ 53" "of_int n \<le> x"
  shows "of_int n \<le> round53 x"
proof -
  have x: "1 \<le> x" using assms by (meson of_int_1_le_iff order_trans zless_imp_add1_zle int_one_le_iff_zero_less)
  then have f: "0 < \<lfloor>x\<rfloor>" by simp
  define q where "q = max (flog2 \<bar>x\<bar> - 52) (- 1074)"
  have r: "round53 x = of_int (round_half_even (x / pow2 q)) * pow2 q"
    using x by (auto simp: round53_def q_def Let_def)
  have flog: "flog2 \<bar>x\<bar> = bits \<lfloor>x\<rfloor> - 1" using x by (simp add: flog2_def)
  show ?thesis
  proof (cases "q \<le> 0")
    case True
    then have p: "pow2 q = 1 / 2 ^ nat (- q)" by (auto simp: pow2_def)
    have "of_int (n * 2 ^ nat (- q)) \<le> x / pow2 q"
      using assms(3) by (simp add: p)
    then have "n * 2 ^ nat (- q) \<le> round_half_even (x / pow2 q)" by (rule round_half_even_ge)
    then have "of_int (n * 2 ^ nat (- q)) * pow2 q \<le> round53 x"
      unfolding r by (intro mult_right_mono) (simp_all only: of_int_le_iff less_imp_le [OF pow2_pos])
    then show ?thesis by (simp add: p)
  next
    case False
    then have q: "q = bits \<lfloor>x\<rfloor> - 1 - 52" by (simp add: q_def flog max_def split: if_splits)
    have "2 ^ nat (bits \<lfloor>x\<rfloor> - 1) \<le> \<lfloor>x\<rfloor>" by (rule bits_lower [OF f])
    moreover have "nat (bits \<lfloor>x\<rfloor> - 1) = 52 + nat q" using False q by simp
    ultimately have "(2 :: int) ^ (52 + nat q) \<le> \<lfloor>x\<rfloor>" by simp
    then have "of_int (2 ^ (52 + nat q)) \<le> x" by (simp only: le_floor_iff)
    then have "of_int (2 ^ 52) \<le> x / pow2 q"
      using False by (simp add: pow2_def power_add field_simps)
    then have "2 ^ 52 \<le> round_half_even (x / pow2 q)" by (rule round_half_even_ge)
    then have "of_int (2 ^ 52) * pow2 q \<le> round53 x"
      unfolding r by (intro mult_right_mono) (simp_all only: of_int_le_iff less_imp_le [OF pow2_pos])
    moreover have "(2 :: rat) \<le> pow2 q"
    proof -
      have "(2 :: rat) ^ 1 \<le> 2 ^ nat q" using False by (intro power_increasing) auto
      then show ?thesis using False by (simp add: pow2_def)
    qed
    ultimately have "of_int (2 ^ 53) \<le> round53 x" by simp
    moreover have "(of_int n :: rat) \<le> of_int (2 ^ 53)" using assms(2) by (simp only: of_int_le_iff less_imp_le)
    ultimately show ?thesis by linarith
  qed
qed

lemma f64_add_ge_int:
  assumes "f64_le (Fin (of_int n)) x" "f64_le (Fin 0) y" "0 < n" "n < 2 ^ 53"
  shows "f64_le (Fin (of_int n)) (f64_add x y)"
proof -
  have ge: "f64_le (Fin (of_int n)) (f64_of_rat z)" if "of_int n \<le> z" for z
    using round53_ge_int [OF assms(3,4) that] assms(3)
    by (auto simp: f64_of_rat_code f64_pack_def f64_le_def f64_eq_def) 
  show ?thesis
  proof (cases x)
    case (Fin a)
    then have a: "of_int n \<le> a" using assms(1) by simp
    from f64_ge_0_cases [OF assms(2)] show ?thesis
      using Fin ge [of "a + _"] a by (auto simp: f64_le_def [of _ PInf])
  qed (use assms(1,2) in \<open>cases y; auto simp: f64_le_def f64_eq_def\<close>)+
qed
end
