(* ===== verification/Text.thy ===== *)
theory Text
  imports F64 "HOL-Library.Sublist"
begin

text \<open>
  Strings. A Rust \<open>String\<close> that the code compares, splits at an ASCII delimiter or
  measures in bytes is a \<open>string\<close>, its UTF-8 bytes. One the code walks by \<open>char\<close>
  is a \<open>ustr\<close>, its Unicode scalar values. The character classes are the standard
  library's: \<open>is_control\<close> is the general category Cc and \<open>is_whitespace\<close> the
  property White\_Space, both finite lists of ranges. Numbers are printed and parsed as
  \<open>to_string\<close> and \<open>str::parse\<close> do, the leading plus sign included.
\<close>

section \<open>Scalar values\<close>

type_synonym uchar = u32
type_synonym ustr = "uchar list"

definition cp :: "char \<Rightarrow> uchar" where
  "cp c = of_nat (of_char c)"

definition cps :: "string \<Rightarrow> ustr" where
  "cps s = map cp s"

text \<open>The UTF-8 bytes of a text.\<close>

definition utf8_char :: "uchar \<Rightarrow> string" where
  "utf8_char c =
     (let n = unat c; b = (\<lambda>k. char_of (k :: nat)); low = (\<lambda>k. char_of (128 + k mod 64 :: nat)) in
      if n < 128 then [b n]
      else if n < 2048 then [b (192 + n div 64), low n]
      else if n < 65536 then [b (224 + n div 4096), low (n div 64), low n]
      else [b (240 + n div 262144), low (n div 4096), low (n div 64), low n])"

definition utf8 :: "ustr \<Rightarrow> string" where
  "utf8 s = concat (map utf8_char s)"

definition is_control :: "uchar \<Rightarrow> bool" where
  "is_control c \<longleftrightarrow> c < 32 \<or> (127 \<le> c \<and> c < 160)"

definition is_whitespace :: "uchar \<Rightarrow> bool" where
  "is_whitespace c \<longleftrightarrow> (9 \<le> c \<and> c \<le> 13) \<or> c = 32 \<or> c = 133 \<or> c = 160 \<or> c = 5760
     \<or> (8192 \<le> c \<and> c \<le> 8202) \<or> c = 8232 \<or> c = 8233 \<or> c = 8239 \<or> c = 8287 \<or> c = 12288"

text \<open>\<open>str::trim_matches\<close>, \<open>str::trim\<close> and \<open>str::trim_start_matches\<close>.\<close>

definition trim_start_by :: "('a \<Rightarrow> bool) \<Rightarrow> 'a list \<Rightarrow> 'a list" where
  "trim_start_by P s = dropWhile P s"

definition trim_by :: "('a \<Rightarrow> bool) \<Rightarrow> 'a list \<Rightarrow> 'a list" where
  "trim_by P s = rev (dropWhile P (rev (dropWhile P s)))"

abbreviation trim :: "ustr \<Rightarrow> ustr" where
  "trim s \<equiv> trim_by is_whitespace s"

lemma set_trim_by: "set (trim_by P s) \<subseteq> set s"
  by (metis trim_by_def set_rev set_dropWhileD subsetI)

lemma trim_by_hd: "trim_by P s \<noteq> [] \<Longrightarrow> \<not> P (hd (trim_by P s))"
proof -
  assume "trim_by P s \<noteq> []"
  then have ne: "dropWhile P (rev (dropWhile P s)) \<noteq> []" by (simp add: trim_by_def)
  then have ne2: "dropWhile P s \<noteq> []" by (metis dropWhile.simps(1) rev.simps(1))
  have "hd (trim_by P s) = last (dropWhile P (rev (dropWhile P s)))"
    by (simp add: trim_by_def hd_rev)
  also have "\<dots> = last (rev (dropWhile P s))"
    using ne by (metis last_appendR takeWhile_dropWhile_id)
  also have "\<dots> = hd (dropWhile P s)" using ne2 by (simp add: last_rev)
  finally show ?thesis using hd_dropWhile [OF ne2] by simp
qed

lemma trim_by_last: "trim_by P s \<noteq> [] \<Longrightarrow> \<not> P (last (trim_by P s))"
  by (simp add: trim_by_def last_rev hd_dropWhile)

section \<open>Bytes\<close>

definition byte :: "char \<Rightarrow> nat" where
  "byte c = of_char c"

definition is_ascii_digit :: "char \<Rightarrow> bool" where
  "is_ascii_digit c \<longleftrightarrow> 48 \<le> byte c \<and> byte c \<le> 57"

definition is_ascii_lowercase :: "char \<Rightarrow> bool" where
  "is_ascii_lowercase c \<longleftrightarrow> 97 \<le> byte c \<and> byte c \<le> 122"

definition is_ascii_uppercase :: "char \<Rightarrow> bool" where
  "is_ascii_uppercase c \<longleftrightarrow> 65 \<le> byte c \<and> byte c \<le> 90"

definition is_ascii_alphanumeric :: "char \<Rightarrow> bool" where
  "is_ascii_alphanumeric c \<longleftrightarrow>
     is_ascii_digit c \<or> is_ascii_lowercase c \<or> is_ascii_uppercase c"

definition is_ascii_hexdigit :: "char \<Rightarrow> bool" where
  "is_ascii_hexdigit c \<longleftrightarrow> is_ascii_digit c
     \<or> (97 \<le> byte c \<and> byte c \<le> 102) \<or> (65 \<le> byte c \<and> byte c \<le> 70)"

definition is_ascii_graphic :: "char \<Rightarrow> bool" where
  "is_ascii_graphic c \<longleftrightarrow> 33 \<le> byte c \<and> byte c \<le> 126"

definition ascii_lower :: "char \<Rightarrow> char" where
  "ascii_lower c = (if is_ascii_uppercase c then char_of (byte c + 32) else c)"

definition eq_ignore_ascii_case :: "string \<Rightarrow> string \<Rightarrow> bool" where
  "eq_ignore_ascii_case a b \<longleftrightarrow> map ascii_lower a = map ascii_lower b"

lemma eq_ignore_ascii_case_refl [simp]: "eq_ignore_ascii_case a a"
  by (simp add: eq_ignore_ascii_case_def)

lemma eq_ignore_ascii_case_sym: "eq_ignore_ascii_case a b \<Longrightarrow> eq_ignore_ascii_case b a"
  by (simp add: eq_ignore_ascii_case_def)

lemma eq_ignore_ascii_case_trans:
  "eq_ignore_ascii_case a b \<Longrightarrow> eq_ignore_ascii_case b c \<Longrightarrow> eq_ignore_ascii_case a c"
  by (simp add: eq_ignore_ascii_case_def)

section \<open>Splitting\<close>

definition strip_prefix :: "'a list \<Rightarrow> 'a list \<Rightarrow> 'a list option" where
  "strip_prefix p s = (if take (length p) s = p then Some (drop (length p) s) else None)"

definition split_once :: "'a \<Rightarrow> 'a list \<Rightarrow> ('a list \<times> 'a list) option" where
  "split_once c s =
     (if c \<in> set s then Some (takeWhile (\<lambda>x. x \<noteq> c) s, tl (dropWhile (\<lambda>x. x \<noteq> c) s))
      else None)"

fun split_on :: "'a \<Rightarrow> 'a list \<Rightarrow> 'a list list" where
  "split_on c [] = [[]]"
| "split_on c (x # xs) =
     (if x = c then [] # split_on c xs
      else case split_on c xs of [] \<Rightarrow> [[x]] | y # ys \<Rightarrow> (x # y) # ys)"

text \<open>\<open>str::find\<close>: where the pattern first occurs.\<close>

fun find_sub :: "'a list \<Rightarrow> 'a list \<Rightarrow> nat option" where
  "find_sub p [] = (if p = [] then Some 0 else None)"
| "find_sub p (x # xs) =
     (if take (length p) (x # xs) = p then Some 0 else map_option Suc (find_sub p xs))"

text \<open>\<open>split_whitespace\<close> and \<open>join\<close>.\<close>

fun split_by :: "('a \<Rightarrow> bool) \<Rightarrow> 'a list \<Rightarrow> 'a list list" where
  "split_by P [] = [[]]"
| "split_by P (x # xs) =
     (case split_by P xs of
        [] \<Rightarrow> [[], [x]]
      | y # ys \<Rightarrow> if P x then [] # y # ys else (x # y) # ys)"

definition split_whitespace :: "ustr \<Rightarrow> ustr list" where
  "split_whitespace s = filter (\<lambda>w. w \<noteq> []) (split_by is_whitespace s)"

fun join :: "'a list \<Rightarrow> 'a list list \<Rightarrow> 'a list" where
  "join sep [] = []"
| "join sep [x] = x"
| "join sep (x # y # r) = x @ sep @ join sep (y # r)"

text \<open>
  The two Unicode tables of the standard library that the server consults, \<open>str::to_lowercase\<close>
  and \<open>char::is_alphanumeric\<close>, are parameters of the definitions that use them; the
  ASCII tables are an instance.
\<close>

record unicode =
  to_lowercase :: "ustr \<Rightarrow> ustr"
  is_alphanumeric :: "uchar \<Rightarrow> bool"

definition ascii_tables :: unicode where
  "ascii_tables =
     \<lparr>to_lowercase = map (\<lambda>c. if 65 \<le> c \<and> c \<le> 90 then c + 32 else c),
      is_alphanumeric = (\<lambda>c. (48 \<le> c \<and> c \<le> 57) \<or> (65 \<le> c \<and> c \<le> 90) \<or> (97 \<le> c \<and> c \<le> 122))\<rparr>"

lemma strip_prefix_Some: "strip_prefix p s = Some r \<longleftrightarrow> s = p @ r"
  by (auto simp: strip_prefix_def) (metis append_take_drop_id)

lemma strip_prefix_append [simp]: "strip_prefix p (p @ r) = Some r"
  by (simp add: strip_prefix_Some)

lemma split_once_append: "c \<notin> set a \<Longrightarrow> split_once c (a @ c # b) = Some (a, b)"
  by (auto simp: split_once_def takeWhile_append dropWhile_append)

lemma split_once_Some:
  "split_once c s = Some (a, b) \<longleftrightarrow> s = a @ c # b \<and> c \<notin> set a"
proof
  assume l: "split_once c s = Some (a, b)"
  then have c: "c \<in> set s" by (simp add: split_once_def split: if_splits)
  then obtain p q where s: "s = p @ c # q" and "c \<notin> set p" by (meson split_list_first)
  then have "split_once c s = Some (p, q)" by (simp add: split_once_append)
  with l s \<open>c \<notin> set p\<close> show "s = a @ c # b \<and> c \<notin> set a" by simp
qed (auto simp: split_once_append)

lemma split_on_nonempty: "split_on c s \<noteq> []"
  by (induction s) (auto split: list.splits)

lemma split_on_no_sep: "c \<notin> set s \<Longrightarrow> split_on c s = [s]"
  by (induction s) auto

lemma split_on_append: "c \<notin> set a \<Longrightarrow> split_on c (a @ c # b) = a # split_on c b"
  by (induction a) auto

section \<open>Decimal numbers\<close>

definition digit :: "nat \<Rightarrow> char" where
  "digit n = char_of (48 + n)"

text \<open>\<open>to_string\<close> of an unsigned integer.\<close>

fun dec :: "nat \<Rightarrow> string" where
  "dec n = (if n < 10 then [digit n] else dec (n div 10) @ [digit (n mod 10)])"

declare dec.simps [simp del]

text \<open>\<open>{:0w$}\<close> of an unsigned integer: zeros on the left up to the width.\<close>

definition pad :: "nat \<Rightarrow> nat \<Rightarrow> string" where
  "pad w n = replicate (w - length (dec n)) CHR ''0'' @ dec n"

definition dec_val :: "string \<Rightarrow> nat" where
  "dec_val s = foldl (\<lambda>n c. 10 * n + (byte c - 48)) 0 s"

definition parse_digits :: "string \<Rightarrow> nat option" where
  "parse_digits s = (if s \<noteq> [] \<and> list_all is_ascii_digit s then Some (dec_val s) else None)"

text \<open>\<open>str::parse::<u64>\<close>: an optional plus sign, at least one digit, no overflow.\<close>

definition parse_u64 :: "string \<Rightarrow> u64 option" where
  "parse_u64 s =
     (case parse_digits (case s of c # r \<Rightarrow> if c = CHR ''+'' then r else s | [] \<Rightarrow> []) of
        Some n \<Rightarrow> if n < 2 ^ 64 then Some (of_nat n) else None
      | None \<Rightarrow> None)"

text \<open>An optional sign and digits, as a negative flag and the digits' value.\<close>

definition split_sign :: "string \<Rightarrow> bool \<times> string" where
  "split_sign s = (case s of
       c # r \<Rightarrow> if c = CHR ''+'' then (False, r) else if c = CHR ''-'' then (True, r) else (False, s)
     | [] \<Rightarrow> (False, []))"

text \<open>\<open>str::parse::<i64>\<close>.\<close>

definition parse_i64 :: "string \<Rightarrow> int option" where
  "parse_i64 s =
     (let (neg, r) = split_sign s
      in case parse_digits r of
           Some n \<Rightarrow>
             (let v = (if neg then - int n else int n)
              in if - (2 ^ 63) \<le> v \<and> v < 2 ^ 63 then Some v else None)
         | None \<Rightarrow> None)"

text \<open>
  \<open>str::parse::<f64>\<close>: an optional sign, then an infinity, a NaN, or digits with an
  optional point and exponent; the exact decimal value is rounded once.
\<close>

definition f64_decimal :: "bool \<Rightarrow> nat \<Rightarrow> int \<Rightarrow> f64" where
  "f64_decimal neg m e =
     (let v = (if 0 \<le> e then of_nat m * 10 ^ nat e else of_nat m / 10 ^ nat (- e))
      in f64_of_rat (if neg then - v else v))"

definition parse_exponent :: "string \<Rightarrow> int option" where
  "parse_exponent s =
     (case s of
        [] \<Rightarrow> Some 0
      | c # r \<Rightarrow>
          if ascii_lower c = CHR ''e''
          then (let (neg, ds) = split_sign r
                in map_option (\<lambda>n. if neg then - int n else int n) (parse_digits ds))
          else None)"

definition parse_f64 :: "string \<Rightarrow> f64 option" where
  "parse_f64 s =
     (let (neg, r) = split_sign s; l = map ascii_lower r in
      if l = ''inf'' \<or> l = ''infinity'' then Some (if neg then NInf else PInf)
      else if l = ''nan'' then Some NaN
      else
        let ip = takeWhile is_ascii_digit r; r1 = dropWhile is_ascii_digit r;
            point = (r1 \<noteq> [] \<and> hd r1 = CHR ''.'');
            fp = (if point then takeWhile is_ascii_digit (tl r1) else []);
            r2 = (if point then dropWhile is_ascii_digit (tl r1) else r1)
        in if ip = [] \<and> fp = [] then None
           else map_option (\<lambda>e. f64_decimal neg (dec_val (ip @ fp)) (e - int (length fp)))
                  (parse_exponent r2))"

lemma byte_digit: "n < 10 \<Longrightarrow> byte (digit n) = 48 + n"
  by (simp add: byte_def digit_def)

lemma digit_is_digit: "n < 10 \<Longrightarrow> is_ascii_digit (digit n)"
  by (simp add: is_ascii_digit_def byte_digit)

lemma dec_digits: "list_all is_ascii_digit (dec n)"
proof (induction n rule: dec.induct)
  case (1 n)
  then show ?case
    by (subst dec.simps) (auto simp: digit_is_digit list_all_append)
qed

lemma dec_nonempty [simp]: "dec n \<noteq> []"
  by (subst dec.simps) simp

lemma dec_val_append: "dec_val (s @ [c]) = 10 * dec_val s + (byte c - 48)"
  by (simp add: dec_val_def)

lemma dec_val_dec [simp]: "dec_val (dec n) = n"
proof (induction n rule: dec.induct)
  case (1 n)
  show ?case
  proof (cases "n < 10")
    case True
    then show ?thesis by (subst dec.simps) (simp add: dec_val_def byte_digit)
  next
    case False
    then have "dec_val (dec n) = dec_val (dec (n div 10) @ [digit (n mod 10)])"
      by (subst dec.simps) simp
    also have "\<dots> = 10 * (n div 10) + n mod 10"
      using 1 False by (simp add: dec_val_append byte_digit)
    finally show ?thesis by simp
  qed
qed

text \<open>Evaluation of decimal numerals on integers.\<close>

definition dec_int :: "string \<Rightarrow> int" where
  "dec_int s = foldl (\<lambda>n c. 10 * n + (of_char c - 48)) 0 s"

lemma dec_int: "list_all is_ascii_digit s \<Longrightarrow> dec_int s = int (dec_val s)"
proof (induction s rule: rev_induct)
  case (snoc c s)
  have "48 \<le> (of_char c :: nat)"
    using snoc.prems by (simp add: is_ascii_digit_def byte_def)
  then have "(of_char c :: int) - 48 = int (of_char c - 48)"
    by (metis of_nat_diff of_nat_numeral of_nat_of_char)
  with snoc show ?case by (simp add: dec_int_def dec_val_def byte_def)
qed (simp add: dec_int_def dec_val_def)

definition u64_of_digits :: "string \<Rightarrow> u64 option" where
  "u64_of_digits r =
     (if r \<noteq> [] \<and> list_all is_ascii_digit r
      then if dec_int r < 18446744073709551616 then Some (word_of_int (dec_int r)) else None
      else None)"

lemma parse_u64_code [code]:
  "parse_u64 s = u64_of_digits (case s of c # r \<Rightarrow> if c = CHR ''+'' then r else s | [] \<Rightarrow> [])"
  by (auto simp: parse_u64_def u64_of_digits_def parse_digits_def dec_int split: option.splits)

lemma dec_inject: "dec m = dec n \<longleftrightarrow> m = n"
  by (metis dec_val_dec)

lemma parse_digits_dec [simp]: "parse_digits (dec n) = Some n"
  by (simp add: parse_digits_def dec_digits)

lemma dec_hd: "is_ascii_digit (hd (dec n))"
  using dec_digits [of n] by (metis dec_nonempty list.set_sel(1) list_all_iff)

lemma byte_signs: "byte CHR ''+'' = 43" "byte CHR ''-'' = 45"
  by (simp_all add: byte_def)

lemma digit_not_sign: "is_ascii_digit c \<Longrightarrow> c \<noteq> CHR ''+'' \<and> c \<noteq> CHR ''-''"
  using byte_signs by (auto simp: is_ascii_digit_def)

lemma split_sign_digits: "s \<noteq> [] \<Longrightarrow> is_ascii_digit (hd s) \<Longrightarrow> split_sign s = (False, s)"
  using digit_not_sign by (cases s) (auto simp: split_sign_def)

lemma split_sign_dec [simp]: "split_sign (dec n) = (False, dec n)"
  by (simp add: split_sign_digits dec_hd)

lemma parse_u64_dec: "n < 2 ^ 64 \<Longrightarrow> parse_u64 (dec n) = Some (of_nat n)"
proof -
  assume n: "n < 2 ^ 64"
  obtain c r where cr: "dec n = c # r" by (meson dec_nonempty list.exhaust)
  with dec_hd [of n] digit_not_sign have "c \<noteq> CHR ''+''" by auto
  with n cr parse_digits_dec [of n] show ?thesis by (simp add: parse_u64_def)
qed

lemma parse_u64_dec_word [simp]: "parse_u64 (dec (unat w)) = Some w"
  using unat_lt_u64 [of w] by (simp add: parse_u64_dec)

lemma parse_i64_dec: "int n < 2 ^ 63 \<Longrightarrow> parse_i64 (dec n) = Some (int n)"
  by (simp add: parse_i64_def)

lemma lower_digit: "is_ascii_digit c \<Longrightarrow> ascii_lower c = c"
  by (auto simp: ascii_lower_def is_ascii_digit_def is_ascii_uppercase_def)

lemma parse_f64_dec: "parse_f64 (dec n) = Some (f64_of_nat n)"
proof -
  have d: "list_all is_ascii_digit (dec n)" by (rule dec_digits)
  have low: "map ascii_lower (dec n) = dec n"
    using d by (intro map_idI lower_digit) (simp add: list_all_iff)
  have i: "\<not> is_ascii_digit CHR ''i''" "\<not> is_ascii_digit CHR ''n''"
    by (simp_all add: is_ascii_digit_def byte_def)
  have nw: "dec n \<noteq> ''inf''" "dec n \<noteq> ''infinity''" "dec n \<noteq> ''nan''"
    using d i by (auto simp: list_all_iff)
  have tw: "takeWhile is_ascii_digit (dec n) = dec n"
    using d by (simp add: takeWhile_eq_all_conv list_all_iff)
  have dw: "dropWhile is_ascii_digit (dec n) = []"
    using d by (simp add: list_all_iff)
  show ?thesis
    using nw by (simp add: parse_f64_def low tw dw parse_exponent_def f64_decimal_def f64_of_nat_def)
qed

end
