(* ===== verification/Errors.thy ===== *)
theory Errors
  imports Text
begin

text \<open>
  \<open>ApiError\<close> of \<open>apps/server/src/error.rs\<close>: the status and message every handler
  fails with, its constructors, and the response it becomes. A fallible operation of the
  server is modelled with a sum, \<open>Inl\<close> the error.
\<close>

record api_error =
  status :: nat
  message :: string

type_synonym 'a result = "api_error + 'a"

definition api_error_of :: "nat \<Rightarrow> string \<Rightarrow> api_error" where
  "api_error_of s m = \<lparr>status = s, message = m\<rparr>"

definition bad_request :: "string \<Rightarrow> api_error" where
  "bad_request m = api_error_of 400 m"

definition bad_gateway :: "string \<Rightarrow> api_error" where
  "bad_gateway m = api_error_of 502 m"

definition conflict :: "string \<Rightarrow> api_error" where
  "conflict m = api_error_of 409 m"

definition payload_too_large :: "string \<Rightarrow> api_error" where
  "payload_too_large m = api_error_of 413 m"

definition not_found :: "string \<Rightarrow> api_error" where
  "not_found m = api_error_of 404 m"

definition unauthorized :: "string \<Rightarrow> api_error" where
  "unauthorized m = api_error_of 401 m"

definition forbidden :: "string \<Rightarrow> api_error" where
  "forbidden m = api_error_of 403 m"

definition too_many_requests :: "string \<Rightarrow> api_error" where
  "too_many_requests m = api_error_of 429 m"

definition internal :: "string \<Rightarrow> api_error" where
  "internal m = api_error_of 500 m"

definition service_unavailable :: "string \<Rightarrow> api_error" where
  "service_unavailable m = api_error_of 503 m"

lemmas api_errors = api_error_of_def bad_request_def bad_gateway_def conflict_def
  payload_too_large_def not_found_def unauthorized_def forbidden_def too_many_requests_def
  internal_def service_unavailable_def

definition SERVICE_UNAVAILABLE_RETRY_AFTER_SECONDS :: u64 where
  "SERVICE_UNAVAILABLE_RETRY_AFTER_SECONDS = 5"

text \<open>The parts of an error response: status, the JSON body's message, and the
  \<open>Retry-After\<close> header when there is one.\<close>

record error_response =
  resp_status :: nat
  resp_message :: string
  retry_after :: "u64 option"

definition into_response :: "api_error \<Rightarrow> error_response" where
  "into_response e =
     \<lparr>resp_status = status e,
      resp_message = (if status e = 500 then ''Internal server error.'' else message e),
      retry_after = (if status e = 503 \<or> status e = 429
                     then Some SERVICE_UNAVAILABLE_RETRY_AFTER_SECONDS else None)\<rparr>"

lemma into_response_internal:
  "into_response (internal m) = into_response (internal m')"
  by (simp add: into_response_def api_errors)

end
