(* ===== verification/Util.thy ===== *)
theory Util
  imports Errors
begin

text \<open>
  The shared helpers of \<open>apps/server/src/util.rs\<close>: HTTP range parsing, filename and
  archive-entry sanitising, RFC 8187 encoding, hexadecimal digests and identifiers, and
  the constant-time comparison. SHA-1 is a parameter of the two functions that hash.
\<close>

section \<open>Byte ranges\<close>

datatype byte_range =
    Satisfiable u64 u64
  | Unsatisfiable
  | Unsupported

definition parse_byte_range :: "string \<Rightarrow> u64 \<Rightarrow> byte_range" where
  "parse_byte_range header file_size =
     (case strip_prefix ''bytes='' header of
        None \<Rightarrow> Unsupported
      | Some rng \<Rightarrow>
          if CHR '','' \<in> set rng then Unsupported
          else case split_once CHR ''-'' rng of
            None \<Rightarrow> Unsupported
          | Some (start, end) \<Rightarrow>
              if start = [] then
                (case parse_u64 end of
                   None \<Rightarrow> Unsupported
                 | Some suffix_length \<Rightarrow>
                     (case checked_sub file_size 1 of
                        None \<Rightarrow> Unsatisfiable
                      | Some final \<Rightarrow>
                          if suffix_length = 0 then Unsatisfiable
                          else Satisfiable (sat_sub file_size suffix_length) final))
              else
                (case parse_u64 start of
                   None \<Rightarrow> Unsupported
                 | Some start \<Rightarrow>
                     (case (if end = [] then Some None else map_option Some (parse_u64 end)) of
                        None \<Rightarrow> Unsupported
                      | Some end \<Rightarrow>
                          if (case end of Some e \<Rightarrow> e < start | None \<Rightarrow> False) then Unsupported
                          else case checked_sub file_size 1 of
                            None \<Rightarrow> Unsatisfiable
                          | Some final \<Rightarrow>
                              if final < start then Unsatisfiable
                              else Satisfiable start
                                (case end of None \<Rightarrow> final | Some e \<Rightarrow> min e final))))"

text \<open>
  A range the server answers with partial content lies inside the file: its first
  byte is not after its last, and its last byte exists. The body copied for it never
  starts or ends outside the file.
\<close>

theorem byte_range_inside_file:
  assumes "parse_byte_range header file_size = Satisfiable s e"
  shows "s \<le> e \<and> e < file_size"
  using assms
  by (auto simp: parse_byte_range_def not_less min_def
      dest: checked_sub_one_less sat_sub_le_final
      split: option.splits if_splits prod.splits)

text \<open>
  For a header with two decimal bounds the answer is what RFC 9110 asks for: bounds in
  the wrong order make the header ignored, a start past the end of the file is refused,
  and otherwise the range is served with its end cut to the last byte.
\<close>

theorem byte_range_explicit:
  "parse_byte_range (''bytes='' @ dec (unat a) @ ''-'' @ dec (unat b)) file_size =
     (if b < a then Unsupported
      else if file_size \<le> a then Unsatisfiable
      else Satisfiable a (min b (file_size - 1)))"
proof -
  have no: "c \<notin> set (dec n)" if "\<not> is_ascii_digit c" for c n
    using dec_digits [of n] that by (auto simp: list_all_iff)
  have minus: "CHR ''-'' \<notin> set (dec n)" and comma: "CHR '','' \<notin> set (dec n)" for n
    by (auto intro!: no simp: is_ascii_digit_def byte_def)
  have split: "split_once CHR ''-'' (dec (unat a) @ CHR ''-'' # dec (unat b)) =
      Some (dec (unat a), dec (unat b))"
    by (rule split_once_append [OF minus])
  have strip: "strip_prefix ''bytes='' (''bytes='' @ r) = Some r" for r
    by (rule strip_prefix_append)
  have zero: "file_size = 0 \<Longrightarrow> file_size \<le> a" by simp
  have final: "file_size - 1 < a \<longleftrightarrow> file_size \<le> a" if "file_size \<noteq> 0"
    using that unat_minus_one [OF that] unat_gt_0 [of file_size]
    by (auto simp: word_less_nat_alt word_le_nat_alt)
  show ?thesis
    unfolding parse_byte_range_def strip
    using split by (auto simp: comma checked_sub_one zero final min.commute)
qed

section \<open>Names\<close>

definition replaced :: "ustr \<Rightarrow> uchar \<Rightarrow> uchar" where
  "replaced special c = (if c \<in> set special \<or> is_control c then cp CHR ''_'' else c)"

text \<open>The characters a filename may not hold; an archive entry keeps its slashes.\<close>

definition entry_special :: ustr where
  "entry_special = map cp [CHR 0x5C, CHR '':'', CHR ''*'', CHR ''?'', CHR 0x22, CHR ''<'', CHR ''>'',
     CHR ''|'', CHR 0x00]"

definition sanitize_filename :: "ustr \<Rightarrow> ustr" where
  "sanitize_filename value =
     (let cleaned = map (replaced (cp CHR ''/'' # entry_special)) value;
          trimmed = trim_by (\<lambda>c. c = cp CHR ''.'') (trim cleaned)
      in if trimmed = [] then cps ''audiobook'' else trimmed)"

definition sanitize_zip_entry :: "ustr \<Rightarrow> ustr" where
  "sanitize_zip_entry value =
     (let cleaned = map (replaced entry_special) value;
          trimmed = trim_start_by (\<lambda>c. c = cp CHR ''/'') cleaned
      in if trimmed = [] then cps ''track'' else trimmed)"

lemma cp_underscore: "cp CHR ''_'' = 95"
  by (simp add: cp_def)

lemma entry_special_codes: "set entry_special = {92, 58, 42, 63, 34, 60, 62, 124, 0}"
  by (simp add: entry_special_def cp_def)

lemma cp_slash: "cp CHR ''/'' = 47"
  by (simp add: cp_def)

lemma replaced_clean:
  "95 \<notin> set special \<Longrightarrow> replaced special c \<notin> set special \<and> \<not> is_control (replaced special c)"
  by (auto simp: replaced_def cp_underscore is_control_def)

text \<open>
  A name the server writes to disk or offers for download is never empty, holds no
  path separator, no character the supported filesystems reserve and no control
  character, and neither starts nor ends with a dot, so it is never a parent reference
  or a hidden file.
\<close>

theorem sanitize_filename_safe:
  "sanitize_filename name \<noteq> [] \<and>
   (\<forall>c \<in> set (sanitize_filename name). c \<noteq> 47 \<and> c \<notin> set entry_special \<and> \<not> is_control c) \<and>
   hd (sanitize_filename name) \<noteq> 46 \<and> List.last (sanitize_filename name) \<noteq> 46"
proof -
  define cleaned where "cleaned = map (replaced (cp CHR ''/'' # entry_special)) name"
  define trimmed where "trimmed = trim_by (\<lambda>c. c = cp CHR ''.'') (trim cleaned)"
  have dot: "cp CHR ''.'' = 46" by (simp add: cp_def)
  have nine: "95 \<notin> set (cp CHR ''/'' # entry_special)"
    by (simp add: entry_special_codes cp_slash)
  have clean: "c \<notin> set (cp CHR ''/'' # entry_special) \<and> \<not> is_control c" if "c \<in> set cleaned" for c
    using that replaced_clean [OF nine] by (auto simp: cleaned_def)
  have sub: "set trimmed \<subseteq> set cleaned"
    unfolding trimmed_def by (meson order_trans set_trim_by)
  have res: "sanitize_filename name = (if trimmed = [] then cps ''audiobook'' else trimmed)"
    by (simp add: sanitize_filename_def Let_def trimmed_def cleaned_def)
  show ?thesis
  proof (cases "trimmed = []")
    case True
    then show ?thesis
      by (simp add: res cps_def cp_def is_control_def entry_special_codes)
  next
    case False
    have ends: "hd trimmed \<noteq> 46" "List.last trimmed \<noteq> 46"
      using False trim_by_hd trim_by_last unfolding trimmed_def by (auto simp: dot)
    show ?thesis using False sub clean ends by (auto simp: res cp_slash)
  qed
qed

text \<open>An archive entry keeps folders but is never absolute.\<close>

lemma sanitize_zip_entry_relative:
  "sanitize_zip_entry name \<noteq> [] \<and> hd (sanitize_zip_entry name) \<noteq> 47"
  using hd_dropWhile [of "\<lambda>c. c = (47 :: uchar)" "map (replaced entry_special) name"]
  by (auto simp: sanitize_zip_entry_def trim_start_by_def Let_def cp_slash cps_def cp_def)

section \<open>Percent encoding and digests\<close>

definition hex_upper :: "nat \<Rightarrow> char" where
  "hex_upper n = (if n < 10 then char_of (48 + n) else char_of (55 + n))"

definition hex_lower :: "nat \<Rightarrow> char" where
  "hex_lower n = (if n < 10 then char_of (48 + n) else char_of (87 + n))"

definition rfc8187_plain :: "char \<Rightarrow> bool" where
  "rfc8187_plain c \<longleftrightarrow> is_ascii_alphanumeric c
     \<or> c \<in> set [CHR ''!'', CHR ''#'', CHR ''$'', CHR ''&'', CHR ''+'', CHR ''-'', CHR ''.'', CHR ''^'',
         CHR ''_'', CHR 0x60, CHR ''|'', CHR ''~'']"

fun rfc8187_encode :: "string \<Rightarrow> string" where
  "rfc8187_encode [] = []"
| "rfc8187_encode (c # r) =
     (if rfc8187_plain c then [c]
      else [CHR ''%'', hex_upper (byte c div 16), hex_upper (byte c mod 16)]) @ rfc8187_encode r"

fun hex_digest :: "string \<Rightarrow> string" where
  "hex_digest [] = []"
| "hex_digest (c # r) = hex_lower (byte c div 16) # hex_lower (byte c mod 16) # hex_digest r"

definition bytes_etag :: "(string \<Rightarrow> string) \<Rightarrow> string \<Rightarrow> string" where
  "bytes_etag sha1 data = CHR 0x22 # hex_digest (sha1 data) @ [CHR 0x22]"

definition stable_id :: "(string \<Rightarrow> string) \<Rightarrow> string \<Rightarrow> string" where
  "stable_id sha1 input = take 16 (hex_digest (sha1 input))"

definition progress_key :: "string \<Rightarrow> string \<Rightarrow> string" where
  "progress_key user_id book_id = ''user:'' @ user_id @ '':book:'' @ book_id"

text \<open>A reader's percent decoding, the specification the encoder is checked against.\<close>

definition unhex :: "char \<Rightarrow> nat" where
  "unhex c = (if byte c \<le> 57 then byte c - 48 else byte c - 55)"

fun percent_decode :: "string \<Rightarrow> string" where
  "percent_decode [] = []"
| "percent_decode (c # r) =
     (if c = CHR ''%''
      then (case r of h # l # r' \<Rightarrow> char_of (16 * unhex h + unhex l) # percent_decode r' | _ \<Rightarrow> [])
      else c # percent_decode r)"

lemma byte_lt: "byte c < 256"
  by (simp add: byte_def)

lemma unhex_hex_upper: "n < 16 \<Longrightarrow> unhex (hex_upper n) = n"
  by (auto simp: unhex_def hex_upper_def byte_def)

lemma percent_not_plain: "\<not> rfc8187_plain CHR ''%''"
  by (simp add: rfc8187_plain_def is_ascii_alphanumeric_def is_ascii_digit_def
      is_ascii_lowercase_def is_ascii_uppercase_def byte_def)

lemma hex_upper_plain: "n < 16 \<Longrightarrow> rfc8187_plain (hex_upper n)"
  by (auto simp: rfc8187_plain_def is_ascii_alphanumeric_def is_ascii_digit_def
      is_ascii_lowercase_def is_ascii_uppercase_def byte_def hex_upper_def)

text \<open>
  A filename encoded for a download header decodes to exactly the bytes it had, and
  the encoded form holds only the RFC's plain characters and percent signs, so no quote,
  separator or line break of a title reaches the header.
\<close>

theorem rfc8187_roundtrip:
  "percent_decode (rfc8187_encode s) = s \<and>
   (\<forall>c \<in> set (rfc8187_encode s). rfc8187_plain c \<or> c = CHR ''%'')"
proof (induction s)
  case (Cons c s)
  have h: "byte c div 16 < 16" "byte c mod 16 < 16" using byte_lt [of c] by auto
  have whole: "16 * (byte c div 16) + byte c mod 16 = byte c" by simp
  then have code: "char_of (16 * unhex (hex_upper (byte c div 16)) + unhex (hex_upper (byte c mod 16))) = c"
    by (simp only: unhex_hex_upper [OF h(1)] unhex_hex_upper [OF h(2)] whole)
      (simp add: byte_def)
  show ?case
    using Cons code percent_not_plain hex_upper_plain [OF h(1)] hex_upper_plain [OF h(2)]
    by auto
qed simp

section \<open>Constant-time comparison\<close>

definition constant_time_eq :: "u8 list \<Rightarrow> u8 list \<Rightarrow> bool" where
  "constant_time_eq left right =
     (if length left \<noteq> length right then False
      else fold (\<lambda>(l, r) difference. or difference (xor l r)) (zip left right) 0 = 0)"

lemma or_fold_zero:
  "fold (\<lambda>(l, r) d. or d (xor l r)) ps d = (0 :: u8) \<longleftrightarrow> d = 0 \<and> (\<forall>(l, r) \<in> set ps. l = r)"
proof (induction ps arbitrary: d)
  case (Cons p ps)
  obtain l r where p: "p = (l, r)" by fastforce
  have "or d (xor l r) = 0 \<longleftrightarrow> d = 0 \<and> l = r"
    by (auto simp: bit_eq_iff bit_or_iff bit_xor_iff)
  with Cons p show ?case by auto
qed simp

text \<open>
  The comparison that never stops at the first difference still decides equality.
\<close>

theorem constant_time_eq_iff: "constant_time_eq left right \<longleftrightarrow> left = right"
proof (cases "length left = length right")
  case True
  have "(\<forall>(l, r) \<in> set (zip left right). l = r) \<longleftrightarrow> left = right"
    using True by (induction left right rule: list_induct2) auto
  with True show ?thesis by (simp add: constant_time_eq_def or_fold_zero)
qed (auto simp: constant_time_eq_def)

section \<open>Witnesses\<close>

lemma byte_range_inside_file_witness:
  "(499 :: u64) \<le> 999 \<and> (999 :: u64) < 1000"
proof -
  have "parse_byte_range ''bytes=499-2000'' 1000 = Satisfiable 499 999" by code_simp
  then show ?thesis by (rule byte_range_inside_file)
qed

lemma sanitize_filename_safe_witness:
  "sanitize_filename (cps ''../a:b.'') = cps ''_a_b'' \<and> List.last (cps ''_a_b'') \<noteq> 46"
proof -
  have "sanitize_filename (cps ''../a:b.'') = cps ''_a_b''" by code_simp
  with sanitize_filename_safe [of "cps ''../a:b.''"] show ?thesis by simp
qed

lemma rfc8187_roundtrip_witness:
  "rfc8187_encode ''a b'' = ''a%20b'' \<and> percent_decode ''a%20b'' = ''a b''"
proof -
  have "rfc8187_encode ''a b'' = ''a%20b''" by code_simp
  with rfc8187_roundtrip [of "''a b''"] show ?thesis by simp
qed

end
