(* ===== verification/Accounts.thy ===== *)
theory Accounts
  imports Util
begin

text \<open>
  Accounts, \<open>apps/server/src/auth.rs\<close>: the stored users, the effective permissions
  of a signed-in user, and the handlers that create, change and delete accounts. Argon2,
  the clock and the generated identifiers are arguments of the handlers. A handler takes
  the store and returns either the error, with the store untouched (\<open>CachedStore::mutate\<close>
  adopts a draft only when the change succeeds), or the new store.
\<close>

section \<open>Data\<close>

definition MIN_PASSWORD_CHARS :: nat where "MIN_PASSWORD_CHARS = 12"
definition MAX_PASSWORD_CHARS :: nat where "MAX_PASSWORD_CHARS = 1024"
definition AVATAR_MAX_LENGTH :: nat where "AVATAR_MAX_LENGTH = 32"

datatype libation_access = Direct | Approval

record user =
  u_id :: string
  u_username :: ustr
  u_password_hash :: string
  u_is_admin :: bool
  u_is_owner :: bool
  u_can_approve :: bool
  u_allowed_book_ids :: "string list option"
  u_libation_access :: libation_access
  u_share_progress :: bool
  u_announce_finishes :: bool
  u_notify_finishes :: bool
  u_avatar :: "string option"
  u_created_at :: string

record users_store =
  permissions_version :: u32
  users :: "user list"

record auth_user =
  a_id :: string
  a_username :: ustr
  a_is_admin :: bool
  a_is_owner :: bool
  a_can_approve :: bool
  a_allowed_book_ids :: "string list option"
  a_libation_access :: libation_access
  a_share_progress :: bool
  a_announce_finishes :: bool
  a_notify_finishes :: bool
  a_avatar :: "string option"

record user_public =
  p_auth :: auth_user
  p_created_at :: string

definition auth_of_user :: "user \<Rightarrow> auth_user" where
  "auth_of_user u =
     \<lparr>a_id = u_id u, a_username = u_username u, a_is_admin = (u_is_admin u \<or> u_is_owner u),
      a_is_owner = u_is_owner u,
      a_can_approve = (u_is_owner u \<or> (u_is_admin u \<and> u_can_approve u)),
      a_allowed_book_ids = u_allowed_book_ids u,
      a_libation_access = (if u_is_owner u then Direct else u_libation_access u),
      a_share_progress = u_share_progress u, a_announce_finishes = u_announce_finishes u,
      a_notify_finishes = u_notify_finishes u, a_avatar = u_avatar u\<rparr>"

definition public_of_auth :: "auth_user \<Rightarrow> user_public" where
  "public_of_auth a = \<lparr>p_auth = a, p_created_at = []\<rparr>"

definition public_of_user :: "user \<Rightarrow> user_public" where
  "public_of_user u = (public_of_auth (auth_of_user u))\<lparr>p_created_at := u_created_at u\<rparr>"

definition same_name :: "ustr \<Rightarrow> ustr \<Rightarrow> bool" where
  "same_name a b \<longleftrightarrow>
     map (\<lambda>c. if 65 \<le> c \<and> c \<le> 90 then c + 32 else c) a
       = map (\<lambda>c. if 65 \<le> c \<and> c \<le> 90 then c + 32 else c) b"

section \<open>Permission checks\<close>

definition require_admin :: "auth_user \<Rightarrow> unit result" where
  "require_admin a = (if a_is_admin a then Inr () else Inl (forbidden ''Administrator access is required.''))"

definition require_owner :: "auth_user \<Rightarrow> unit result" where
  "require_owner a = (if a_is_owner a then Inr () else Inl (forbidden ''Owner access is required.''))"

definition require_libation_approver :: "auth_user \<Rightarrow> unit result" where
  "require_libation_approver a =
     (if a_can_approve a then Inr ()
      else Inl (forbidden ''Permission to approve Libation requests is required.''))"

definition can_access_book :: "auth_user \<Rightarrow> string \<Rightarrow> bool" where
  "can_access_book a book_id \<longleftrightarrow>
     a_is_admin a \<or> (case a_allowed_book_ids a of None \<Rightarrow> True | Some ids \<Rightarrow> book_id \<in> set ids)"

definition require_book_access :: "auth_user \<Rightarrow> string \<Rightarrow> unit result" where
  "require_book_access a book_id =
     (if can_access_book a book_id then Inr () else Inl (not_found ''Book not found''))"

section \<open>Validation\<close>

definition normalize_username :: "ustr \<Rightarrow> ustr" where
  "normalize_username v = trim v"

definition validate_password :: "ustr \<Rightarrow> unit result" where
  "validate_password password =
     (if length password < MIN_PASSWORD_CHARS
      then Inl (bad_request ''Password must be at least 12 characters long.'')
      else if length password > MAX_PASSWORD_CHARS
      then Inl (bad_request ''Password must be at most 1024 characters long.'')
      else Inr ())"

definition validate_username :: "ustr \<Rightarrow> unit result" where
  "validate_username username =
     (if trim username = [] then Inl (bad_request ''Username is required.'')
      else if length (trim username) > 64 then Inl (bad_request ''Username is too long.'')
      else Inr ())"

definition validate_avatar :: "string \<Rightarrow> unit result" where
  "validate_avatar avatar =
     (if avatar \<noteq> [] \<and> length avatar \<le> AVATAR_MAX_LENGTH
         \<and> list_all (\<lambda>c. is_ascii_lowercase c \<or> is_ascii_digit c \<or> c = CHR ''-'') avatar
      then Inr ()
      else Inl (bad_request ''A picture is named with lowercase letters, digits, and hyphens.''))"

section \<open>The permissions migration\<close>

definition migrate_admin :: "user \<Rightarrow> user" where
  "migrate_admin u = (if u_is_admin u then u\<lparr>u_libation_access := Direct, u_can_approve := True\<rparr> else u)"

definition make_owner :: "user \<Rightarrow> user" where
  "make_owner u = u\<lparr>u_is_admin := True, u_is_owner := True, u_libation_access := Direct, u_can_approve := True\<rparr>"

definition appoint_owner :: "user list \<Rightarrow> user list" where
  "appoint_owner us =
     (if \<exists>u \<in> set us. u_is_owner u then us
      else if \<exists>u \<in> set us. u_is_admin u then update_first u_is_admin (\<lambda>u. u\<lparr>u_is_owner := True\<rparr>) us
      else case us of [] \<Rightarrow> [] | first # rest \<Rightarrow> make_owner first # rest)"

definition migrate_users_permissions :: "users_store \<Rightarrow> users_store \<times> bool" where
  "migrate_users_permissions store =
     (if 1 \<le> permissions_version store then (store, False)
      else (\<lparr>permissions_version = 1, users = appoint_owner (map migrate_admin (users store))\<rparr>, True))"

section \<open>Handlers\<close>

record setup_request =
  su_username :: ustr
  su_password :: ustr

record create_user_request =
  cu_username :: ustr
  cu_password :: ustr
  cu_is_admin :: bool
  cu_is_owner :: bool
  cu_can_approve :: bool
  cu_libation_access :: "libation_access option"
  cu_allowed_book_ids :: "string list option"

definition bind :: "'a result \<Rightarrow> ('a \<Rightarrow> 'b result) \<Rightarrow> 'b result" where
  "bind r f = (case r of Inl e \<Rightarrow> Inl e | Inr v \<Rightarrow> f v)"

lemma bind_Inr [simp]: "bind (Inr v) f = f v" and bind_Inl [simp]: "bind (Inl e) f = Inl e"
  by (simp_all add: bind_def)

lemma bind_InrD: "bind r f = Inr w \<Longrightarrow> \<exists>v. r = Inr v \<and> f v = Inr w"
  by (cases r) auto

text \<open>The deployment mode and the setup token of \<open>apps/server/src/config.rs\<close>;
  \<open>digest\<close> is the SHA-256 digest of the prefixed token.\<close>

datatype deployment_mode = Local | Lan | Proxy

fun secure_cookies :: "deployment_mode \<Rightarrow> bool" where
  "secure_cookies Lan = False"
| "secure_cookies _ = True"

fun allows_remote_setup :: "deployment_mode \<Rightarrow> bool" where
  "allows_remote_setup Local = False"
| "allows_remote_setup _ = True"

fun setup_token_required :: "deployment_mode \<Rightarrow> bool" where
  "setup_token_required Proxy = True"
| "setup_token_required _ = False"

record setup_token =
  st_digest :: "u8 list"
  st_expires_at :: u64

definition setup_token_matches :: "(string \<Rightarrow> u8 list) \<Rightarrow> setup_token \<Rightarrow> string \<Rightarrow> u64 \<Rightarrow> bool" where
  "setup_token_matches digest token candidate now_seconds \<longleftrightarrow>
     now_seconds \<le> st_expires_at token \<and> constant_time_eq (st_digest token) (digest candidate)"

definition setup_gate ::
  "(string \<Rightarrow> u8 list) \<Rightarrow> deployment_mode \<Rightarrow> bool \<Rightarrow> setup_token option \<Rightarrow> string option \<Rightarrow> u64 \<Rightarrow> unit result" where
  "setup_gate digest mode remote_client stored candidate now_seconds =
     (if remote_client \<and> \<not> allows_remote_setup mode
      then Inl (forbidden ''First-run setup must be completed from the server itself in local mode.'')
      else if setup_token_required mode
           \<and> \<not> (case stored of None \<Rightarrow> False
               | Some token \<Rightarrow> setup_token_matches digest token
                   (case candidate of Some c \<Rightarrow> c | None \<Rightarrow> []) now_seconds)
      then Inl (forbidden ''The setup token is invalid or expired. Restart the server to generate a new token.'')
      else Inr ())"

text \<open>\<open>setup_admin\<close>, given what the gate decided; the account is created only while there is
  none, which the commit checks again.\<close>

definition setup_user :: "setup_request \<Rightarrow> string \<Rightarrow> string \<Rightarrow> string \<Rightarrow> user" where
  "setup_user req hash new_id now =
     \<lparr>u_id = new_id, u_username = normalize_username (su_username req), u_password_hash = hash,
      u_is_admin = True, u_is_owner = True, u_can_approve = True, u_allowed_book_ids = None,
      u_libation_access = Direct, u_share_progress = True, u_announce_finishes = True,
      u_notify_finishes = True, u_avatar = None, u_created_at = now\<rparr>"

definition setup_commit :: "user \<Rightarrow> users_store \<Rightarrow> users_store result" where
  "setup_commit new_user store =
     (if users store \<noteq> []
      then Inl (conflict ''Setup was completed by another request. Sign in instead.'')
      else Inr (store\<lparr>users := users store @ [new_user]\<rparr>))"

definition setup_admin ::
  "unit result \<Rightarrow> (ustr \<Rightarrow> string result) \<Rightarrow> setup_request \<Rightarrow> string \<Rightarrow> string \<Rightarrow> users_store \<Rightarrow> users_store result" where
  "setup_admin gate hash_password req new_id now store =
     bind gate (\<lambda>_.
       if users store \<noteq> [] then Inl (bad_request ''Setup has already been completed. Sign in instead.'')
       else bind (validate_username (normalize_username (su_username req))) (\<lambda>_.
            bind (validate_password (su_password req)) (\<lambda>_.
            bind (hash_password (su_password req)) (\<lambda>hash.
              setup_commit (setup_user req hash new_id now) store))))"

definition created_user :: "auth_user \<Rightarrow> create_user_request \<Rightarrow> string \<Rightarrow> string \<Rightarrow> string \<Rightarrow> user" where
  "created_user auth req hash new_id now =
      \<lparr>u_id = new_id, u_username = normalize_username (cu_username req), u_password_hash = hash,
       u_is_admin = (cu_is_admin req \<or> cu_is_owner req), u_is_owner = cu_is_owner req,
       u_can_approve = (cu_is_owner req
         \<or> (a_is_owner auth \<and> (cu_is_admin req \<or> cu_is_owner req) \<and> cu_can_approve req)),
       u_allowed_book_ids = (if cu_is_admin req \<or> cu_is_owner req then None else cu_allowed_book_ids req),
       u_libation_access =
         (if cu_is_owner req then Direct
          else case cu_libation_access req of
                 Some access \<Rightarrow> access
               | None \<Rightarrow> if cu_is_admin req \<or> cu_is_owner req then Direct else Approval),
       u_share_progress = True, u_announce_finishes = True, u_notify_finishes = True,
       u_avatar = None, u_created_at = now\<rparr>"

definition create_user ::
  "(ustr \<Rightarrow> string result) \<Rightarrow> auth_user \<Rightarrow> create_user_request \<Rightarrow> string \<Rightarrow> string
   \<Rightarrow> users_store \<Rightarrow> users_store result" where
  "create_user hash_password auth req new_id now store =
     bind (require_admin auth) (\<lambda>_.
       if (cu_is_admin req \<or> cu_is_owner req) \<and> \<not> a_is_owner auth
       then Inl (forbidden ''Only an owner can create an administrator or owner account.'')
       else if \<not> a_is_owner auth \<and> cu_libation_access req = Some Direct
       then Inl (forbidden ''Only an owner can grant direct Libation access.'')
       else bind (validate_username (normalize_username (cu_username req))) (\<lambda>_.
            bind (validate_password (cu_password req)) (\<lambda>_.
            bind (hash_password (cu_password req)) (\<lambda>hash.
              if \<exists>u \<in> set (users store). same_name (u_username u) (normalize_username (cu_username req))
              then Inl (bad_request ''That username is already taken.'')
              else Inr (store\<lparr>users := users store @ [created_user auth req hash new_id now]\<rparr>)))))"

definition owner_count :: "user list \<Rightarrow> nat" where
  "owner_count us = length (filter u_is_owner us)"

text \<open>\<open>delete_user\<close>, its change of the account store; \<open>removed\<close> is the outcome of
  removing the provider credential file.\<close>

definition delete_account ::
  "auth_user \<Rightarrow> unit result \<Rightarrow> string \<Rightarrow> users_store \<Rightarrow> users_store result" where
  "delete_account auth removed user_id store =
     bind (require_admin auth) (\<lambda>_.
       if user_id = a_id auth
       then Inl (bad_request ''You cannot delete your own account while signed in.'')
       else case List.find (\<lambda>u. u_id u = user_id) (users store) of
         None \<Rightarrow> Inl (not_found ''User not found.'')
       | Some target \<Rightarrow>
           if (u_is_admin target \<or> u_is_owner target) \<and> \<not> a_is_owner auth
           then Inl (forbidden ''Only an owner can delete an administrator or owner.'')
           else if u_is_owner target \<and> owner_count (users store) \<le> 1
           then Inl (conflict ''The final owner cannot be deleted.'')
           else bind removed (\<lambda>_.
             Inr (store\<lparr>users := filter (\<lambda>u. u_id u \<noteq> user_id) (users store)\<rparr>)))"

definition password_reset_needs_owner :: "user \<Rightarrow> bool" where
  "password_reset_needs_owner u \<longleftrightarrow> u_is_admin u \<or> u_is_owner u \<or> u_libation_access u = Direct"

definition owner_only_password_reset :: api_error where
  "owner_only_password_reset = forbidden
     ''Only an owner can reset the password of an administrator, an owner, or an account with direct Libation access.''"

text \<open>\<open>change_password\<close> in the two halves between which other requests may run: the
  checks against a snapshot, which yield the hash that was verified, and the mutation.\<close>

definition change_password_check ::
  "(ustr \<Rightarrow> string \<Rightarrow> bool) \<Rightarrow> auth_user \<Rightarrow> string \<Rightarrow> ustr option \<Rightarrow> ustr \<Rightarrow> users_store \<Rightarrow> string result" where
  "change_password_check verify auth user_id current_password new_password store =
     (if a_id auth \<noteq> user_id \<and> \<not> a_is_admin auth
      then Inl (forbidden ''You can only change your own password.'')
      else bind (validate_password new_password) (\<lambda>_.
        case List.find (\<lambda>u. u_id u = user_id) (users store) of
          None \<Rightarrow> Inl (not_found ''User not found.'')
        | Some u \<Rightarrow>
            if a_id auth \<noteq> user_id \<and> password_reset_needs_owner u \<and> \<not> a_is_owner auth
            then Inl owner_only_password_reset
            else if a_id auth = user_id
                 \<and> \<not> verify (case current_password of Some p \<Rightarrow> p | None \<Rightarrow> []) (u_password_hash u)
            then Inl (unauthorized ''Current password is incorrect.'')
            else Inr (u_password_hash u)))"

definition change_password_commit ::
  "auth_user \<Rightarrow> string \<Rightarrow> string \<Rightarrow> string \<Rightarrow> users_store \<Rightarrow> users_store result" where
  "change_password_commit auth user_id current_hash new_hash store =
     (case List.find (\<lambda>u. u_id u = user_id) (users store) of
        None \<Rightarrow> Inl (not_found ''User not found.'')
      | Some u \<Rightarrow>
          if a_id auth \<noteq> user_id \<and> password_reset_needs_owner u \<and> \<not> a_is_owner auth
          then Inl owner_only_password_reset
          else if a_id auth = user_id \<and> u_password_hash u \<noteq> current_hash
          then Inl (unauthorized ''Current password is incorrect.'')
          else Inr (store\<lparr>users := update_first (\<lambda>u. u_id u = user_id)
                 (\<lambda>u. u\<lparr>u_password_hash := new_hash\<rparr>) (users store)\<rparr>))"

text \<open>The loop over the requested books, with the set of identifiers seen so far.\<close>

fun normalize_book_ids :: "string set \<Rightarrow> string set \<Rightarrow> string list \<Rightarrow> string list \<Rightarrow> string list result" where
  "normalize_book_ids available seen normalized [] = Inr normalized"
| "normalize_book_ids available seen normalized (b # bs) =
     (if b \<notin> available then Inl (bad_request (''Book `'' @ b @ ''` is not in the library.''))
      else if b \<in> seen then normalize_book_ids available seen normalized bs
      else normalize_book_ids available (insert b seen) (normalized @ [b]) bs)"

definition requested_books :: "string set \<Rightarrow> string list option \<Rightarrow> string list option result" where
  "requested_books available requested =
     (case requested of
        None \<Rightarrow> Inr None
      | Some ids \<Rightarrow> map_sum id Some (normalize_book_ids available {} [] ids))"

definition update_book_access ::
  "auth_user \<Rightarrow> string set \<Rightarrow> string \<Rightarrow> string list option \<Rightarrow> users_store \<Rightarrow> users_store result" where
  "update_book_access auth available user_id requested store =
     bind (require_admin auth) (\<lambda>_.
     bind (requested_books available requested) (\<lambda>allowed.
       if \<exists>u \<in> set (users store). u_id u = user_id
       then Inr (store\<lparr>users := update_first (\<lambda>u. u_id u = user_id)
              (\<lambda>u. u\<lparr>u_allowed_book_ids := (if u_is_admin u then None else allowed)\<rparr>) (users store)\<rparr>)
       else Inl (not_found ''User not found.'')))"

definition role_change :: "bool \<Rightarrow> bool \<Rightarrow> user \<Rightarrow> user" where
  "role_change is_admin is_owner u =
     (let v = u\<lparr>u_is_owner := is_owner, u_is_admin := is_admin \<or> is_owner\<rparr> in
      if is_owner then v\<lparr>u_libation_access := Direct, u_can_approve := True, u_allowed_book_ids := None\<rparr>
      else if is_admin then v\<lparr>u_allowed_book_ids := None\<rparr>
      else v\<lparr>u_can_approve := False,
             u_libation_access := (if u_is_admin u then Approval else u_libation_access u)\<rparr>)"

definition update_user_role ::
  "auth_user \<Rightarrow> string \<Rightarrow> bool \<Rightarrow> bool \<Rightarrow> users_store \<Rightarrow> users_store result" where
  "update_user_role auth user_id is_admin is_owner store =
     bind (require_owner auth) (\<lambda>_.
       case List.find (\<lambda>u. u_id u = user_id) (users store) of
         None \<Rightarrow> Inl (not_found ''User not found.'')
       | Some target \<Rightarrow>
           if u_is_owner target \<and> \<not> is_owner \<and> owner_count (users store) \<le> 1
           then Inl (conflict ''The final owner cannot be demoted.'')
           else Inr (store\<lparr>users := update_first (\<lambda>u. u_id u = user_id)
                  (role_change is_admin is_owner) (users store)\<rparr>))"

definition update_progress_sharing ::
  "auth_user \<Rightarrow> bool \<Rightarrow> bool option \<Rightarrow> bool option \<Rightarrow> users_store \<Rightarrow> users_store result" where
  "update_progress_sharing auth share announce notify store =
     (if \<exists>u \<in> set (users store). u_id u = a_id auth
      then Inr (store\<lparr>users := update_first (\<lambda>u. u_id u = a_id auth)
             (\<lambda>u. u\<lparr>u_share_progress := share,
                u_announce_finishes := (case announce of Some v \<Rightarrow> v | None \<Rightarrow> u_announce_finishes u),
                u_notify_finishes := (case notify of Some v \<Rightarrow> v | None \<Rightarrow> u_notify_finishes u)\<rparr>)
             (users store)\<rparr>)
      else Inl (not_found ''User not found.''))"

definition update_avatar :: "auth_user \<Rightarrow> string option \<Rightarrow> users_store \<Rightarrow> users_store result" where
  "update_avatar auth avatar store =
     bind (case avatar of Some a \<Rightarrow> validate_avatar a | None \<Rightarrow> Inr ()) (\<lambda>_.
       if \<exists>u \<in> set (users store). u_id u = a_id auth
       then Inr (store\<lparr>users := update_first (\<lambda>u. u_id u = a_id auth)
              (\<lambda>u. u\<lparr>u_avatar := avatar\<rparr>) (users store)\<rparr>)
       else Inl (not_found ''User not found.''))"

definition list_users :: "auth_user \<Rightarrow> users_store \<Rightarrow> user_public list result" where
  "list_users auth store = bind (require_admin auth) (\<lambda>_. Inr (map public_of_user (users store)))"

text \<open>The two handlers of \<open>apps/server/src/libation.rs\<close> that write account permissions.\<close>

definition update_libation_access ::
  "auth_user \<Rightarrow> string \<Rightarrow> libation_access \<Rightarrow> users_store \<Rightarrow> users_store result" where
  "update_libation_access auth user_id access store =
     bind (require_admin auth) (\<lambda>_.
       case List.find (\<lambda>u. u_id u = user_id) (users store) of
         None \<Rightarrow> Inl (not_found ''User not found.'')
       | Some u \<Rightarrow>
           if u_is_owner u then Inl (bad_request ''Owners always have direct Libation access.'')
           else if u_is_admin u \<and> \<not> a_is_owner auth
           then Inl (forbidden ''Only an owner can change an administrator's Libation access.'')
           else if \<not> a_is_owner auth \<and> access = Direct
           then Inl (forbidden ''Only an owner can grant direct Libation access.'')
           else Inr (store\<lparr>users := update_first (\<lambda>u. u_id u = user_id)
                  (\<lambda>u. u\<lparr>u_libation_access := access\<rparr>) (users store)\<rparr>))"

definition update_libation_approval ::
  "auth_user \<Rightarrow> string \<Rightarrow> bool \<Rightarrow> users_store \<Rightarrow> users_store result" where
  "update_libation_approval auth user_id can_approve store =
     bind (require_owner auth) (\<lambda>_.
       case List.find (\<lambda>u. u_id u = user_id) (users store) of
         None \<Rightarrow> Inl (not_found ''User not found.'')
       | Some u \<Rightarrow>
           if \<not> u_is_admin u \<and> \<not> u_is_owner u
           then Inl (bad_request ''Only administrators can approve Libation requests.'')
           else if u_is_owner u \<and> \<not> can_approve
           then Inl (bad_request ''Owners always have permission to approve Libation requests.'')
           else Inr (store\<lparr>users := update_first (\<lambda>u. u_id u = user_id)
                  (\<lambda>u. u\<lparr>u_can_approve := can_approve\<rparr>) (users store)\<rparr>))"

section \<open>Requests and histories\<close>

datatype account_request =
    SetUp "unit result" setup_request "string result" string string
  | Create auth_user create_user_request "string result" string string
  | Delete auth_user "unit result" string
  | SetPassword auth_user string string string
  | SetBooks auth_user "string set" string "string list option"
  | SetRole auth_user string bool bool
  | SetSharing auth_user bool "bool option" "bool option"
  | SetAvatar auth_user "string option"
  | SetLibation auth_user string libation_access
  | SetApproval auth_user string bool

fun account_apply :: "account_request \<Rightarrow> users_store \<Rightarrow> users_store result" where
  "account_apply (SetUp gate req hash new_id now) s = setup_admin gate (\<lambda>_. hash) req new_id now s"
| "account_apply (Create a req hash new_id now) s = create_user (\<lambda>_. hash) a req new_id now s"
| "account_apply (Delete a removed k) s = delete_account a removed k s"
| "account_apply (SetPassword a k old new) s = change_password_commit a k old new s"
| "account_apply (SetBooks a available k ids) s = update_book_access a available k ids s"
| "account_apply (SetRole a k adm own) s = update_user_role a k adm own s"
| "account_apply (SetSharing a x y z) s = update_progress_sharing a x y z s"
| "account_apply (SetAvatar a x) s = update_avatar a x s"
| "account_apply (SetLibation a k x) s = update_libation_access a k x s"
| "account_apply (SetApproval a k x) s = update_libation_approval a k x s"

text \<open>Who acts: the user the middleware resolved, possibly some time before the commit.\<close>

fun actor :: "account_request \<Rightarrow> auth_user option" where
  "actor (SetUp gate req hash new_id now) = None"
| "actor (Create a req hash new_id now) = Some a"
| "actor (Delete a removed k) = Some a"
| "actor (SetPassword a k old new) = Some a"
| "actor (SetBooks a available k ids) = Some a"
| "actor (SetRole a k adm own) = Some a"
| "actor (SetSharing a x y z) = Some a"
| "actor (SetAvatar a x) = Some a"
| "actor (SetLibation a k x) = Some a"
| "actor (SetApproval a k x) = Some a"

text \<open>Generated identifiers are new, and a request other than the setup needs an account to
  sign in with.\<close>

fun account_ok :: "account_request \<Rightarrow> users_store \<Rightarrow> bool" where
  "account_ok (SetUp gate req hash new_id now) s \<longleftrightarrow> new_id \<notin> u_id ` set (users s)"
| "account_ok (Create a req hash new_id now) s \<longleftrightarrow> new_id \<notin> u_id ` set (users s) \<and> users s \<noteq> []"
| "account_ok _ s \<longleftrightarrow> users s \<noteq> []"

text \<open>A failed request leaves the store as it was.\<close>

definition account_step :: "account_request \<Rightarrow> users_store \<Rightarrow> users_store" where
  "account_step e s = (case account_apply e s of Inl err \<Rightarrow> s | Inr s' \<Rightarrow> s')"

fun account_run :: "account_request list \<Rightarrow> users_store \<Rightarrow> users_store option" where
  "account_run [] s = Some s"
| "account_run (e # es) s = (if account_ok e s then account_run es (account_step e s) else None)"

definition user_ok :: "user \<Rightarrow> bool" where
  "user_ok u \<longleftrightarrow>
     (u_is_owner u \<longrightarrow> u_is_admin u \<and> u_can_approve u \<and> u_libation_access u = Direct)
     \<and> (u_can_approve u \<longrightarrow> u_is_admin u) \<and> (u_is_admin u \<longrightarrow> u_allowed_book_ids u = None)"

definition distinct_names :: "user list \<Rightarrow> bool" where
  "distinct_names us \<longleftrightarrow> sorted_wrt (\<lambda>u v. \<not> same_name (u_username u) (u_username v)) us"

definition accounts_inv :: "users_store \<Rightarrow> bool" where
  "accounts_inv s \<longleftrightarrow>
     distinct (map u_id (users s)) \<and> distinct_names (users s)
     \<and> (\<forall>u \<in> set (users s). user_ok u) \<and> (users s \<noteq> [] \<longrightarrow> (\<exists>u \<in> set (users s). u_is_owner u))"

section \<open>Every request keeps the invariant\<close>

lemma accounts_invD:
  assumes "accounts_inv s"
  shows "distinct (map u_id (users s))" "distinct_names (users s)"
    and "u \<in> set (users s) \<Longrightarrow> user_ok u"
    and "users s \<noteq> [] \<Longrightarrow> \<exists>u \<in> set (users s). u_is_owner u"
  using assms by (auto simp: accounts_inv_def)

text \<open>With two owners, one is left whoever is taken away.\<close>

lemma another_owner:
  assumes "distinct (map u_id us)" "\<not> owner_count us \<le> 1"
  shows "\<exists>u \<in> set us. u_is_owner u \<and> u_id u \<noteq> k"
proof -
  obtain a b r where ab: "filter u_is_owner us = a # b # r"
    using assms(2) by (cases "filter u_is_owner us" rule: list.exhaust; cases "tl (filter u_is_owner us)")
      (auto simp: owner_count_def)
  have "distinct (map u_id (filter u_is_owner us))" using assms(1) by (rule distinct_map_filter)
  then have "u_id a \<noteq> u_id b" using ab by auto
  moreover have "a \<in> set (filter u_is_owner us)" "b \<in> set (filter u_is_owner us)" by (simp_all add: ab)
  ultimately show ?thesis by auto
qed

definition edited :: "string \<Rightarrow> (user \<Rightarrow> user) \<Rightarrow> user \<Rightarrow> user" where
  "edited k f u = (if u_id u = k then f u else u)"

lemma edit_as_map:
  assumes "accounts_inv s"
  shows "update_first (\<lambda>u. u_id u = k) f (users s) = map (edited k f) (users s)"
  using update_first_key [OF accounts_invD(1) [OF assms]] by (simp add: edited_def [abs_def])

lemma edit_inv:
  assumes inv: "accounts_inv s"
    and keep: "\<And>u. u_id (f u) = u_id u" "\<And>u. u_username (f u) = u_username u"
    and ok: "\<And>u. u \<in> set (users s) \<Longrightarrow> u_id u = k \<Longrightarrow> user_ok (f u)"
    and own: "(\<exists>u \<in> set (users s). u_is_owner u \<and> u_id u \<noteq> k)
        \<or> (\<forall>u \<in> set (users s). u_id u = k \<longrightarrow> u_is_owner u \<longrightarrow> u_is_owner (f u))"
  shows "accounts_inv (s\<lparr>users := update_first (\<lambda>u. u_id u = k) f (users s)\<rparr>)"
proof -
  have ids: "u_id (edited k f u) = u_id u" and names: "u_username (edited k f u) = u_username u" for u
    by (simp_all add: edited_def keep)
  have "u_id \<circ> edited k f = u_id" by (simp add: fun_eq_iff ids)
  then have "distinct (map u_id (map (edited k f) (users s)))"
    using accounts_invD(1) [OF inv] by simp
  moreover have "distinct_names (map (edited k f) (users s))"
    using accounts_invD(2) [OF inv] by (simp add: distinct_names_def sorted_wrt_map names)
  moreover have "\<forall>u \<in> set (map (edited k f) (users s)). user_ok u"
    using accounts_invD(3) [OF inv] ok by (auto simp: edited_def)
  moreover have "\<exists>u \<in> set (map (edited k f) (users s)). u_is_owner u" if ne: "users s \<noteq> []"
  proof -
    obtain u where "u \<in> set (users s)" "u_is_owner (edited k f u)"
      using accounts_invD(4) [OF inv ne] own by (auto simp: edited_def)
    then show ?thesis by auto
  qed
  ultimately show ?thesis unfolding edit_as_map [OF inv] accounts_inv_def by auto
qed

lemma append_inv:
  assumes inv: "accounts_inv s" and new: "u_id v \<notin> u_id ` set (users s)"
    and names: "\<And>u. u \<in> set (users s) \<Longrightarrow> \<not> same_name (u_username u) (u_username v)"
    and ok: "user_ok v" and own: "users s = [] \<Longrightarrow> u_is_owner v"
  shows "accounts_inv (s\<lparr>users := users s @ [v]\<rparr>)"
  using accounts_invD [OF inv] assms(2-5)
  by (cases "users s = []") (auto simp: accounts_inv_def distinct_names_def sorted_wrt_append)

lemma remove_inv:
  assumes inv: "accounts_inv s" and own: "\<exists>u \<in> set (users s). u_is_owner u \<and> u_id u \<noteq> k"
  shows "accounts_inv (s\<lparr>users := filter (\<lambda>u. u_id u \<noteq> k) (users s)\<rparr>)"
  using accounts_invD [OF inv] own
  by (auto simp: accounts_inv_def distinct_names_def distinct_map_filter sorted_wrt_filter)

lemma found:
  "List.find (\<lambda>u. u_id u = k) us = Some u \<Longrightarrow> u \<in> set us \<and> u_id u = k"
  using find_Some_in by fastforce

lemma found_only:
  assumes "accounts_inv s" "List.find (\<lambda>u. u_id u = k) (users s) = Some u" "v \<in> set (users s)" "u_id v = k"
  shows "v = u"
  using found [OF assms(2)] assms accounts_invD(1) by (metis distinct_map inj_onD)

text \<open>An edit that leaves permissions alone, or grants nothing to a non-administrator.\<close>

lemma setup_admin_inv:
  assumes "accounts_inv s" "setup_admin gate hash req new_id now s = Inr s'"
  shows "accounts_inv s'"
proof -
  have e: "users s = []" "\<exists>h. s' = s\<lparr>users := users s @ [setup_user req h new_id now]\<rparr>"
    using assms(2) by (auto simp: setup_admin_def setup_commit_def split: if_splits dest!: bind_InrD)
  then obtain h where "s' = s\<lparr>users := users s @ [setup_user req h new_id now]\<rparr>" by blast
  with e(1) show ?thesis
    using append_inv [OF assms(1), of "setup_user req h new_id now"] by (simp add: setup_user_def user_ok_def)
qed

lemma create_user_inv:
  assumes inv: "accounts_inv s" and run: "create_user hash auth req new_id now s = Inr s'"
    and fresh: "new_id \<notin> u_id ` set (users s)" "users s \<noteq> []"
  shows "accounts_inv s'"
proof -
  obtain h where e: "s' = s\<lparr>users := users s @ [created_user auth req h new_id now]\<rparr>"
      "\<not> (\<exists>u \<in> set (users s). same_name (u_username u) (normalize_username (cu_username req)))"
    using run by (auto simp: create_user_def split: if_splits dest!: bind_InrD)
  have "user_ok (created_user auth req h new_id now)"
    by (simp add: created_user_def user_ok_def Let_def)
  with append_inv [OF inv, of "created_user auth req h new_id now"] e fresh show ?thesis
    by (auto simp: created_user_def Let_def)
qed

lemma delete_account_inv:
  assumes inv: "accounts_inv s" and run: "delete_account auth removed k s = Inr s'"
  shows "accounts_inv s'"
proof -
  obtain target where t: "List.find (\<lambda>u. u_id u = k) (users s) = Some target"
      "\<not> (u_is_owner target \<and> owner_count (users s) \<le> 1)"
      "s' = s\<lparr>users := filter (\<lambda>u. u_id u \<noteq> k) (users s)\<rparr>"
    using run by (auto simp: delete_account_def split: if_splits option.splits dest!: bind_InrD)
  have "\<exists>u \<in> set (users s). u_is_owner u \<and> u_id u \<noteq> k"
  proof (cases "u_is_owner target")
    case True
    then show ?thesis using another_owner [OF accounts_invD(1) [OF inv]] t(2) by blast
  next
    case False
    have "users s \<noteq> []" using found [OF t(1)] by auto
    then obtain u where "u \<in> set (users s)" "u_is_owner u" using accounts_invD(4) [OF inv] by blast
    then show ?thesis using found_only [OF inv t(1)] False by blast
  qed
  with remove_inv [OF inv] t(3) show ?thesis by simp
qed

lemma update_user_role_inv:
  assumes inv: "accounts_inv s" and run: "update_user_role auth k adm own s = Inr s'"
  shows "accounts_inv s'"
proof -
  obtain target where t: "List.find (\<lambda>u. u_id u = k) (users s) = Some target"
      "\<not> (u_is_owner target \<and> \<not> own \<and> owner_count (users s) \<le> 1)"
      "s' = s\<lparr>users := update_first (\<lambda>u. u_id u = k) (role_change adm own) (users s)\<rparr>"
    using run by (auto simp: update_user_role_def split: if_splits option.splits dest!: bind_InrD)
  show ?thesis unfolding t(3)
  proof (rule edit_inv [OF inv])
    show "(\<exists>u \<in> set (users s). u_is_owner u \<and> u_id u \<noteq> k)
        \<or> (\<forall>u \<in> set (users s). u_id u = k \<longrightarrow> u_is_owner u \<longrightarrow> u_is_owner (role_change adm own u))"
    proof (cases "u_is_owner target \<and> \<not> own")
      case True
      then show ?thesis using another_owner [OF accounts_invD(1) [OF inv]] t(2) by blast
    next
      case False
      have "u_is_owner (role_change adm own u)" if "u \<in> set (users s)" "u_id u = k" "u_is_owner u" for u
        using found_only [OF inv t(1) that(1,2)] that(3) False by (simp add: role_change_def Let_def)
      then show ?thesis by blast
    qed
    fix u assume "u \<in> set (users s)"
    then show "user_ok (role_change adm own u)"
      using accounts_invD(3) [OF inv] by (auto simp: user_ok_def role_change_def Let_def)
  qed (simp_all add: role_change_def Let_def)
qed

lemma account_step_inv:
  assumes inv: "accounts_inv s" and ok: "account_ok e s" and run: "account_apply e s = Inr s'"
  shows "accounts_inv s'"
proof -
  note userD = accounts_invD(3) [OF inv]
  show ?thesis
  proof (cases e)
    case (SetUp gate req hash new_id now)
    with setup_admin_inv [OF inv] run show ?thesis by simp
  next
    case (Create a req hash new_id now)
    with create_user_inv [OF inv] run ok show ?thesis by simp
  next
    case (Delete a removed k)
    with delete_account_inv [OF inv] run show ?thesis by simp
  next
    case (SetRole a k adm own)
    with update_user_role_inv [OF inv] run show ?thesis by simp
  next
    case (SetPassword a k old new)
    then have "s' = s\<lparr>users := update_first (\<lambda>u. u_id u = k) (\<lambda>u. u\<lparr>u_password_hash := new\<rparr>) (users s)\<rparr>"
      using run by (auto simp: change_password_commit_def split: if_splits option.splits)
    then show ?thesis by (auto intro!: edit_inv [OF inv] dest!: userD simp: user_ok_def)
  next
    case (SetBooks a available k ids)
    then obtain allowed where "s' = s\<lparr>users := update_first (\<lambda>u. u_id u = k)
        (\<lambda>u. u\<lparr>u_allowed_book_ids := (if u_is_admin u then None else allowed)\<rparr>) (users s)\<rparr>"
      using run by (auto simp: update_book_access_def split: if_splits dest!: bind_InrD)
    then show ?thesis by (auto intro!: edit_inv [OF inv] dest!: userD simp: user_ok_def)
  next
    case (SetSharing a x y z)
    then show ?thesis using run
      by (auto simp: update_progress_sharing_def user_ok_def intro!: edit_inv [OF inv] dest!: userD split: if_splits)
  next
    case (SetAvatar a x)
    then show ?thesis using run
      by (auto simp: update_avatar_def user_ok_def intro!: edit_inv [OF inv] dest!: userD bind_InrD split: if_splits)
  next
    case (SetLibation a k x)
    then obtain u where u: "List.find (\<lambda>u. u_id u = k) (users s) = Some u" "\<not> u_is_owner u"
        "s' = s\<lparr>users := update_first (\<lambda>u. u_id u = k) (\<lambda>u. u\<lparr>u_libation_access := x\<rparr>) (users s)\<rparr>"
      using run by (auto simp: update_libation_access_def split: if_splits option.splits dest!: bind_InrD)
    show ?thesis unfolding u(3)
    proof (rule edit_inv [OF inv])
      fix v assume v: "v \<in> set (users s)" "u_id v = k"
      then show "user_ok (v\<lparr>u_libation_access := x\<rparr>)"
        using userD [OF v(1)] found_only [OF inv u(1) v] u(2) by (simp add: user_ok_def)
    qed simp_all
  next
    case (SetApproval a k x)
    then obtain u where u: "List.find (\<lambda>u. u_id u = k) (users s) = Some u"
        "u_is_admin u \<or> u_is_owner u" "\<not> (u_is_owner u \<and> \<not> x)"
        "s' = s\<lparr>users := update_first (\<lambda>u. u_id u = k) (\<lambda>u. u\<lparr>u_can_approve := x\<rparr>) (users s)\<rparr>"
      using run by (auto simp: update_libation_approval_def split: if_splits option.splits dest!: bind_InrD)
    show ?thesis unfolding u(4)
    proof (rule edit_inv [OF inv])
      fix v assume v: "v \<in> set (users s)" "u_id v = k"
      then show "user_ok (v\<lparr>u_can_approve := x\<rparr>)"
        using userD [OF v(1)] found_only [OF inv u(1) v] u(2,3) by (auto simp: user_ok_def)
    qed simp_all
  qed
qed

lemma account_run_inv: "account_run es s = Some t \<Longrightarrow> accounts_inv s \<Longrightarrow> accounts_inv t"
proof (induction es arbitrary: s)
  case (Cons e es)
  have "accounts_inv (account_step e s)" if "account_ok e s"
    using account_step_inv [OF Cons.prems(2) that] Cons.prems(2) by (auto simp: account_step_def split: sum.splits)
  with Cons show ?case by (simp split: if_splits)
qed simp

section \<open>Privileges\<close>

text \<open>What an account may do beyond listening, and what signing in as it takes.\<close>

definition privileged :: "user \<Rightarrow> bool" where
  "privileged u \<longleftrightarrow> u_is_admin u \<or> u_is_owner u \<or> u_can_approve u \<or> u_libation_access u = Direct"

definition same_powers :: "user \<Rightarrow> user \<Rightarrow> bool" where
  "same_powers u v \<longleftrightarrow> u_id v = u_id u \<and> u_is_admin v = u_is_admin u \<and> u_is_owner v = u_is_owner u
     \<and> u_can_approve v = u_can_approve u \<and> u_libation_access v = u_libation_access u"

text \<open>A change grants nothing: every privileged account of the result was there before with
  the same powers and, unless it is the actor's own, the same password.\<close>

definition grants_nothing :: "string \<Rightarrow> user list \<Rightarrow> user list \<Rightarrow> bool" where
  "grants_nothing me us vs \<longleftrightarrow>
     (\<forall>v \<in> set vs. privileged v \<longrightarrow>
        (\<exists>u \<in> set us. same_powers u v \<and> (u_id v = me \<or> u_password_hash v = u_password_hash u)))"

lemma same_powers_refl [simp]: "same_powers u u"
  by (simp add: same_powers_def)

lemma grants_nothing_edit:
  assumes "\<And>u. u \<in> set us \<Longrightarrow> u_id u = k \<Longrightarrow> privileged (f u) \<Longrightarrow>
      same_powers u (f u) \<and> (u_id u = me \<or> u_password_hash (f u) = u_password_hash u)"
    and "\<And>u. u_id (f u) = u_id u"
  shows "grants_nothing me us (update_first (\<lambda>u. u_id u = k) f us)"
  unfolding grants_nothing_def
proof (intro ballI impI)
  fix v assume v: "v \<in> set (update_first (\<lambda>u. u_id u = k) f us)" "privileged v"
  from in_update_first [OF v(1)] show
    "\<exists>u \<in> set us. same_powers u v \<and> (u_id v = me \<or> u_password_hash v = u_password_hash u)"
  proof
    assume "v \<in> set us"
    then show ?thesis by (intro bexI [of _ v]) simp_all
  next
    assume "\<exists>u \<in> set us. u_id u = k \<and> v = f u"
    then obtain u where "u \<in> set us" "u_id u = k" "v = f u" by blast
    with assms(1) [OF this(1,2)] assms(2) v(2) show ?thesis by (intro bexI [of _ u]) simp_all
  qed
qed

text \<open>What a request may take away: an administrator's or owner's account is still there.\<close>

definition keeps_admins :: "user list \<Rightarrow> user list \<Rightarrow> bool" where
  "keeps_admins us vs \<longleftrightarrow>
     (\<forall>u \<in> set us. u_is_admin u \<or> u_is_owner u \<longrightarrow> (\<exists>v \<in> set vs. same_powers u v))"

lemma keeps_admins_edit:
  assumes "accounts_inv s"
    and "\<And>u. u \<in> set (users s) \<Longrightarrow> u_id u = k \<Longrightarrow> u_is_admin u \<or> u_is_owner u \<Longrightarrow> same_powers u (f u)"
  shows "keeps_admins (users s) (update_first (\<lambda>u. u_id u = k) f (users s))"
  unfolding keeps_admins_def edit_as_map [OF assms(1)]
proof (intro ballI impI)
  fix u assume u: "u \<in> set (users s)" "u_is_admin u \<or> u_is_owner u"
  then have "same_powers u (edited k f u)" using assms(2) by (simp add: edited_def)
  with u(1) show "\<exists>v \<in> set (map (edited k f) (users s)). same_powers u v" by auto
qed

lemma keeps_admins_refl: "set us \<subseteq> set vs \<Longrightarrow> keeps_admins us vs"
  unfolding keeps_admins_def by (meson same_powers_refl subsetD)

lemma grants_nothing_sub: "set vs \<subseteq> set us \<Longrightarrow> grants_nothing me us vs"
  unfolding grants_nothing_def
proof (intro ballI impI)
  fix v assume "set vs \<subseteq> set us" "v \<in> set vs"
  then show "\<exists>u \<in> set us. same_powers u v \<and> (u_id v = me \<or> u_password_hash v = u_password_hash u)"
    by (intro bexI [of _ v]) auto
qed

lemma non_owner_edit:
  assumes inv: "accounts_inv s" and run: "account_apply e s = Inr s'"
    and act: "actor e = Some a" "\<not> a_is_owner a"
  shows "grants_nothing (a_id a) (users s) (users s') \<and> keeps_admins (users s) (users s')"
proof (cases e)
  case (SetUp gate req hash new_id now)
  with act show ?thesis by simp
next
  case (Create b req hash new_id now)
  with act run obtain h where s': "s' = s\<lparr>users := users s @ [created_user a req h new_id now]\<rparr>"
      and plain: "\<not> (cu_is_admin req \<or> cu_is_owner req)" "cu_libation_access req \<noteq> Some Direct"
    by (auto simp: create_user_def split: if_splits dest!: bind_InrD)
  have "\<not> privileged (created_user a req h new_id now)"
    using plain act(2) by (cases "cu_libation_access req"; cases "the (cu_libation_access req)")
      (auto simp: privileged_def created_user_def Let_def)
  then have "grants_nothing (a_id a) (users s) (users s @ [created_user a req h new_id now])"
    using grants_nothing_sub [of "users s" "users s" "a_id a"] by (auto simp: grants_nothing_def)
  moreover have "keeps_admins (users s) (users s @ [created_user a req h new_id now])"
    by (rule keeps_admins_refl) auto
  ultimately show ?thesis by (simp add: s')
next
  case (Delete b removed k)
  with act run obtain target where t: "List.find (\<lambda>u. u_id u = k) (users s) = Some target"
      "\<not> (u_is_admin target \<or> u_is_owner target)"
      "s' = s\<lparr>users := filter (\<lambda>u. u_id u \<noteq> k) (users s)\<rparr>"
    by (auto simp: delete_account_def split: if_splits option.splits dest!: bind_InrD)
  have others: "u_id u \<noteq> k" if "u \<in> set (users s)" "u_is_admin u \<or> u_is_owner u" for u
    using found_only [OF inv t(1) that(1)] t(2) that(2) by blast
  then have "keeps_admins (users s) (users s')"
    unfolding keeps_admins_def t(3)
  proof (intro ballI impI)
    fix u assume "u \<in> set (users s)" "u_is_admin u \<or> u_is_owner u"
    with others [OF this] show
      "\<exists>v \<in> set (users (s\<lparr>users := filter (\<lambda>u. u_id u \<noteq> k) (users s)\<rparr>)). same_powers u v"
      by (intro bexI [of _ u]) simp_all
  qed
  then show ?thesis by (simp add: t(3) grants_nothing_sub)
next
  case (SetPassword b k old new)
  with act run obtain u where u: "List.find (\<lambda>u. u_id u = k) (users s) = Some u"
      "\<not> (a_id a \<noteq> k \<and> password_reset_needs_owner u)"
      "s' = s\<lparr>users := update_first (\<lambda>u. u_id u = k) (\<lambda>u. u\<lparr>u_password_hash := new\<rparr>) (users s)\<rparr>"
    by (auto simp: change_password_commit_def split: if_splits option.splits)
  have "u_id v = a_id a" if v: "v \<in> set (users s)" "u_id v = k" "privileged (v\<lparr>u_password_hash := new\<rparr>)" for v
  proof -
    have "v = u" by (rule found_only [OF inv u(1) v(1,2)])
    moreover have "user_ok v" by (rule accounts_invD(3) [OF inv v(1)])
    ultimately have "password_reset_needs_owner u"
      using v(3) by (auto simp: password_reset_needs_owner_def privileged_def user_ok_def)
    then show ?thesis using u(2) v(2) by simp
  qed
  then show ?thesis unfolding u(3)
    by (auto intro!: grants_nothing_edit keeps_admins_edit [OF inv] simp: same_powers_def)
next
  case (SetBooks b available k ids)
  with act run obtain allowed where "s' = s\<lparr>users := update_first (\<lambda>u. u_id u = k)
      (\<lambda>u. u\<lparr>u_allowed_book_ids := (if u_is_admin u then None else allowed)\<rparr>) (users s)\<rparr>"
    by (auto simp: update_book_access_def split: if_splits dest!: bind_InrD)
  then show ?thesis
    by (auto intro!: grants_nothing_edit keeps_admins_edit [OF inv] simp: same_powers_def)
next
  case (SetRole b k adm own)
  with act run show ?thesis
    by (auto simp: update_user_role_def require_owner_def dest!: bind_InrD)
next
  case (SetSharing b x y z)
  with act run show ?thesis
    by (auto simp: update_progress_sharing_def same_powers_def split: if_splits
        intro!: grants_nothing_edit keeps_admins_edit [OF inv])
next
  case (SetAvatar b x)
  with act run show ?thesis
    by (auto simp: update_avatar_def same_powers_def split: if_splits dest!: bind_InrD
        intro!: grants_nothing_edit keeps_admins_edit [OF inv])
next
  case (SetLibation b k x)
  with act run obtain u where u: "List.find (\<lambda>u. u_id u = k) (users s) = Some u"
      "\<not> u_is_owner u" "\<not> u_is_admin u" "x \<noteq> Direct"
      "s' = s\<lparr>users := update_first (\<lambda>u. u_id u = k) (\<lambda>u. u\<lparr>u_libation_access := x\<rparr>) (users s)\<rparr>"
    by (auto simp: update_libation_access_def split: if_splits option.splits dest!: bind_InrD)
  have "\<not> privileged (v\<lparr>u_libation_access := x\<rparr>) \<and> \<not> (u_is_admin v \<or> u_is_owner v)"
    if v: "v \<in> set (users s)" "u_id v = k" for v
    using found_only [OF inv u(1) v] accounts_invD(3) [OF inv v(1)] u(2-4)
    by (auto simp: privileged_def user_ok_def)
  then show ?thesis unfolding u(5)
    by (auto intro!: grants_nothing_edit keeps_admins_edit [OF inv])
next
  case (SetApproval b k x)
  with act run show ?thesis
    by (auto simp: update_libation_approval_def require_owner_def dest!: bind_InrD)
qed

section \<open>Properties\<close>

definition ex_name :: "string \<Rightarrow> ustr" where "ex_name s = cps s"

definition ex_setup :: setup_request where
  "ex_setup = \<lparr>su_username = cps '' Ann'', su_password = cps ''correct horse''\<rparr>"

definition ex_create :: "string \<Rightarrow> bool \<Rightarrow> create_user_request" where
  "ex_create n adm = \<lparr>cu_username = cps n, cu_password = cps ''battery staple'', cu_is_admin = adm,
     cu_is_owner = False, cu_can_approve = True, cu_libation_access = None, cu_allowed_book_ids = Some []\<rparr>"

definition no_users :: users_store where
  "no_users = \<lparr>permissions_version = 1, users = []\<rparr>"

definition ex_owner :: auth_user where
  "ex_owner = auth_of_user (setup_user ex_setup ''h'' ''u1'' ''1'')"

definition ex_requests :: "account_request list" where
  "ex_requests =
     [SetUp (Inr ()) ex_setup (Inr ''h'') ''u1'' ''1'',
      Create ex_owner (ex_create ''Bob'' True) (Inr ''h2'') ''u2'' ''2'',
      Create ex_owner (ex_create ''ANN'' False) (Inr ''h3'') ''u3'' ''3'']"

text \<open>C29: The account store stays well formed. After any sequence of account requests on a
  fresh installation, made by whoever and however stale their view of the accounts, ids are
  unique and no two usernames differ only in ASCII case; an owner is always an administrator
  with approval rights and direct Libation access; approval rights are held by
  administrators only; administrators are never restricted to some books; and once the
  server is set up there is at least one owner.\<close>

theorem accounts_stay_well_formed:
  assumes "account_run es no_users = Some s"
  shows "accounts_inv s"
  using account_run_inv [OF assms] by (simp add: accounts_inv_def no_users_def distinct_names_def)

lemma accounts_stay_well_formed_witness:
  "\<exists>s. account_run ex_requests no_users = Some s \<and> map u_id (users s) = [''u1'', ''u2''] \<and> accounts_inv s"
proof -
  have "(case account_run ex_requests no_users of None \<Rightarrow> False
     | Some s \<Rightarrow> map u_id (users s) = [''u1'', ''u2''])"
    by code_simp
  then obtain s where
    s: "account_run ex_requests no_users = Some s" "map u_id (users s) = [''u1'', ''u2'']"
    by (rule case_SomeE)
  with accounts_stay_well_formed [OF s(1)] show ?thesis by (intro exI [of _ s] conjI)
qed

text \<open>C28: Nobody but an owner hands out or takes over power. Whatever request an
  administrator or reader gets through, every account that afterwards is an administrator,
  an owner, an approver or has direct Libation access had exactly those powers before, with
  the same password unless it is the actor's own; and every administrator and owner is still
  there with the same powers.\<close>

theorem non_owner_cannot_escalate:
  assumes "account_run es no_users = Some s" "account_apply e s = Inr s'"
    and "actor e = Some a" "\<not> a_is_owner a"
  shows "grants_nothing (a_id a) (users s) (users s') \<and> keeps_admins (users s) (users s')"
  using non_owner_edit [OF account_run_inv [OF assms(1)] assms(2-4)]
  by (simp add: accounts_inv_def no_users_def distinct_names_def)

definition ex_admin :: auth_user where
  "ex_admin = auth_of_user (created_user ex_owner (ex_create ''Bob'' True) ''h2'' ''u2'' ''2'')"

lemma non_owner_cannot_escalate_witness:
  "\<exists>s s'. account_run ex_requests no_users = Some s
     \<and> account_apply (Create ex_admin (ex_create ''Cy'' False) (Inr ''h4'') ''u4'' ''4'') s = Inr s'
     \<and> grants_nothing ''u2'' (users s) (users s')"
proof -
  let ?e = "Create ex_admin (ex_create ''Cy'' False) (Inr ''h4'') ''u4'' ''4''"
  have "(case account_run ex_requests no_users of None \<Rightarrow> False
     | Some s \<Rightarrow> (case account_apply ?e s of Inl _ \<Rightarrow> False | Inr s' \<Rightarrow> True))"
    by code_simp
  then obtain s where r: "account_run ex_requests no_users = Some s"
      "case account_apply ?e s of Inl _ \<Rightarrow> False | Inr s' \<Rightarrow> True"
    by (rule case_SomeE)
  from r(2) obtain s' where "account_apply ?e s = Inr s'" by (rule case_InrE)
  note s = r(1) this
  have "a_id ex_admin = ''u2''" "\<not> a_is_owner ex_admin" by code_simp+
  with non_owner_cannot_escalate [OF s, of ex_admin] s show ?thesis by auto
qed

end
