(* ===== verification/Works.thy ===== *)
theory Works
  imports Errors
begin

text \<open>
  Works, \<open>apps/server/src/works.rs\<close>: the index that collects the editions of one book.
  The store is a list of works and a queue of suggestions; its operations are the
  scanner's \<open>resolve\<close>, the administrator's \<open>link_manually\<close> and \<open>reject_suggestion\<close>, and
  the pruning of suggestions. Lowercasing and the alphanumeric class come from the
  Unicode tables of the standard library, the parameter \<open>u\<close>.
\<close>

section \<open>Data\<close>

record work =
  w_id :: string
  w_title :: ustr
  w_author :: "ustr option"
  w_asins :: "string list"
  w_isbns :: "string list"
  w_keys :: "ustr list"
  w_duration_seconds :: "f64 option"
  w_book_ids :: "string list"
  w_manual_book_ids :: "string list"
  w_excluded_book_ids :: "string list"
  w_created_at_ms :: u64

record work_suggestion =
  s_book_id :: string
  s_work_id :: string
  s_book_title :: ustr
  s_work_title :: ustr
  s_book_duration_seconds :: "f64 option"
  s_work_duration_seconds :: "f64 option"
  s_reason :: string
  s_created_at_ms :: u64

record work_store =
  works :: "work list"
  suggestions :: "work_suggestion list"

datatype match_tier = Manual | Asin | Isbn | TitleAuthorDuration | New

record edition_candidate =
  c_book_id :: string
  c_title :: ustr
  c_author :: "ustr option"
  c_asin :: "string option"
  c_isbn :: "string option"
  c_duration_seconds :: "f64 option"

section \<open>Keys and runtimes\<close>

definition DURATION_TOLERANCE :: f64 where
  "DURATION_TOLERANCE = f64_of_rat (15 / 100)"

definition drop_article :: "ustr list \<Rightarrow> ustr list" where
  "drop_article words =
     (case words of
        first # rest \<Rightarrow>
          if first \<in> {cps ''the'', cps ''a'', cps ''an''} \<and> length words > 1 then rest else words
      | [] \<Rightarrow> words)"

definition normalize_key :: "unicode \<Rightarrow> ustr \<Rightarrow> ustr" where
  "normalize_key u value =
     join (cps '' '') (drop_article (split_whitespace
       (map (\<lambda>c. if is_alphanumeric u c \<or> is_whitespace c then c else cp CHR '' '')
          (to_lowercase u value))))"

definition work_key :: "unicode \<Rightarrow> ustr \<Rightarrow> ustr option \<Rightarrow> ustr" where
  "work_key u title author =
     (case author of
        Some a \<Rightarrow>
          if normalize_key u a \<noteq> [] then normalize_key u title @ cps ''|'' @ normalize_key u a
          else normalize_key u title @ cps ''|''
      | None \<Rightarrow> normalize_key u title @ cps ''|'')"

fun durations_agree :: "f64 option \<Rightarrow> f64 option \<Rightarrow> bool" where
  "durations_agree (Some left) (Some right) =
     (if f64_gt left f64_zero \<and> f64_gt right f64_zero
      then f64_le (f64_div (f64_abs (f64_sub left right)) (f64_max left right)) DURATION_TOLERANCE
      else False)"
| "durations_agree _ _ = False"

section \<open>Operations\<close>

definition candidate_key :: "unicode \<Rightarrow> edition_candidate \<Rightarrow> ustr" where
  "candidate_key u c = work_key u (c_title c) (c_author c)"

definition excluded :: "edition_candidate \<Rightarrow> work \<Rightarrow> bool" where
  "excluded c w \<longleftrightarrow> c_book_id c \<in> set (w_excluded_book_ids w)"

definition heuristic_index ::
  "unicode \<Rightarrow> work_store \<Rightarrow> edition_candidate \<Rightarrow> (nat \<times> match_tier) option" where
  "heuristic_index u store c =
     (case (case c_asin c of
              Some asin \<Rightarrow> position (\<lambda>w. \<not> excluded c w \<and> asin \<in> set (w_asins w)) (works store)
            | None \<Rightarrow> None) of
        Some index \<Rightarrow> Some (index, Asin)
      | None \<Rightarrow>
        (case (case c_isbn c of
                 Some isbn \<Rightarrow> position (\<lambda>w. \<not> excluded c w \<and> isbn \<in> set (w_isbns w)) (works store)
               | None \<Rightarrow> None) of
           Some index \<Rightarrow> Some (index, Isbn)
         | None \<Rightarrow>
             map_option (\<lambda>index. (index, TitleAuthorDuration))
               (position (\<lambda>w. \<not> excluded c w \<and> candidate_key u c \<in> set (w_keys w)
                   \<and> durations_agree (w_duration_seconds w) (c_duration_seconds c))
                 (works store))))"

definition near_miss :: "unicode \<Rightarrow> edition_candidate \<Rightarrow> u64 \<Rightarrow> work \<Rightarrow> work_suggestion option" where
  "near_miss u c now_ms w =
     (if c_book_id c \<in> set (w_excluded_book_ids w) then None
      else if candidate_key u c \<notin> set (w_keys w) then None
      else if durations_agree (w_duration_seconds w) (c_duration_seconds c) then None
      else Some \<lparr>s_book_id = c_book_id c, s_work_id = w_id w, s_book_title = c_title c,
             s_work_title = w_title w, s_book_duration_seconds = c_duration_seconds c,
             s_work_duration_seconds = w_duration_seconds w,
             s_reason = (case (w_duration_seconds w, c_duration_seconds c) of
                 (Some _, Some _) \<Rightarrow> ''Same title and author, but the runtimes differ.''
               | _ \<Rightarrow> ''Same title and author, but a runtime is unknown.''),
             s_created_at_ms = now_ms\<rparr>)"

definition add_suggestion :: "work_suggestion \<Rightarrow> work_suggestion list \<Rightarrow> work_suggestion list" where
  "add_suggestion s queue =
     (if \<exists>e \<in> set queue. s_book_id e = s_book_id s \<and> s_work_id e = s_work_id s then queue
      else queue @ [s])"

definition note_near_misses :: "unicode \<Rightarrow> work_store \<Rightarrow> edition_candidate \<Rightarrow> u64 \<Rightarrow> work_store" where
  "note_near_misses u store c now_ms =
     store\<lparr>suggestions :=
       fold add_suggestion (List.map_filter (near_miss u c now_ms) (works store)) (suggestions store)\<rparr>"

definition push_missing :: "'a \<Rightarrow> 'a list \<Rightarrow> 'a list" where
  "push_missing x xs = (if x \<in> set xs then xs else xs @ [x])"

definition link_work :: "unicode \<Rightarrow> edition_candidate \<Rightarrow> work \<Rightarrow> work" where
  "link_work u c w =
     w\<lparr>w_book_ids := push_missing (c_book_id c) (w_book_ids w),
       w_asins := (case c_asin c of Some a \<Rightarrow> push_missing a (w_asins w) | None \<Rightarrow> w_asins w),
       w_isbns := (case c_isbn c of Some i \<Rightarrow> push_missing i (w_isbns w) | None \<Rightarrow> w_isbns w),
       w_keys := push_missing (candidate_key u c) (w_keys w),
       w_duration_seconds :=
         (case c_duration_seconds c of
            Some d \<Rightarrow>
              if f64_gt d (case w_duration_seconds w of Some x \<Rightarrow> x | None \<Rightarrow> f64_zero) then Some d
              else w_duration_seconds w
          | None \<Rightarrow> w_duration_seconds w)\<rparr>"

definition link :: "unicode \<Rightarrow> work_store \<Rightarrow> nat \<Rightarrow> edition_candidate \<Rightarrow> work_store" where
  "link u store index c =
     store\<lparr>works := (works store)[index := link_work u c (works store ! index)]\<rparr>"

definition new_work :: "unicode \<Rightarrow> edition_candidate \<Rightarrow> u64 \<Rightarrow> string \<Rightarrow> work" where
  "new_work u c now_ms new_id =
     \<lparr>w_id = new_id, w_title = c_title c, w_author = c_author c,
      w_asins = (case c_asin c of Some a \<Rightarrow> [a] | None \<Rightarrow> []),
      w_isbns = (case c_isbn c of Some i \<Rightarrow> [i] | None \<Rightarrow> []),
      w_keys = [candidate_key u c], w_duration_seconds = c_duration_seconds c,
      w_book_ids = [c_book_id c], w_manual_book_ids = [], w_excluded_book_ids = [],
      w_created_at_ms = now_ms\<rparr>"

text \<open>\<open>new_id\<close> is the identifier the caller's generator would return.\<close>

definition resolve ::
  "unicode \<Rightarrow> work_store \<Rightarrow> edition_candidate \<Rightarrow> u64 \<Rightarrow> string
   \<Rightarrow> work_store \<times> string \<times> match_tier" where
  "resolve u store c now_ms new_id =
     (case position (\<lambda>w. c_book_id c \<in> set (w_book_ids w)) (works store) of
        Some index \<Rightarrow>
          (let store' = link u store index c in (store', w_id (works store' ! index), Manual))
      | None \<Rightarrow>
        (case heuristic_index u store c of
           Some (index, tier) \<Rightarrow>
             (let store' = link u store index c in (store', w_id (works store' ! index), tier))
         | None \<Rightarrow>
             (let noted = note_near_misses u store c now_ms
              in (noted\<lparr>works := works noted @ [new_work u c now_ms new_id]\<rparr>, new_id, New))))"

definition detach :: "string \<Rightarrow> string \<Rightarrow> work \<Rightarrow> work" where
  "detach book_id work_id w =
     (let w' = w\<lparr>w_manual_book_ids := filter (\<lambda>b. b \<noteq> book_id) (w_manual_book_ids w)\<rparr>
      in if w_id w \<noteq> work_id
         then w'\<lparr>w_book_ids := filter (\<lambda>b. b \<noteq> book_id) (w_book_ids w)\<rparr> else w')"

definition attach :: "string \<Rightarrow> work \<Rightarrow> work" where
  "attach book_id w =
     w\<lparr>w_manual_book_ids := w_manual_book_ids w @ [book_id],
       w_excluded_book_ids := filter (\<lambda>b. b \<noteq> book_id) (w_excluded_book_ids w),
       w_book_ids := push_missing book_id (w_book_ids w)\<rparr>"

definition link_manually :: "work_store \<Rightarrow> string \<Rightarrow> string \<Rightarrow> work_store \<times> bool" where
  "link_manually store book_id work_id =
     (if \<not> (\<exists>w \<in> set (works store). w_id w = work_id) then (store, False)
      else (store\<lparr>works := update_first (\<lambda>w. w_id w = work_id) (attach book_id)
                       (map (detach book_id work_id) (works store)),
                  suggestions := filter (\<lambda>s. s_book_id s \<noteq> book_id) (suggestions store)\<rparr>, True))"

definition refuse :: "string \<Rightarrow> work \<Rightarrow> work" where
  "refuse book_id w =
     w\<lparr>w_excluded_book_ids := push_missing book_id (w_excluded_book_ids w),
       w_manual_book_ids := filter (\<lambda>b. b \<noteq> book_id) (w_manual_book_ids w),
       w_book_ids := filter (\<lambda>b. b \<noteq> book_id) (w_book_ids w)\<rparr>"

definition reject_suggestion :: "work_store \<Rightarrow> string \<Rightarrow> string \<Rightarrow> work_store \<times> bool" where
  "reject_suggestion store book_id work_id =
     (if \<not> (\<exists>w \<in> set (works store). w_id w = work_id) then (store, False)
      else (store\<lparr>works := update_first (\<lambda>w. w_id w = work_id) (refuse book_id) (works store),
                  suggestions := filter (\<lambda>s. \<not> (s_book_id s = book_id \<and> s_work_id s = work_id))
                                   (suggestions store)\<rparr>, True))"

definition work_for_book :: "work_store \<Rightarrow> string \<Rightarrow> work option" where
  "work_for_book store book_id = List.find (\<lambda>w. book_id \<in> set (w_book_ids w)) (works store)"

definition book_to_work :: "work_store \<Rightarrow> string \<Rightarrow> string option" where
  "book_to_work store =
     foldl (\<lambda>m w. foldl (\<lambda>m b. m(b \<mapsto> w_id w)) m (w_book_ids w)) Map.empty (works store)"

definition prune_suggestions :: "work_store \<Rightarrow> string set \<Rightarrow> work_store" where
  "prune_suggestions store present_book_ids =
     store\<lparr>suggestions := filter (\<lambda>s. s_book_id s \<in> present_book_ids) (suggestions store)\<rparr>"

section \<open>The invariant\<close>

text \<open>
  Works have distinct identifiers; a work's pinned editions are among its editions and
  none of its editions is excluded from it; no edition belongs to two works; and the
  queue never asks about an edition its work excludes.
\<close>

definition works_inv :: "work_store \<Rightarrow> bool" where
  "works_inv s \<longleftrightarrow>
     distinct (map w_id (works s))
     \<and> (\<forall>w \<in> set (works s). set (w_manual_book_ids w) \<subseteq> set (w_book_ids w)
          \<and> set (w_excluded_book_ids w) \<inter> set (w_book_ids w) = {})
     \<and> (\<forall>v \<in> set (works s). \<forall>w \<in> set (works s).
          set (w_book_ids v) \<inter> set (w_book_ids w) \<noteq> {} \<longrightarrow> w_id v = w_id w)
     \<and> (\<forall>g \<in> set (suggestions s). \<forall>w \<in> set (works s).
          w_id w = s_work_id g \<longrightarrow> s_book_id g \<notin> set (w_excluded_book_ids w))"

lemma set_push_missing [simp]: "set (push_missing x xs) = insert x (set xs)"
  by (auto simp: push_missing_def)

lemma list_update_as_map:
  assumes "i < length ws" "distinct (map w_id ws)"
  shows "ws[i := f (ws ! i)] = map (\<lambda>w. if w_id w = w_id (ws ! i) then f w else w) ws"
proof (rule nth_equalityI)
  fix j assume "j < length (ws[i := f (ws ! i)])"
  then have j: "j < length ws" by simp
  have "w_id (ws ! j) = w_id (ws ! i) \<longleftrightarrow> j = i"
    using assms j nth_eq_iff_index_eq [of "map w_id ws" j i] by simp
  then show "ws[i := f (ws ! i)] ! j = map (\<lambda>w. if w_id w = w_id (ws ! i) then f w else w) ws ! j"
    using j by auto
qed simp

text \<open>Every operation rewrites the works one by one and keeps their identifiers.\<close>

lemma works_inv_map:
  assumes inv: "works_inv s" and ids: "\<And>w. w_id (F w) = w_id w"
    and each: "\<And>w. w \<in> set (works s) \<Longrightarrow> set (w_manual_book_ids (F w)) \<subseteq> set (w_book_ids (F w))
        \<and> set (w_excluded_book_ids (F w)) \<inter> set (w_book_ids (F w)) = {}"
    and apart: "\<And>v w b. v \<in> set (works s) \<Longrightarrow> w \<in> set (works s) \<Longrightarrow>
        b \<in> set (w_book_ids (F v)) \<Longrightarrow> b \<in> set (w_book_ids (F w)) \<Longrightarrow> w_id v = w_id w"
    and queue: "\<And>g w. g \<in> set gs \<Longrightarrow> w \<in> set (works s) \<Longrightarrow> w_id w = s_work_id g \<Longrightarrow>
        s_book_id g \<notin> set (w_excluded_book_ids (F w))"
  shows "works_inv (s\<lparr>works := map F (works s), suggestions := gs\<rparr>)"
proof -
  have "w_id \<circ> F = w_id" by (simp add: fun_eq_iff ids)
  then have "distinct (map (w_id \<circ> F) (works s))" using inv by (simp add: works_inv_def)
  moreover have "\<forall>g \<in> set gs. \<forall>w \<in> set (works s).
      w_id (F w) = s_work_id g \<longrightarrow> s_book_id g \<notin> set (w_excluded_book_ids (F w))"
    using queue by (simp add: ids)
  moreover have "\<forall>v \<in> set (works s). \<forall>w \<in> set (works s).
      set (w_book_ids (F v)) \<inter> set (w_book_ids (F w)) \<noteq> {} \<longrightarrow> w_id (F v) = w_id (F w)"
    unfolding ids using apart by blast
  ultimately show ?thesis using each by (simp add: works_inv_def)
qed

lemma works_invD:
  assumes "works_inv s"
  shows "distinct (map w_id (works s))"
    and "w \<in> set (works s) \<Longrightarrow> set (w_manual_book_ids w) \<subseteq> set (w_book_ids w)"
    and "w \<in> set (works s) \<Longrightarrow> set (w_excluded_book_ids w) \<inter> set (w_book_ids w) = {}"
    and "v \<in> set (works s) \<Longrightarrow> w \<in> set (works s) \<Longrightarrow> b \<in> set (w_book_ids v) \<Longrightarrow>
      b \<in> set (w_book_ids w) \<Longrightarrow> w_id v = w_id w"
    and "g \<in> set (suggestions s) \<Longrightarrow> w \<in> set (works s) \<Longrightarrow> w_id w = s_work_id g \<Longrightarrow>
      s_book_id g \<notin> set (w_excluded_book_ids w)"
  using assms unfolding works_inv_def by blast+

lemma link_work_fields [simp]:
  "w_id (link_work u c w) = w_id w"
  "w_book_ids (link_work u c w) = push_missing (c_book_id c) (w_book_ids w)"
  "w_manual_book_ids (link_work u c w) = w_manual_book_ids w"
  "w_excluded_book_ids (link_work u c w) = w_excluded_book_ids w"
  by (simp_all add: link_work_def)

lemma link_as_map:
  assumes "works_inv s" "i < length (works s)"
  shows "link u s i c = s\<lparr>works :=
    map (\<lambda>w. if w_id w = w_id (works s ! i) then link_work u c w else w) (works s)\<rparr>"
  using list_update_as_map [OF assms(2) works_invD(1) [OF assms(1)]] by (simp add: link_def)

lemma link_inv:
  assumes inv: "works_inv s" and i: "i < length (works s)"
    and allowed: "c_book_id c \<notin> set (w_excluded_book_ids (works s ! i))"
    and only: "\<And>w. w \<in> set (works s) \<Longrightarrow> c_book_id c \<in> set (w_book_ids w) \<Longrightarrow>
        w_id w = w_id (works s ! i)"
  shows "works_inv (link u s i c)"
proof -
  let ?F = "\<lambda>w. if w_id w = w_id (works s ! i) then link_work u c w else w"
  have same: "w = works s ! i" if "w \<in> set (works s)" "w_id w = w_id (works s ! i)" for w
    using that i works_invD(1) [OF inv] by (metis distinct_map inj_onD nth_mem)
  have "works_inv (s\<lparr>works := map ?F (works s), suggestions := suggestions s\<rparr>)"
  proof (rule works_inv_map [OF inv])
    fix w assume w: "w \<in> set (works s)"
    then show "set (w_manual_book_ids (?F w)) \<subseteq> set (w_book_ids (?F w)) \<and>
        set (w_excluded_book_ids (?F w)) \<inter> set (w_book_ids (?F w)) = {}"
      using works_invD(2,3) [OF inv w] same [OF w] allowed by (auto split: if_splits)
  next
    fix v w b
    assume vw: "v \<in> set (works s)" "w \<in> set (works s)"
      and b: "b \<in> set (w_book_ids (?F v))" "b \<in> set (w_book_ids (?F w))"
    then show "w_id v = w_id w"
      using works_invD(4) [OF inv vw] only by (auto split: if_splits)
  next
    fix g w assume "g \<in> set (suggestions s)" "w \<in> set (works s)" "w_id w = s_work_id g"
    then show "s_book_id g \<notin> set (w_excluded_book_ids (?F w))"
      using works_invD(5) [OF inv] by simp
  qed simp
  then show ?thesis by (simp add: link_as_map [OF inv i])
qed

lemma heuristic_index_spec:
  assumes "heuristic_index u s c = Some (i, tier)"
  shows "i < length (works s)" "c_book_id c \<notin> set (w_excluded_book_ids (works s ! i))"
    and "tier \<in> {Asin, Isbn, TitleAuthorDuration}"
    and "tier = Asin \<Longrightarrow> \<exists>a. c_asin c = Some a \<and> a \<in> set (w_asins (works s ! i))"
    and "tier = Isbn \<Longrightarrow> \<exists>n. c_isbn c = Some n \<and> n \<in> set (w_isbns (works s ! i))"
    and "tier = TitleAuthorDuration \<Longrightarrow> candidate_key u c \<in> set (w_keys (works s ! i))
        \<and> durations_agree (w_duration_seconds (works s ! i)) (c_duration_seconds c)"
  using assms
  by (auto simp: heuristic_index_def excluded_def split: option.splits dest!: position_Some)

text \<open>The three ways \<open>resolve\<close> ends.\<close>

lemma resolve_cases:
  obtains (seen) i where "position (\<lambda>w. c_book_id c \<in> set (w_book_ids w)) (works s) = Some i"
      "resolve u s c now new_id = (link u s i c, w_id (works s ! i), Manual)"
  | (matched) i tier where "\<forall>w \<in> set (works s). c_book_id c \<notin> set (w_book_ids w)"
      "heuristic_index u s c = Some (i, tier)"
      "resolve u s c now new_id = (link u s i c, w_id (works s ! i), tier)"
  | (fresh) "\<forall>w \<in> set (works s). c_book_id c \<notin> set (w_book_ids w)"
      "heuristic_index u s c = None"
      "resolve u s c now new_id = ((note_near_misses u s c now)\<lparr>works := works s @ [new_work u c now new_id]\<rparr>,
         new_id, New)"
proof -
  have same: "w_id (works (link u s i c) ! i) = w_id (works s ! i)" if "i < length (works s)" for i
    using that by (simp add: link_def)
  show thesis
  proof (cases "position (\<lambda>w. c_book_id c \<in> set (w_book_ids w)) (works s)")
    case (Some i)
    with position_Some [OF Some] same [of i] show thesis
      by (intro seen [of i]) (simp_all add: resolve_def)
  next
    case None
    then have new: "\<forall>w \<in> set (works s). c_book_id c \<notin> set (w_book_ids w)"
      by (simp add: position_None)
    show thesis
    proof (cases "heuristic_index u s c")
      case [simp]: None
      show thesis using new \<open>position _ _ = None\<close>
        by (intro fresh) (simp_all add: resolve_def note_near_misses_def)
    next
      case (Some r)
      obtain i tier where r: "r = (i, tier)" by fastforce
      with Some heuristic_index_spec(1) [of u s c i tier] same [of i] new None show thesis
        by (intro matched [of i tier]) (simp_all add: resolve_def)
    qed
  qed
qed

section \<open>The operations keep the invariant\<close>

lemma add_suggestion_set:
  "g \<in> set (fold add_suggestion xs queue) \<Longrightarrow> g \<in> set xs \<or> g \<in> set queue"
proof (induction xs arbitrary: queue)
  case (Cons x xs)
  from Cons.prems have "g \<in> set xs \<or> g \<in> set (add_suggestion x queue)" by (auto dest: Cons.IH)
  then show ?case by (auto simp: add_suggestion_def split: if_splits)
qed simp

lemma add_suggestion_keeps: "g \<in> set queue \<Longrightarrow> g \<in> set (fold add_suggestion xs queue)"
  by (induction xs arbitrary: queue) (auto simp: add_suggestion_def)

lemma near_miss_Some:
  assumes "near_miss u c now w = Some g"
  shows "s_book_id g = c_book_id c" "s_work_id g = w_id w"
    and "c_book_id c \<notin> set (w_excluded_book_ids w)"
  using assms by (auto simp: near_miss_def split: if_splits)

lemma note_near_misses_queue:
  assumes "g \<in> set (suggestions (note_near_misses u s c now))"
  shows "g \<in> set (suggestions s) \<or> (\<exists>w \<in> set (works s). near_miss u c now w = Some g)"
  using assms add_suggestion_set [of g "List.map_filter (near_miss u c now) (works s)" "suggestions s"]
  by (auto simp: note_near_misses_def map_filter_def)

lemma w_id_determines:
  "works_inv s \<Longrightarrow> v \<in> set (works s) \<Longrightarrow> w \<in> set (works s) \<Longrightarrow> w_id v = w_id w \<Longrightarrow> v = w"
  using works_invD(1) [of s] by (metis distinct_map inj_onD)

lemma new_work_fields [simp]:
  "w_id (new_work u c now k) = k" "w_book_ids (new_work u c now k) = [c_book_id c]"
  "w_manual_book_ids (new_work u c now k) = []" "w_excluded_book_ids (new_work u c now k) = []"
  by (simp_all add: new_work_def)

lemma resolve_new_inv:
  assumes inv: "works_inv s" and fresh: "new_id \<notin> w_id ` set (works s)"
    and new: "\<forall>w \<in> set (works s). c_book_id c \<notin> set (w_book_ids w)"
  shows "works_inv ((note_near_misses u s c now)\<lparr>works := works s @ [new_work u c now new_id]\<rparr>)"
    (is "works_inv ?t")
proof -
  have ws: "works ?t = works s @ [new_work u c now new_id]" by simp
  have a: "distinct (map w_id (works ?t))"
    using works_invD(1) [OF inv] fresh by simp
  have b: "\<forall>w \<in> set (works ?t). set (w_manual_book_ids w) \<subseteq> set (w_book_ids w)
       \<and> set (w_excluded_book_ids w) \<inter> set (w_book_ids w) = {}"
    using works_invD(2,3) [OF inv] by (auto simp: ws)
  have c: "w_id v = w_id w"
    if vw: "v \<in> set (works ?t)" "w \<in> set (works ?t)" "b \<in> set (w_book_ids v)" "b \<in> set (w_book_ids w)"
    for v w b
  proof -
    consider "v \<in> set (works s)" "w \<in> set (works s)" | "v = w" | "b = c_book_id c" "v \<in> set (works s)"
      | "b = c_book_id c" "w \<in> set (works s)"
      using vw unfolding ws by auto
    then show ?thesis by cases (use vw new works_invD(4) [OF inv] in blast)+
  qed
  have d: "s_book_id g \<notin> set (w_excluded_book_ids w)"
    if g: "g \<in> set (suggestions ?t)" and w: "w \<in> set (works ?t)" and k: "w_id w = s_work_id g" for g w
  proof (cases "w \<in> set (works s)")
    case True
    from g have "g \<in> set (suggestions (note_near_misses u s c now))" by simp
    from note_near_misses_queue [OF this] show ?thesis
    proof
      assume "g \<in> set (suggestions s)"
      then show ?thesis using works_invD(5) [OF inv _ True k] by simp
    next
      assume "\<exists>w \<in> set (works s). near_miss u c now w = Some g"
      then obtain v where v: "v \<in> set (works s)" "near_miss u c now v = Some g" by blast
      then have "v = w" using w_id_determines [OF inv v(1) True] near_miss_Some(2) k by metis
      then show ?thesis using near_miss_Some(1,3) [OF v(2)] by simp
    qed
  qed (use w in simp)
  show ?thesis unfolding works_inv_def using a b c d by blast
qed

lemma resolve_inv:
  assumes inv: "works_inv s" and fresh: "new_id \<notin> w_id ` set (works s)"
  shows "works_inv (fst (resolve u s c now new_id))"
proof (cases rule: resolve_cases [where u = u and s = s and c = c and now = now and new_id = new_id])
  case (seen i)
  then have i: "i < length (works s)" "c_book_id c \<in> set (w_book_ids (works s ! i))"
    using position_Some by force+
  then have "works s ! i \<in> set (works s)" by simp
  then have "c_book_id c \<notin> set (w_excluded_book_ids (works s ! i))"
    "\<And>w. w \<in> set (works s) \<Longrightarrow> c_book_id c \<in> set (w_book_ids w) \<Longrightarrow> w_id w = w_id (works s ! i)"
    using works_invD(3,4) [OF inv] i(2) by blast+
  with seen(2) link_inv [OF inv i(1)] show ?thesis by simp
next
  case (matched i tier)
  with link_inv [OF inv heuristic_index_spec(1,2) [OF matched(2)]] show ?thesis by simp
next
  case fresh
  with resolve_new_inv [OF inv assms(2) fresh(1)] show ?thesis by simp
qed

lemma detach_fields [simp]:
  "w_id (detach b k w) = w_id w"
  "w_excluded_book_ids (detach b k w) = w_excluded_book_ids w"
  "set (w_manual_book_ids (detach b k w)) = set (w_manual_book_ids w) - {b}"
  "set (w_book_ids (detach b k w)) = (if w_id w = k then set (w_book_ids w) else set (w_book_ids w) - {b})"
  by (auto simp: detach_def Let_def)

lemma attach_fields [simp]:
  "w_id (attach b w) = w_id w"
  "set (w_excluded_book_ids (attach b w)) = set (w_excluded_book_ids w) - {b}"
  "set (w_manual_book_ids (attach b w)) = insert b (set (w_manual_book_ids w))"
  "set (w_book_ids (attach b w)) = insert b (set (w_book_ids w))"
  by (auto simp: attach_def)

lemma refuse_fields [simp]:
  "w_id (refuse b w) = w_id w"
  "set (w_excluded_book_ids (refuse b w)) = insert b (set (w_excluded_book_ids w))"
  "set (w_manual_book_ids (refuse b w)) = set (w_manual_book_ids w) - {b}"
  "set (w_book_ids (refuse b w)) = set (w_book_ids w) - {b}"
  by (auto simp: refuse_def)

definition link_edit :: "string \<Rightarrow> string \<Rightarrow> work \<Rightarrow> work" where
  "link_edit b k w = (if w_id w = k then attach b (detach b k w) else detach b k w)"

definition reject_edit :: "string \<Rightarrow> string \<Rightarrow> work \<Rightarrow> work" where
  "reject_edit b k w = (if w_id w = k then refuse b w else w)"

lemma link_manually_as_map:
  assumes "works_inv s" "\<exists>w \<in> set (works s). w_id w = k"
  shows "link_manually s b k = (s\<lparr>works := map (link_edit b k) (works s),
    suggestions := filter (\<lambda>g. s_book_id g \<noteq> b) (suggestions s)\<rparr>, True)"
proof -
  have "w_id \<circ> detach b k = w_id" by (simp add: fun_eq_iff)
  then have "distinct (map w_id (map (detach b k) (works s)))"
    using works_invD(1) [OF assms(1)] by simp
  from update_first_key [OF this] have
    "update_first (\<lambda>w. w_id w = k) (attach b) (map (detach b k) (works s))
      = map (link_edit b k) (works s)"
    by (simp add: link_edit_def comp_def)
  then show ?thesis using assms(2) by (simp add: link_manually_def)
qed

lemma reject_as_map:
  assumes "works_inv s" "\<exists>w \<in> set (works s). w_id w = k"
  shows "reject_suggestion s b k = (s\<lparr>works := map (reject_edit b k) (works s),
    suggestions := filter (\<lambda>g. \<not> (s_book_id g = b \<and> s_work_id g = k)) (suggestions s)\<rparr>, True)"
  using assms(2) update_first_key [OF works_invD(1) [OF assms(1)]]
  by (simp add: reject_suggestion_def reject_edit_def)

lemma link_manually_inv:
  assumes inv: "works_inv s"
  shows "works_inv (fst (link_manually s b k))"
proof (cases "\<exists>w \<in> set (works s). w_id w = k")
  case True
  have "works_inv (s\<lparr>works := map (link_edit b k) (works s),
      suggestions := filter (\<lambda>g. s_book_id g \<noteq> b) (suggestions s)\<rparr>)"
  proof (rule works_inv_map [OF inv])
    fix w assume "w \<in> set (works s)"
    then show "set (w_manual_book_ids (link_edit b k w)) \<subseteq> set (w_book_ids (link_edit b k w)) \<and>
        set (w_excluded_book_ids (link_edit b k w)) \<inter> set (w_book_ids (link_edit b k w)) = {}"
      using works_invD(2,3) [OF inv, of w] by (auto simp: link_edit_def)
  next
    fix v w c
    assume "v \<in> set (works s)" "w \<in> set (works s)"
      "c \<in> set (w_book_ids (link_edit b k v))" "c \<in> set (w_book_ids (link_edit b k w))"
    then show "w_id v = w_id w"
      using works_invD(4) [OF inv, of v w c] by (auto simp: link_edit_def split: if_splits)
  next
    fix g w assume "g \<in> set (filter (\<lambda>g. s_book_id g \<noteq> b) (suggestions s))"
      "w \<in> set (works s)" "w_id w = s_work_id g"
    then show "s_book_id g \<notin> set (w_excluded_book_ids (link_edit b k w))"
      using works_invD(5) [OF inv, of g w] by (auto simp: link_edit_def)
  qed (simp add: link_edit_def)
  with link_manually_as_map [OF inv True] show ?thesis by simp
qed (use inv in \<open>simp add: link_manually_def\<close>)

lemma reject_inv:
  assumes inv: "works_inv s"
  shows "works_inv (fst (reject_suggestion s b k))"
proof (cases "\<exists>w \<in> set (works s). w_id w = k")
  case True
  have "works_inv (s\<lparr>works := map (reject_edit b k) (works s),
      suggestions := filter (\<lambda>g. \<not> (s_book_id g = b \<and> s_work_id g = k)) (suggestions s)\<rparr>)"
  proof (rule works_inv_map [OF inv])
    fix w assume "w \<in> set (works s)"
    then show "set (w_manual_book_ids (reject_edit b k w)) \<subseteq> set (w_book_ids (reject_edit b k w)) \<and>
        set (w_excluded_book_ids (reject_edit b k w)) \<inter> set (w_book_ids (reject_edit b k w)) = {}"
      using works_invD(2,3) [OF inv, of w] by (auto simp: reject_edit_def)
  next
    fix v w c
    assume "v \<in> set (works s)" "w \<in> set (works s)"
      "c \<in> set (w_book_ids (reject_edit b k v))" "c \<in> set (w_book_ids (reject_edit b k w))"
    then show "w_id v = w_id w"
      using works_invD(4) [OF inv, of v w c] by (auto simp: reject_edit_def split: if_splits)
  next
    fix g w assume "g \<in> set (filter (\<lambda>g. \<not> (s_book_id g = b \<and> s_work_id g = k)) (suggestions s))"
      "w \<in> set (works s)" "w_id w = s_work_id g"
    then show "s_book_id g \<notin> set (w_excluded_book_ids (reject_edit b k w))"
      using works_invD(5) [OF inv, of g w] by (auto simp: reject_edit_def)
  qed (simp add: reject_edit_def)
  with reject_as_map [OF inv True] show ?thesis by simp
qed (use inv in \<open>simp add: reject_suggestion_def\<close>)

lemma prune_inv: "works_inv s \<Longrightarrow> works_inv (prune_suggestions s present)"
  by (auto simp: works_inv_def prune_suggestions_def)

section \<open>Histories of the store\<close>

text \<open>What happens to a store: a rescan resolves an edition, an administrator links or
  rejects, and the scan prunes the queue. Identifiers are drawn fresh.\<close>

datatype works_event =
    Rescan edition_candidate u64 string
  | LinkManually string string
  | Reject string string
  | Prune "string set"

definition works_apply :: "unicode \<Rightarrow> works_event \<Rightarrow> work_store \<Rightarrow> work_store" where
  "works_apply u e s =
     (case e of
        Rescan c now new_id \<Rightarrow> fst (resolve u s c now new_id)
      | LinkManually b k \<Rightarrow> fst (link_manually s b k)
      | Reject b k \<Rightarrow> fst (reject_suggestion s b k)
      | Prune present \<Rightarrow> prune_suggestions s present)"

definition works_fresh :: "works_event \<Rightarrow> work_store \<Rightarrow> bool" where
  "works_fresh e s = (case e of Rescan c now new_id \<Rightarrow> new_id \<notin> w_id ` set (works s) | _ \<Rightarrow> True)"

inductive works_history :: "unicode \<Rightarrow> works_event list \<Rightarrow> work_store \<Rightarrow> work_store \<Rightarrow> bool" for u where
  history_Nil: "works_history u [] s s"
| history_Cons: "works_fresh e s \<Longrightarrow> works_history u es (works_apply u e s) t \<Longrightarrow> works_history u (e # es) s t"

inductive_cases works_history_NilE: "works_history u [] s t"
inductive_cases works_history_ConsE: "works_history u (e # es) s t"

definition empty_store :: work_store where
  "empty_store = \<lparr>works = [], suggestions = []\<rparr>"

lemma empty_store_inv: "works_inv empty_store"
  by (simp add: works_inv_def empty_store_def)

lemma works_apply_inv: "works_inv s \<Longrightarrow> works_fresh e s \<Longrightarrow> works_inv (works_apply u e s)"
  by (cases e) (simp_all add: works_apply_def works_fresh_def resolve_inv link_manually_inv
      reject_inv prune_inv)

text \<open>Whatever one step keeps, a history keeps.\<close>

lemma works_history_keeps:
  assumes "works_history u es s t" "works_inv s" "P s"
    and step: "\<And>e s. e \<in> set es \<Longrightarrow> works_inv s \<Longrightarrow> works_fresh e s \<Longrightarrow> P s \<Longrightarrow> P (works_apply u e s)"
  shows "works_inv t \<and> P t"
  using assms
proof (induction rule: works_history.induct)
  case (history_Cons e s es t)
  then show ?case by (metis list.set_intros works_apply_inv)
qed simp

text \<open>An edition belongs to a work.\<close>

definition belongs :: "work_store \<Rightarrow> string \<Rightarrow> string \<Rightarrow> bool" where
  "belongs s b k \<longleftrightarrow> (\<exists>w \<in> set (works s). w_id w = k \<and> b \<in> set (w_book_ids w))"

definition barred :: "work_store \<Rightarrow> string \<Rightarrow> string \<Rightarrow> bool" where
  "barred s b k \<longleftrightarrow> (\<exists>w \<in> set (works s). w_id w = k \<and> b \<in> set (w_excluded_book_ids w))"

lemma belongs_unique: "works_inv s \<Longrightarrow> belongs s b k \<Longrightarrow> belongs s b l \<Longrightarrow> k = l"
  unfolding belongs_def using works_invD(4) by blast

lemma barred_not_belongs: "works_inv s \<Longrightarrow> barred s b k \<Longrightarrow> \<not> belongs s b k"
  unfolding belongs_def barred_def using works_invD(3) w_id_determines by (metis disjoint_iff)

lemma work_for_book_iff:
  assumes "works_inv s"
  shows "map_option w_id (work_for_book s b) = Some k \<longleftrightarrow> belongs s b k"
proof
  assume "map_option w_id (work_for_book s b) = Some k"
  then obtain w where "work_for_book s b = Some w" "w_id w = k" by auto
  then show "belongs s b k"
    using find_Some_in [of "\<lambda>w. b \<in> set (w_book_ids w)" "works s" w]
    by (auto simp: belongs_def work_for_book_def)
next
  assume bk: "belongs s b k"
  then obtain w where "work_for_book s b = Some w"
    using find_None_iff [of "\<lambda>w. b \<in> set (w_book_ids w)" "works s"]
    by (cases "work_for_book s b") (auto simp: belongs_def work_for_book_def)
  moreover from this have "belongs s b (w_id w)"
    using find_Some_in [of "\<lambda>w. b \<in> set (w_book_ids w)" "works s" w]
    by (auto simp: belongs_def work_for_book_def)
  ultimately show "map_option w_id (work_for_book s b) = Some k"
    using belongs_unique [OF assms bk] by simp
qed

lemma foldl_book_ids:
  "foldl (\<lambda>m b. m(b \<mapsto> k)) m bs x = (if x \<in> set bs then Some k else m x)"
  by (induction bs arbitrary: m) auto

lemma foldl_works:
  "foldl (\<lambda>m w. foldl (\<lambda>m b. m(b \<mapsto> w_id w)) m (w_book_ids w)) m ws x = Some k \<Longrightarrow>
   (\<exists>w \<in> set ws. w_id w = k \<and> x \<in> set (w_book_ids w)) \<or> m x = Some k"
proof (induction ws arbitrary: m)
  case (Cons w ws)
  from Cons.IH [OF Cons.prems [unfolded foldl_Cons]] show ?case
    by (auto simp: foldl_book_ids split: if_splits)
qed simp

lemma foldl_works_None:
  "foldl (\<lambda>m w. foldl (\<lambda>m b. m(b \<mapsto> w_id w)) m (w_book_ids w)) m ws x = None \<Longrightarrow>
   m x = None \<and> (\<forall>w \<in> set ws. x \<notin> set (w_book_ids w))"
proof (induction ws arbitrary: m)
  case (Cons w ws)
  from Cons.IH [OF Cons.prems [unfolded foldl_Cons]] show ?case
    by (auto simp: foldl_book_ids split: if_splits)
qed simp

lemma book_to_work_iff:
  assumes "works_inv s"
  shows "book_to_work s b = Some k \<longleftrightarrow> belongs s b k"
proof
  assume "book_to_work s b = Some k"
  then show "belongs s b k"
    unfolding book_to_work_def belongs_def by (auto dest: foldl_works)
next
  assume bk: "belongs s b k"
  then obtain l where l: "book_to_work s b = Some l"
    unfolding book_to_work_def belongs_def by (cases "book_to_work s b") (auto dest: foldl_works_None simp: book_to_work_def)
  then have "belongs s b l" unfolding book_to_work_def belongs_def by (auto dest: foldl_works)
  with l belongs_unique [OF assms bk] show "book_to_work s b = Some k" by simp
qed

section \<open>What a rescan does\<close>

text \<open>Membership after rewriting every work in place.\<close>

lemma edited_belongs:
  assumes "\<And>w. w_id (F w) = w_id w"
  shows "belongs (s\<lparr>works := map F (works s), suggestions := q\<rparr>) b k \<longleftrightarrow>
    (\<exists>w \<in> set (works s). w_id w = k \<and> b \<in> set (w_book_ids (F w)))"
  by (simp add: belongs_def assms)

lemma edited_barred:
  assumes "\<And>w. w_id (F w) = w_id w"
  shows "barred (s\<lparr>works := map F (works s), suggestions := q\<rparr>) b k \<longleftrightarrow>
    (\<exists>w \<in> set (works s). w_id w = k \<and> b \<in> set (w_excluded_book_ids (F w)))"
  by (simp add: barred_def assms)

definition fold_in :: "unicode \<Rightarrow> edition_candidate \<Rightarrow> string \<Rightarrow> work \<Rightarrow> work" where
  "fold_in u c k w = (if w_id w = k then link_work u c w else w)"

lemma edit_ids [simp]:
  "w_id (fold_in u c k w) = w_id w" "w_id (link_edit b k w) = w_id w" "w_id (reject_edit b k w) = w_id w"
  by (simp_all add: fold_in_def link_edit_def reject_edit_def)

lemma link_folds_in:
  assumes "works_inv s" "i < length (works s)"
  shows "link u s i c = s\<lparr>works := map (fold_in u c (w_id (works s ! i))) (works s),
    suggestions := suggestions s\<rparr>"
  by (simp add: link_as_map [OF assms] fold_in_def [abs_def])

lemma link_belongs:
  assumes inv: "works_inv s" and i: "i < length (works s)"
  shows "belongs (link u s i c) b k \<longleftrightarrow> belongs s b k \<or> (b = c_book_id c \<and> k = w_id (works s ! i))"
proof -
  have "belongs (link u s i c) b k \<longleftrightarrow> (\<exists>w \<in> set (works s). w_id w = k \<and>
      (b \<in> set (w_book_ids w) \<or> (b = c_book_id c \<and> k = w_id (works s ! i))))"
    unfolding link_folds_in [OF assms] edited_belongs [of "fold_in u c (w_id (works s ! i))", OF edit_ids(1)]
    by (rule bex_cong) (auto simp: fold_in_def)
  then show ?thesis using nth_mem [OF i] by (auto simp: belongs_def)
qed

lemma link_barred:
  assumes "works_inv s" "i < length (works s)"
  shows "barred (link u s i c) b k \<longleftrightarrow> barred s b k"
  unfolding link_folds_in [OF assms] edited_barred [of "fold_in u c (w_id (works s ! i))", OF edit_ids(1)]
  unfolding barred_def by (rule bex_cong) (auto simp: fold_in_def)

lemma resolve_belongs:
  assumes inv: "works_inv s"
  shows "belongs (fst (resolve u s c now new_id)) b k \<longleftrightarrow>
    belongs s b k \<or> (b = c_book_id c \<and> k = fst (snd (resolve u s c now new_id)))"
proof (cases rule: resolve_cases [where u = u and s = s and c = c and now = now and new_id = new_id])
  case (seen i)
  with link_belongs [OF inv] position_Some [OF seen(1)] show ?thesis by simp
next
  case (matched i tier)
  with link_belongs [OF inv heuristic_index_spec(1) [OF matched(2)]] show ?thesis by simp
next
  case fresh
  then show ?thesis by (auto simp: belongs_def note_near_misses_def)
qed

lemma resolve_barred:
  assumes inv: "works_inv s" and "barred s b k"
  shows "barred (fst (resolve u s c now new_id)) b k"
proof (cases rule: resolve_cases [where u = u and s = s and c = c and now = now and new_id = new_id])
  case (seen i)
  with link_barred [OF inv] position_Some [OF seen(1)] assms show ?thesis by simp
next
  case (matched i tier)
  with link_barred [OF inv heuristic_index_spec(1) [OF matched(2)]] assms show ?thesis by simp
next
  case fresh
  with assms show ?thesis by (auto simp: barred_def note_near_misses_def)
qed

lemma resolve_seen:
  assumes "works_inv s" "belongs s (c_book_id c) k"
  shows "snd (resolve u s c now new_id) = (k, Manual)"
proof -
  have seen: "belongs s (c_book_id c) (w_id (works s ! i))"
    if "position (\<lambda>w. c_book_id c \<in> set (w_book_ids w)) (works s) = Some i" for i
    using position_Some [OF that] nth_mem by (auto simp: belongs_def)
  show ?thesis
  proof (cases rule: resolve_cases [where u = u and s = s and c = c and now = now and new_id = new_id])
    case (seen i)
    with \<open>position _ _ = Some i \<Longrightarrow> _\<close> belongs_unique [OF assms] show ?thesis by simp
  qed (use assms(2) in \<open>auto simp: belongs_def\<close>)
qed

lemma link_edit_book:
  "b \<in> set (w_book_ids (link_edit c l w)) \<longleftrightarrow> (if b = c then w_id w = l else b \<in> set (w_book_ids w))"
  by (simp add: link_edit_def)

lemma reject_edit_excluded:
  "b \<in> set (w_excluded_book_ids (reject_edit c l w)) \<longleftrightarrow>
     b \<in> set (w_excluded_book_ids w) \<or> (b = c \<and> w_id w = l)"
  by (auto simp: reject_edit_def)

lemma link_manually_belongs:
  assumes "works_inv s" "\<exists>w \<in> set (works s). w_id w = l"
  shows "belongs (fst (link_manually s c l)) b k \<longleftrightarrow> (if b = c then k = l else belongs s b k)"
  unfolding link_manually_as_map [OF assms] fst_conv edited_belongs [of "link_edit c l", OF edit_ids(2)]
  unfolding belongs_def link_edit_book using assms(2) by auto

lemma link_manually_barred:
  assumes "works_inv s" "\<exists>w \<in> set (works s). w_id w = l"
  shows "barred (fst (link_manually s c l)) b k \<longleftrightarrow> barred s b k \<and> (b, k) \<noteq> (c, l)"
  unfolding link_manually_as_map [OF assms] fst_conv edited_barred [of "link_edit c l", OF edit_ids(2)]
  unfolding barred_def by (auto simp: link_edit_def)

lemma reject_belongs:
  assumes "works_inv s" "\<exists>w \<in> set (works s). w_id w = l"
  shows "belongs (fst (reject_suggestion s c l)) b k \<longleftrightarrow> belongs s b k \<and> (b, k) \<noteq> (c, l)"
  unfolding reject_as_map [OF assms] fst_conv edited_belongs [of "reject_edit c l", OF edit_ids(3)]
  unfolding belongs_def by (auto simp: reject_edit_def split: if_splits)

lemma reject_barred:
  assumes "works_inv s" "\<exists>w \<in> set (works s). w_id w = l"
  shows "barred (fst (reject_suggestion s c l)) b k \<longleftrightarrow> barred s b k \<or> (b, k) = (c, l)"
  unfolding reject_as_map [OF assms] fst_conv edited_barred [of "reject_edit c l", OF edit_ids(3)]
  unfolding barred_def reject_edit_excluded using assms(2) by auto

lemma prune_belongs [simp]: "belongs (prune_suggestions s p) b k \<longleftrightarrow> belongs s b k"
  and prune_barred [simp]: "barred (prune_suggestions s p) b k \<longleftrightarrow> barred s b k"
  by (simp_all add: prune_suggestions_def belongs_def barred_def)

lemma link_manually_missing: "\<not> (\<exists>w \<in> set (works s). w_id w = l) \<Longrightarrow> link_manually s c l = (s, False)"
  and reject_missing: "\<not> (\<exists>w \<in> set (works s). w_id w = l) \<Longrightarrow> reject_suggestion s c l = (s, False)"
  by (simp_all add: link_manually_def reject_suggestion_def)

lemma works_apply_belongs:
  assumes "works_inv s" "belongs s b k"
    and "\<And>l. e = LinkManually b l \<Longrightarrow> l = k" "e \<noteq> Reject b k"
  shows "belongs (works_apply u e s) b k"
proof (cases e)
  case (LinkManually c l)
  then show ?thesis using assms link_manually_belongs [OF assms(1), of l c b k]
    by (cases "\<exists>w \<in> set (works s). w_id w = l")
      (auto simp: works_apply_def link_manually_missing simp del: not_ex)
next
  case (Reject c l)
  then show ?thesis using assms reject_belongs [OF assms(1), of l c b k]
    by (cases "\<exists>w \<in> set (works s). w_id w = l") (auto simp: works_apply_def reject_missing)
qed (use assms in \<open>simp_all add: works_apply_def resolve_belongs\<close>)

lemma works_apply_barred:
  assumes "works_inv s" "barred s b k" "e \<noteq> LinkManually b k"
  shows "barred (works_apply u e s) b k"
proof (cases e)
  case (LinkManually c l)
  then show ?thesis using assms link_manually_barred [OF assms(1), of l c b k]
    by (cases "\<exists>w \<in> set (works s). w_id w = l") (auto simp: works_apply_def link_manually_missing)
next
  case (Reject c l)
  then show ?thesis using assms reject_barred [OF assms(1), of l c b k]
    by (cases "\<exists>w \<in> set (works s). w_id w = l") (auto simp: works_apply_def reject_missing)
qed (use assms in \<open>simp_all add: works_apply_def resolve_barred\<close>)

fun run_history :: "unicode \<Rightarrow> works_event list \<Rightarrow> work_store \<Rightarrow> work_store option" where
  "run_history u [] s = Some s"
| "run_history u (e # es) s = (if works_fresh e s then run_history u es (works_apply u e s) else None)"

lemma run_history_sound: "run_history u es s = Some t \<Longrightarrow> works_history u es s t"
  by (induction es arbitrary: s) (auto intro: works_history.intros split: if_splits)

section \<open>Properties\<close>

definition ex_edition :: "string \<Rightarrow> string option \<Rightarrow> f64 \<Rightarrow> edition_candidate" where
  "ex_edition b asin d = \<lparr>c_book_id = b, c_title = cps ''It'', c_author = None,
     c_asin = asin, c_isbn = None, c_duration_seconds = Some d\<rparr>"

definition ex_history :: "works_event list" where
  "ex_history =
     [Rescan (ex_edition ''b1'' (Some ''A1'') (Fin 36000)) 1 ''w1'',
      Rescan (ex_edition ''b2'' None (Fin 20000)) 2 ''w2'',
      Rescan (ex_edition ''b3'' None (Fin 35000)) 3 ''w3'',
      Reject ''b2'' ''w1'',
      LinkManually ''b3'' ''w2'']"

text \<open>C31: The index never crosses two histories. After any sequence of rescans, manual
  links, rejections and pruning, starting from an empty store, an edition is listed by at
  most one work, a work's pinned editions are among its editions, its excluded ones are
  not, no queued suggestion asks about an excluded pair, and the map the read paths use
  (\<open>book_to_work\<close>) agrees with \<open>work_for_book\<close> on every book.\<close>

theorem works_index_consistent:
  assumes "works_history u es empty_store s"
  shows "works_inv s \<and> book_to_work s = (\<lambda>b. map_option w_id (work_for_book s b))"
proof -
  have inv: "works_inv s"
    using works_history_keeps [OF assms empty_store_inv, of "\<lambda>_. True"] by simp
  have "book_to_work s b = map_option w_id (work_for_book s b)" for b
  proof -
    have same: "book_to_work s b = Some k \<longleftrightarrow> map_option w_id (work_for_book s b) = Some k" for k
      by (simp only: book_to_work_iff [OF inv] work_for_book_iff [OF inv])
    show ?thesis
    proof (cases "book_to_work s b")
      case None
      then have "map_option w_id (work_for_book s b) \<noteq> Some k" for k using same [of k] by simp
      then have "map_option w_id (work_for_book s b) = None" by (metis option.exhaust)
      with None show ?thesis by simp
    next
      case (Some k)
      then have "map_option w_id (work_for_book s b) = Some k" using same [of k] by (simp only: )
      from this [symmetric] show ?thesis unfolding Some by (simp only: )
    qed
  qed
  with inv show ?thesis by blast
qed

lemma works_index_consistent_witness:
  "\<exists>s. run_history ascii_tables ex_history empty_store = Some s \<and> works_inv s
     \<and> book_to_work s ''b3'' = Some ''w2'' \<and> length (suggestions s) = 0
     \<and> book_to_work s = (\<lambda>b. map_option w_id (work_for_book s b))"
proof -
  have "(case run_history ascii_tables ex_history empty_store of None \<Rightarrow> False
     | Some s \<Rightarrow> book_to_work s ''b3'' = Some ''w2'' \<and> length (suggestions s) = 0)"
    by code_simp
  then obtain s where s: "run_history ascii_tables ex_history empty_store = Some s"
      "book_to_work s ''b3'' = Some ''w2''" "length (suggestions s) = 0"
    by (auto split: option.splits)
  with works_index_consistent [OF run_history_sound [OF s(1)]] show ?thesis by blast
qed

text \<open>C32: A manual link is never overridden. Once an administrator has linked a book to a
  work, whatever is scanned, linked, rejected or pruned afterwards, as long as no later
  decision of an administrator concerns that same book (another link) or that same pair (a
  rejection), every rescan of the book resolves to that work.\<close>

theorem manual_link_honoured:
  assumes "works_inv s" "link_manually s b k = (s', True)" "works_history u es s' t"
    and later: "\<And>l. LinkManually b l \<in> set es \<Longrightarrow> l = k" "Reject b k \<notin> set es"
    and "c_book_id c = b"
  shows "snd (resolve u t c now new_id) = (k, Manual)"
proof -
  have ex: "\<exists>w \<in> set (works s). w_id w = k"
    using assms(2) by (auto simp: link_manually_def split: if_splits)
  have "belongs s' b k" "works_inv s'"
    using link_manually_belongs [OF assms(1) ex, of b b k] link_manually_inv [OF assms(1), of b k] assms(2)
    by simp_all
  moreover have "belongs (works_apply u e r) b k"
    if "e \<in> set es" "works_inv r" "belongs r b k" for e r
    using that later by (intro works_apply_belongs) auto
  ultimately have "works_inv t \<and> belongs t b k"
    using works_history_keeps [OF assms(3), of "\<lambda>r. belongs r b k"] by blast
  with resolve_seen [of t c k] assms(6) show ?thesis by simp
qed

text \<open>C33: A rejected suggestion stays rejected. After an administrator rejected a book for a
  work, no rescan, link, rejection or pruning puts the book into that work or queues the
  question again, unless an administrator links that very pair by hand.\<close>

theorem rejection_permanent:
  assumes "works_inv s" "reject_suggestion s b k = (s', True)" "works_history u es s' t"
    and "LinkManually b k \<notin> set es"
  shows "\<not> belongs t b k \<and> \<not> (\<exists>g \<in> set (suggestions t). s_book_id g = b \<and> s_work_id g = k)"
proof -
  have ex: "\<exists>w \<in> set (works s). w_id w = k"
    using assms(2) by (auto simp: reject_suggestion_def split: if_splits)
  have "barred s' b k" "works_inv s'"
    using reject_barred [OF assms(1) ex, of b b k] reject_inv [OF assms(1), of b k] assms(2)
    by simp_all
  moreover have "barred (works_apply u e r) b k"
    if "e \<in> set es" "works_inv r" "barred r b k" for e r
    using that assms(4) by (intro works_apply_barred) auto
  ultimately have t: "works_inv t" "barred t b k"
    using works_history_keeps [OF assms(3), of "\<lambda>r. barred r b k"] by blast+
  then have "\<not> (\<exists>g \<in> set (suggestions t). s_book_id g = b \<and> s_work_id g = k)"
    using works_invD(5) [OF t(1)] by (auto simp: barred_def)
  with barred_not_belongs [OF t] show ?thesis by blast
qed

text \<open>C34: A rescan only adds evidence. It leaves every other book where it was, puts the
  scanned book into exactly the work it reports, keeps it there when it already had one, and
  joins a work it was not in only on an identical ASIN, an identical ISBN, or the same
  title-and-author key with runtimes that agree; otherwise the book gets a new work of its
  own and no existing work changes.\<close>

theorem resolve_evidence:
  assumes "works_inv s" "resolve u s c now new_id = (s', k, tier)"
  shows "(\<forall>b l. belongs s' b l \<longleftrightarrow> belongs s b l \<or> (b = c_book_id c \<and> l = k)) \<and>
     (case tier of
        Manual \<Rightarrow> belongs s (c_book_id c) k
      | Asin \<Rightarrow> \<exists>w \<in> set (works s). w_id w = k \<and> \<not> excluded c w \<and>
          (\<exists>a. c_asin c = Some a \<and> a \<in> set (w_asins w))
      | Isbn \<Rightarrow> \<exists>w \<in> set (works s). w_id w = k \<and> \<not> excluded c w \<and>
          (\<exists>n. c_isbn c = Some n \<and> n \<in> set (w_isbns w))
      | TitleAuthorDuration \<Rightarrow> \<exists>w \<in> set (works s). w_id w = k \<and> \<not> excluded c w \<and>
          candidate_key u c \<in> set (w_keys w) \<and>
          durations_agree (w_duration_seconds w) (c_duration_seconds c)
      | New \<Rightarrow> k = new_id \<and> works s' = works s @ [new_work u c now new_id])"
    (is "?others \<and> ?evidence")
proof
  show ?others
    using resolve_belongs [OF assms(1), of u c now new_id] assms(2) by simp
next
  show ?evidence
  proof (cases rule: resolve_cases [where u = u and s = s and c = c and now = now and new_id = new_id])
    case (seen i)
    then show ?thesis using assms(2) position_Some [OF seen(1)] nth_mem by (auto simp: belongs_def)
  next
    case (matched i t)
    note spec = heuristic_index_spec [OF matched(2)]
    have "works s ! i \<in> set (works s)" using spec(1) by simp
    then show ?thesis using matched(3) assms(2) spec
      by (cases t) (auto simp: excluded_def)
  next
    case fresh
    then show ?thesis using assms(2) by simp
  qed
qed

definition ex_work :: "string \<Rightarrow> string \<Rightarrow> string list \<Rightarrow> f64 \<Rightarrow> work" where
  "ex_work k b asins d =
     \<lparr>w_id = k, w_title = cps ''It'', w_author = None, w_asins = asins, w_isbns = [],
      w_keys = [cps ''it|''], w_duration_seconds = Some d, w_book_ids = [b],
      w_manual_book_ids = [], w_excluded_book_ids = [], w_created_at_ms = 1\<rparr>"

definition ex_store :: work_store where
  "ex_store = \<lparr>works = [ex_work ''w1'' ''b1'' [''A1''] (Fin 36000), ex_work ''w2'' ''b2'' [] (Fin 20000)],
     suggestions = []\<rparr>"

lemma ex_store_inv: "works_inv ex_store"
  by (simp add: works_inv_def ex_store_def ex_work_def)

lemma manual_link_honoured_witness:
  "snd (resolve ascii_tables
      (works_apply ascii_tables (Rescan (ex_edition ''b2'' None (Fin 36000)) 3 ''w3'')
        (fst (link_manually ex_store ''b1'' ''w2'')))
      (ex_edition ''b1'' (Some ''A1'') (Fin 36000)) 4 ''w4'') = (''w2'', Manual)"
proof (rule manual_link_honoured [OF ex_store_inv, of "''b1''" "''w2''"])
  show "link_manually ex_store ''b1'' ''w2'' = (fst (link_manually ex_store ''b1'' ''w2''), True)"
    by code_simp
  show "works_history ascii_tables [Rescan (ex_edition ''b2'' None (Fin 36000)) 3 ''w3'']
      (fst (link_manually ex_store ''b1'' ''w2''))
      (works_apply ascii_tables (Rescan (ex_edition ''b2'' None (Fin 36000)) 3 ''w3'')
        (fst (link_manually ex_store ''b1'' ''w2'')))"
    by (intro works_history.intros) code_simp
qed (simp_all add: ex_edition_def)

lemma rejection_permanent_witness:
  "\<not> belongs (works_apply ascii_tables (Rescan (ex_edition ''b2'' (Some ''A1'') (Fin 36000)) 3 ''w3'')
        (fst (reject_suggestion ex_store ''b2'' ''w1''))) ''b2'' ''w1''"
proof -
  have "reject_suggestion ex_store ''b2'' ''w1'' = (fst (reject_suggestion ex_store ''b2'' ''w1''), True)"
    by code_simp
  moreover have "works_history ascii_tables [Rescan (ex_edition ''b2'' (Some ''A1'') (Fin 36000)) 3 ''w3'']
      (fst (reject_suggestion ex_store ''b2'' ''w1''))
      (works_apply ascii_tables (Rescan (ex_edition ''b2'' (Some ''A1'') (Fin 36000)) 3 ''w3'')
        (fst (reject_suggestion ex_store ''b2'' ''w1'')))"
    by (intro works_history.intros) code_simp
  ultimately show ?thesis using rejection_permanent [OF ex_store_inv] by simp
qed

lemma resolve_evidence_witness:
  "(case resolve ascii_tables ex_store (ex_edition ''b9'' (Some ''A1'') (Fin 1)) 5 ''w5'' of
     (s', k, tier) \<Rightarrow> k = ''w1'' \<and> tier = Asin \<and> belongs s' ''b9'' ''w1''
       \<and> belongs s' ''b2'' ''w2'')"
proof -
  obtain s' k tier where
    r: "resolve ascii_tables ex_store (ex_edition ''b9'' (Some ''A1'') (Fin 1)) 5 ''w5'' = (s', k, tier)"
    by (cases "resolve ascii_tables ex_store (ex_edition ''b9'' (Some ''A1'') (Fin 1)) 5 ''w5''")
  have "snd (resolve ascii_tables ex_store (ex_edition ''b9'' (Some ''A1'') (Fin 1)) 5 ''w5'') = (''w1'', Asin)"
    by code_simp
  moreover have "belongs ex_store ''b2'' ''w2''" by code_simp
  ultimately show ?thesis
    using r resolve_evidence [OF ex_store_inv r] by (simp add: ex_edition_def)
qed

end
