(* ===== verification/Table.thy ===== *)
theory Table
  imports Prelude
begin

text \<open>
  The standard library's \<open>HashMap\<close>. The interface is a locale: lookup, insertion,
  removal and the keys in iteration order, with the laws its clients rely on. The model
  is a list of entries with distinct keys; its order stands for the unspecified
  iteration order, so a theorem about every such list holds for every order a hash table
  may choose. Facts proved in the locale (removing a batch of keys, counting entries) are
  the ones the session, job and throttle tables share.
\<close>

section \<open>Interface\<close>

locale hash_map =
  fixes lookup :: "'m \<Rightarrow> 'k \<Rightarrow> 'v option"
    and insert_entry :: "'k \<Rightarrow> 'v \<Rightarrow> 'm \<Rightarrow> 'm"
    and remove_entry :: "'k \<Rightarrow> 'm \<Rightarrow> 'm"
    and key_list :: "'m \<Rightarrow> 'k list"
    and valid :: "'m \<Rightarrow> bool"
  assumes lookup_insert: "lookup (insert_entry k v m) j = (if j = k then Some v else lookup m j)"
    and lookup_remove: "valid m \<Longrightarrow> lookup (remove_entry k m) j = (if j = k then None else lookup m j)"
    and keys_lookup: "set (key_list m) = {k. lookup m k \<noteq> None}"
    and keys_distinct: "valid m \<Longrightarrow> distinct (key_list m)"
    and valid_insert: "valid m \<Longrightarrow> valid (insert_entry k v m)"
    and valid_remove: "valid m \<Longrightarrow> valid (remove_entry k m)"
begin

lemma lookup_insert_same: "lookup (insert_entry k v m) k = Some v"
  by (simp add: lookup_insert)

lemma keys_insert: "set (key_list (insert_entry k v m)) = insert k (set (key_list m))"
  by (auto simp: keys_lookup lookup_insert)

lemma keys_remove: "valid m \<Longrightarrow> set (key_list (remove_entry k m)) = set (key_list m) - {k}"
  by (auto simp: keys_lookup lookup_remove)

lemma size_card: "valid m \<Longrightarrow> length (key_list m) = card (set (key_list m))"
  by (simp add: distinct_card keys_distinct)

lemma in_keys: "k \<in> set (key_list m) \<longleftrightarrow> lookup m k \<noteq> None"
  by (simp add: keys_lookup)

lemma size_insert:
  assumes "valid m"
  shows "length (key_list (insert_entry k v m)) =
     (if lookup m k = None then Suc (length (key_list m)) else length (key_list m))"
proof -
  have "length (key_list (insert_entry k v m)) = card (insert k (set (key_list m)))"
    by (simp only: size_card [OF valid_insert [OF assms]] keys_insert)
  also have "\<dots> = (if k \<in> set (key_list m) then card (set (key_list m))
      else Suc (card (set (key_list m))))"
    by (simp only: card_insert_if List.finite_set)
  finally show ?thesis
    by (simp only: size_card [OF assms] in_keys) simp
qed

lemma size_remove:
  assumes "valid m" "lookup m k \<noteq> None"
  shows "Suc (length (key_list (remove_entry k m))) = length (key_list m)"
proof -
  have "k \<in> set (key_list m)" using assms(2) by (simp only: in_keys) simp
  then have "Suc (card (set (key_list m) - {k})) = card (set (key_list m))"
    by (intro card.remove [symmetric]) auto
  then show ?thesis
    by (simp only: size_card [OF assms(1)] size_card [OF valid_remove [OF assms(1)]]
        keys_remove [OF assms(1)])
qed

text \<open>Removing a batch of keys, one after the other.\<close>

lemma valid_remove_all: "valid m \<Longrightarrow> valid (fold remove_entry ks m)"
  by (induction ks arbitrary: m) (auto intro: valid_remove)

lemma lookup_remove_all:
  "valid m \<Longrightarrow> lookup (fold remove_entry ks m) j = (if j \<in> set ks then None else lookup m j)"
  by (induction ks arbitrary: m) (auto simp: lookup_remove valid_remove)

lemma keys_remove_all:
  "valid m \<Longrightarrow> set (key_list (fold remove_entry ks m)) = set (key_list m) - set ks"
  by (auto simp: keys_lookup lookup_remove_all)

lemma size_remove_all:
  assumes "valid m" "distinct ks" "set ks \<subseteq> set (key_list m)"
  shows "length (key_list (fold remove_entry ks m)) = length (key_list m) - length ks"
proof -
  have "length (key_list (fold remove_entry ks m)) = card (set (key_list m) - set ks)"
    using size_card [OF valid_remove_all [OF assms(1)]] assms(1) by (simp add: keys_remove_all)
  also have "\<dots> = card (set (key_list m)) - card (set ks)"
    using assms(3) by (intro card_Diff_subset) auto
  finally show ?thesis
    using assms(1,2) by (simp add: size_card distinct_card)
qed

end

section \<open>The model\<close>

type_synonym ('k, 'v) table = "('k \<times> 'v) list"

definition tget :: "('k, 'v) table \<Rightarrow> 'k \<Rightarrow> 'v option" where
  "tget m k = map_of m k"

definition tinsert :: "'k \<Rightarrow> 'v \<Rightarrow> ('k, 'v) table \<Rightarrow> ('k, 'v) table" where
  "tinsert k v m = AList.update k v m"

definition tremove :: "'k \<Rightarrow> ('k, 'v) table \<Rightarrow> ('k, 'v) table" where
  "tremove k m = AList.delete k m"

definition tkeys :: "('k, 'v) table \<Rightarrow> 'k list" where
  "tkeys m = map fst m"

definition tvalid :: "('k, 'v) table \<Rightarrow> bool" where
  "tvalid m \<longleftrightarrow> distinct (map fst m)"

text \<open>\<open>retain\<close>, and \<open>get_mut\<close> followed by an assignment.\<close>

definition tretain :: "('k \<Rightarrow> 'v \<Rightarrow> bool) \<Rightarrow> ('k, 'v) table \<Rightarrow> ('k, 'v) table" where
  "tretain P m = filter (\<lambda>(k, v). P k v) m"

definition tmodify :: "'k \<Rightarrow> ('v \<Rightarrow> 'v) \<Rightarrow> ('k, 'v) table \<Rightarrow> ('k, 'v) table" where
  "tmodify k f m = (case tget m k of None \<Rightarrow> m | Some v \<Rightarrow> tinsert k (f v) m)"

interpretation tbl: hash_map tget tinsert tremove tkeys tvalid
proof unfold_locales
  show "set (tkeys m) = {k. tget m k \<noteq> None}" for m :: "('k \<times> 'v) list"
    by (force simp: tkeys_def tget_def map_of_eq_None_iff)
  show "tvalid m \<Longrightarrow> tvalid (tinsert k v m)" for m :: "('k \<times> 'v) list" and k v
    by (simp add: tvalid_def tinsert_def distinct_update)
  show "tvalid m \<Longrightarrow> tvalid (tremove k m)" for m :: "('k \<times> 'v) list" and k
    by (simp add: tvalid_def tremove_def distinct_delete)
qed (auto simp: tget_def tinsert_def tremove_def tkeys_def tvalid_def update_conv' delete_conv')

lemmas table_laws = tbl.lookup_insert tbl.lookup_remove tbl.valid_insert tbl.valid_remove

lemma tget_retain:
  "tvalid m \<Longrightarrow> tget (tretain P m) k =
     (case tget m k of None \<Rightarrow> None | Some v \<Rightarrow> if P k v then Some v else None)"
proof (induction m)
  case (Cons e m)
  obtain a b where e: "e = (a, b)" by fastforce
  have ih: "tget (tretain P m) k =
     (case tget m k of None \<Rightarrow> None | Some v \<Rightarrow> if P k v then Some v else None)"
    using Cons by (simp add: tvalid_def)
  have "a \<notin> fst ` set m" using Cons.prems e by (simp add: tvalid_def)
  then have "tget m a = None" by (simp add: tget_def map_of_eq_None_iff)
  with ih e show ?case by (auto simp: tget_def tretain_def)
qed (simp add: tget_def tretain_def)

lemma tvalid_retain: "tvalid m \<Longrightarrow> tvalid (tretain P m)"
  by (simp add: tvalid_def tretain_def distinct_map_filter)

lemma length_tretain_le: "length (tretain P m) \<le> length m"
  by (simp add: tretain_def)

lemma tget_modify:
  "tget (tmodify k f m) j = (if j = k then map_option f (tget m k) else tget m j)"
  by (auto simp: tmodify_def tbl.lookup_insert split: option.splits)

lemma tvalid_modify: "tvalid m \<Longrightarrow> tvalid (tmodify k f m)"
  by (auto simp: tmodify_def intro: tbl.valid_insert split: option.splits)

lemma tget_in: "tget m k = Some v \<Longrightarrow> (k, v) \<in> set m"
  by (simp add: tget_def map_of_SomeD)

lemma in_tget: "tvalid m \<Longrightarrow> (k, v) \<in> set m \<Longrightarrow> tget m k = Some v"
  by (simp add: tvalid_def tget_def)

lemma tvalid_Nil [simp]: "tvalid []"
  by (simp add: tvalid_def)

lemma tget_Nil [simp]: "tget [] k = None"
  by (simp add: tget_def)

end
