(* ===== verification/Calendar.thy ===== *)
theory Calendar
  imports Errors
begin

text \<open>
  Civil dates and listening streaks of \<open>apps/server/src/activity.rs\<close>, with the RFC 3339
  instant of \<open>util.rs\<close>. A day is its number since 1970-01-01, an \<open>i64\<close>. The days the
  server formats come from 64-bit second counts, so no sum in \<open>days_to_ymd\<close> overflows;
  \<open>ymd_to_days\<close> reads a year of any 64-bit size, so its results are wrapped to 64 bits
  where the code's sums wrap. The loops over \<open>windows(2)\<close> are recursions on the list of
  active days.
\<close>

section \<open>Dates\<close>

definition wrap64 :: "int \<Rightarrow> int" where
  "wrap64 x = (x + 2 ^ 63) mod 2 ^ 64 - 2 ^ 63"

lemma wrap64_id: "- (2 ^ 63) \<le> x \<Longrightarrow> x < 2 ^ 63 \<Longrightarrow> wrap64 x = x"
  by (simp add: wrap64_def)

text \<open>\<open>{:0w$}\<close> of a signed integer: the sign counts towards the width.\<close>

definition pad_int :: "nat \<Rightarrow> int \<Rightarrow> string" where
  "pad_int w i = (if i < 0 then CHR ''-'' # pad (w - 1) (nat (- i)) else pad w (nat i))"

definition days_to_ymd :: "int \<Rightarrow> string" where
  "days_to_ymd days_since_epoch =
     (let z = days_since_epoch + 719468;
          era = z div 146097;
          doe = z mod 146097;
          yoe = (doe - doe div 1460 + doe div 36524 - doe div 146096) div 365;
          y = yoe + era * 400;
          doy = doe - (365 * yoe + yoe div 4 - yoe div 100);
          mp = (5 * doy + 2) div 153;
          d = doy - (153 * mp + 2) div 5 + 1;
          m = (if mp < 10 then mp + 3 else mp - 9);
          year = (if m \<le> 2 then y + 1 else y)
      in pad_int 4 year @ ''-'' @ pad_int 2 m @ ''-'' @ pad_int 2 d)"

text \<open>The number of a date given by its parts.\<close>

definition civil_days :: "int \<Rightarrow> int \<Rightarrow> int \<Rightarrow> int" where
  "civil_days y m d =
     (let y_adj = (if m \<le> 2 then wrap64 (y - 1) else y);
          era = y_adj div 400;
          yoe = y_adj mod 400;
          m_adj = (if m > 2 then m - 3 else m + 9);
          doy = (153 * m_adj + 2) div 5 + d - 1;
          doe = yoe * 365 + yoe div 4 - yoe div 100 + doy
      in wrap64 (era * 146097 + doe - 719468))"

definition ymd_to_days :: "string \<Rightarrow> int option" where
  "ymd_to_days ymd =
     (case split_on CHR ''-'' ymd of
        p1 # p2 # p3 # _ \<Rightarrow>
          (case (parse_i64 p1, parse_i64 p2, parse_i64 p3) of
             (Some y, Some m, Some d) \<Rightarrow>
               if \<not> (1 \<le> m \<and> m \<le> 12) \<or> \<not> (1 \<le> d \<and> d \<le> 31) then None
               else Some (civil_days y m d)
           | _ \<Rightarrow> None)
      | _ \<Rightarrow> None)"

definition sanitized_tz_offset_minutes :: "int option \<Rightarrow> int" where
  "sanitized_tz_offset_minutes offset =
     (case offset of
        Some minutes \<Rightarrow> if - 12 * 60 \<le> minutes \<and> minutes \<le> 14 * 60 then minutes else 0
      | None \<Rightarrow> 0)"

text \<open>The listener's calendar day; \<open>now\<close> is the clock in seconds.\<close>

definition today_ymd :: "u64 \<Rightarrow> int \<Rightarrow> string" where
  "today_ymd now tz_offset_minutes =
     days_to_ymd ((int (unat now) + tz_offset_minutes * 60) div 86400)"

definition rfc3339_utc :: "u64 \<Rightarrow> string" where
  "rfc3339_utc unix_seconds =
     (let days = int (unat unix_seconds div 86400);
          seconds_today = unat unix_seconds mod 86400
      in days_to_ymd days @ ''T'' @ pad 2 (seconds_today div 3600) @ '':''
         @ pad 2 (seconds_today mod 3600 div 60) @ '':'' @ pad 2 (seconds_today mod 60) @ ''Z'')"

text \<open>Days are counted from 1970-01-01, a Thursday; Monday is 0.\<close>

definition weekday_from_monday :: "int \<Rightarrow> int" where
  "weekday_from_monday days_since_epoch = (days_since_epoch + 3) mod 7"

section \<open>The civil calendar, inverted\<close>

text \<open>The first day of year \<open>y\<close> of a 400-year era that starts on 1 March.\<close>

definition year_start :: "int \<Rightarrow> int" where
  "year_start y = 365 * y + y div 4 - y div 100"

text \<open>The numerator of the year-of-era formula; it never decreases.\<close>

definition leapless :: "int \<Rightarrow> int" where
  "leapless doe = doe - doe div 1460 + doe div 36524 - doe div 146096"

lemma div_succ_le: "0 < k \<Longrightarrow> ((x :: int) + 1) div k \<le> x div k + 1"
  by (metis add.commute div_add_self2 less_irrefl zdiv_mono1 add_left_mono zless_imp_add1_zle
      zero_less_one order.strict_implies_order int_one_le_iff_zero_less)

lemma leapless_mono_step:
  assumes "0 \<le> doe" "doe < 146096"
  shows "leapless doe \<le> leapless (doe + 1)"
proof (cases "doe = 146095")
  case True
  then show ?thesis by (simp add: leapless_def)
next
  case False
  with assms have "doe div 146096 = 0" "(doe + 1) div 146096 = 0" by auto
  moreover have "(doe + 1) div 1460 \<le> doe div 1460 + 1" by (rule div_succ_le) simp
  moreover have "doe div 36524 \<le> (doe + 1) div 36524" by (rule zdiv_mono1) auto
  ultimately show ?thesis unfolding leapless_def by linarith
qed

lemma leapless_mono: "a \<le> b \<Longrightarrow> 0 \<le> a \<Longrightarrow> b \<le> 146096 \<Longrightarrow> leapless a \<le> leapless b"
proof (induction b rule: int_ge_induct)
  case (step i)
  then show ?case using leapless_mono_step [of i] by simp
qed simp

lemma year_bounds_checked:
  "list_all (\<lambda>y. 365 * y \<le> leapless (year_start y) \<and>
      leapless (min (year_start (y + 1) - 1) 146096) < 365 * y + 365) [0..399]"
  by code_simp

lemma year_bounds:
  "0 \<le> y \<Longrightarrow> y \<le> 399 \<Longrightarrow> 365 * y \<le> leapless (year_start y) \<and>
     leapless (min (year_start (y + 1) - 1) 146096) < 365 * y + 365"
  using year_bounds_checked by (simp add: list_all_iff)

lemma year_start_0 [simp]: "year_start 0 = 0"
  by (simp add: year_start_def)

lemma year_start_400: "year_start 400 = 146096"
  by (simp add: year_start_def)

lemma year_start_step: "0 \<le> y \<Longrightarrow> year_start (y + 1) \<le> year_start y + 366"
  using div_succ_le [of 4 y] zdiv_mono1 [of y "y + 1" 100] by (simp add: year_start_def)

lemma year_start_nonneg: "0 \<le> y \<Longrightarrow> 0 \<le> year_start y"
  using div_le_dividend [of "nat y" 100] zdiv_mono2 [of y 4 100] by (simp add: year_start_def)

lemma year_exists:
  "1 \<le> n \<Longrightarrow> 0 \<le> doe \<Longrightarrow> doe < year_start n \<Longrightarrow>
   \<exists>y. 0 \<le> y \<and> y < n \<and> year_start y \<le> doe \<and> doe < year_start (y + 1)"
proof (induction n rule: int_ge_induct)
  case base
  then show ?case by (intro exI [of _ 0]) simp
next
  case (step n)
  show ?case
  proof (cases "doe < year_start n")
    case True
    with step obtain y where "0 \<le> y" "y < n" "year_start y \<le> doe" "doe < year_start (y + 1)"
      by blast
    then show ?thesis by (intro exI [of _ y]) simp
  next
    case False
    with step show ?thesis by (intro exI [of _ n]) simp
  qed
qed

lemma div_365_unique: "365 * y \<le> x \<Longrightarrow> x < 365 * y + 365 \<Longrightarrow> x div 365 = (y :: int)"
  by (rule int_div_pos_eq [where r = "x - 365 * y"]) auto

text \<open>The year-of-era formula finds the year a day of the era falls in.\<close>

lemma year_of_era:
  assumes "0 \<le> doe" "doe < 146097"
  defines "yoe \<equiv> leapless doe div 365"
  shows "0 \<le> yoe \<and> yoe \<le> 399 \<and> year_start yoe \<le> doe \<and> doe - year_start yoe \<le> 365"
proof (cases "doe = 146096")
  case True
  then show ?thesis by (simp add: yoe_def leapless_def year_start_def)
next
  case False
  with assms have "doe < year_start 400" by (simp add: year_start_400)
  then obtain y where y: "0 \<le> y" "y < 400" "year_start y \<le> doe" "doe < year_start (y + 1)"
    using year_exists [of 400 doe] assms by auto
  from y have b: "365 * y \<le> leapless (year_start y)"
      "leapless (min (year_start (y + 1) - 1) 146096) < 365 * y + 365"
    using year_bounds [of y] by auto
  have "leapless (year_start y) \<le> leapless doe"
    using y assms by (intro leapless_mono) (auto intro: year_start_nonneg)
  moreover have "leapless doe \<le> leapless (min (year_start (y + 1) - 1) 146096)"
    using y assms by (intro leapless_mono) auto
  ultimately have "365 * y \<le> leapless doe" "leapless doe < 365 * y + 365" using b by auto
  then have "yoe = y" unfolding yoe_def by (rule div_365_unique)
  show ?thesis
    unfolding \<open>yoe = y\<close> using y year_start_step [of y] by linarith
qed

lemma month_day_checked:
  "list_all (\<lambda>doy. let mp = (5 * doy + 2) div 153; d = doy - (153 * mp + 2) div 5 + 1
     in 0 \<le> mp \<and> mp \<le> 11 \<and> 1 \<le> d \<and> d \<le> 31) [0..365 :: int]"
  by code_simp

lemma month_day:
  "0 \<le> doy \<Longrightarrow> doy \<le> 365 \<Longrightarrow> mp = (5 * doy + 2) div 153 \<Longrightarrow>
   0 \<le> mp \<and> mp \<le> 11 \<and> 1 \<le> doy - (153 * mp + 2) div 5 + 1 \<and> doy - (153 * mp + 2) div 5 + 1 \<le> (31 :: int)"
  using month_day_checked by (simp add: list_all_iff Let_def)

section \<open>Reading a printed date back\<close>

lemma dec_val_zeros: "dec_val (replicate k CHR ''0'' @ s) = dec_val s"
proof -
  have "foldl (\<lambda>n c. 10 * n + (byte c - 48)) 0 (replicate k CHR ''0'') = 0"
    by (induction k) (auto simp: byte_def)
  then show ?thesis by (simp add: dec_val_def)
qed

lemma pad_digits: "list_all is_ascii_digit (pad w n)"
  using dec_digits [of n] by (auto simp: pad_def list_all_iff is_ascii_digit_def byte_def)

lemma pad_nonempty [simp]: "pad w n \<noteq> []"
  by (simp add: pad_def)

lemma parse_digits_pad [simp]: "parse_digits (pad w n) = Some n"
  using pad_digits [of w n] by (simp add: parse_digits_def pad_def dec_val_zeros)

lemma split_sign_pad [simp]: "split_sign (pad w n) = (False, pad w n)"
proof (rule split_sign_digits)
  show "is_ascii_digit (hd (pad w n))"
    using pad_digits [of w n] by (metis pad_nonempty list.set_sel(1) list_all_iff)
qed simp

lemma parse_i64_pad: "0 \<le> i \<Longrightarrow> i < 2 ^ 63 \<Longrightarrow> parse_i64 (pad_int w i) = Some i"
  by (simp add: pad_int_def parse_i64_def)

lemma pad_int_no_minus: "0 \<le> i \<Longrightarrow> CHR ''-'' \<notin> set (pad_int w i)"
  using pad_digits [of w "nat i"] digit_not_sign by (auto simp: pad_int_def list_all_iff)

lemma ymd_to_days_parts:
  assumes "0 \<le> y" "y < 2 ^ 63" "1 \<le> m" "m \<le> 12" "1 \<le> d" "d \<le> 31"
  shows "ymd_to_days (pad_int 4 y @ ''-'' @ pad_int 2 m @ ''-'' @ pad_int 2 d) =
     Some (civil_days y m d)"
proof -
  have "split_on CHR ''-'' (pad_int 4 y @ CHR ''-'' # pad_int 2 m @ CHR ''-'' # pad_int 2 d) =
     [pad_int 4 y, pad_int 2 m, pad_int 2 d]"
    using assms by (simp add: split_on_append split_on_no_sep pad_int_no_minus)
  moreover have "parse_i64 (pad_int 4 y) = Some y" "parse_i64 (pad_int 2 m) = Some m"
      "parse_i64 (pad_int 2 d) = Some d"
    using assms by (auto intro!: parse_i64_pad)
  ultimately have "ymd_to_days (pad_int 4 y @ CHR ''-'' # pad_int 2 m @ CHR ''-'' # pad_int 2 d) =
      (if \<not> (1 \<le> m \<and> m \<le> 12) \<or> \<not> (1 \<le> d \<and> d \<le> 31) then None else Some (civil_days y m d))"
    unfolding ymd_to_days_def by (simp only: list.case prod.case option.case)
  then show ?thesis using assms by simp
qed

text \<open>
  C39: a day survives being printed as \<open>YYYY-MM-DD\<close> and read back, for every day from
  the start of year 0 that a 64-bit clock can reach. The activity log is keyed by printed
  days and streaks are computed from the days read back, so this is what makes a streak a
  run of real days.
\<close>

theorem ymd_roundtrip:
  assumes "- 719468 \<le> days" "days < 2 ^ 55"
  shows "ymd_to_days (days_to_ymd days) = Some days"
proof -
  define z era doe yoe y doy mp d m year where
    "z = days + 719468" and "era = z div 146097" and "doe = z mod 146097"
    and "yoe = leapless doe div 365" and "y = yoe + era * 400" and "doy = doe - year_start yoe"
    and "mp = (5 * doy + 2) div 153" and "d = doy - (153 * mp + 2) div 5 + 1"
    and "m = (if mp < 10 then mp + 3 else mp - 9)" and "year = (if m \<le> 2 then y + 1 else y)"
  note defs = z_def era_def doe_def yoe_def y_def doy_def mp_def d_def m_def year_def
  have printed: "days_to_ymd days = pad_int 4 year @ ''-'' @ pad_int 2 m @ ''-'' @ pad_int 2 d"
    unfolding days_to_ymd_def Let_def defs leapless_def year_start_def by (rule refl)
  have z: "0 \<le> z" "z < 2 ^ 56" using assms by (auto simp: z_def)
  have era: "0 \<le> era" "era \<le> 2 ^ 40" using z by (auto simp: era_def)
  have yoe: "0 \<le> yoe" "yoe \<le> 399" "0 \<le> doy" "doy \<le> 365"
    using year_of_era [of doe] by (auto simp: yoe_def doy_def doe_def)
  have md: "0 \<le> mp" "mp \<le> 11" "1 \<le> d" "d \<le> 31"
    using month_day [OF yoe(3,4) mp_def] by (auto simp: d_def)
  have m: "1 \<le> m" "m \<le> 12" "(m \<le> 2) = (10 \<le> mp)" using md by (auto simp: m_def)
  have y: "0 \<le> y" "y \<le> 2 ^ 62" "y div 400 = era" "y mod 400 = yoe"
    using yoe era by (auto simp: y_def)
  have year: "0 \<le> year" "year < 2 ^ 63" using y by (auto simp: year_def)
  have adj: "(if m \<le> 2 then wrap64 (year - 1) else year) = y"
    using y by (auto simp: year_def wrap64_id)
  have madj: "(if m > 2 then m - 3 else m + 9) = mp" using md by (auto simp: m_def)
  have "civil_days year m d = wrap64 (era * 146097 + (year_start yoe + doy) - 719468)"
    unfolding civil_days_def Let_def adj madj y(3,4) by (simp add: d_def year_start_def algebra_simps)
  also have "era * 146097 + (year_start yoe + doy) - 719468 = days"
    by (simp add: doy_def) (simp add: era_def doe_def z_def)
  also have "wrap64 days = days" using assms by (intro wrap64_id) auto
  finally show ?thesis
    unfolding printed using ymd_to_days_parts [OF year m(1,2) md(3,4)] by simp
qed

theorem ymd_roundtrip_witness:
  "days_to_ymd 20301 = ''2025-08-01'' \<and> ymd_to_days ''2025-08-01'' = Some 20301"
proof -
  have printed: "days_to_ymd 20301 = ''2025-08-01''" by code_simp
  then show ?thesis using ymd_roundtrip [of 20301] by simp
qed

end
