(* ===== verification/ReadingLog.thy ===== *)
theory ReadingLog
  imports Table Works Calendar "HOL-Library.List_Lexorder" "HOL-Library.Char_ord"
begin

text \<open>
  The reading log, \<open>apps/server/src/reading_log.rs\<close> and \<open>apps/server/src/reading.rs\<close>:
  checkpoints are folded into open sittings, sittings are flushed on a backed-off
  debounce and when they close, and the stored history is compacted, paged and overlaid
  with the works index when it is read.
\<close>

section \<open>Data\<close>

definition SESSION_GAP_SECONDS :: u64 where "SESSION_GAP_SECONDS = 600"
definition SESSION_FLUSH_SECONDS :: u64 where "SESSION_FLUSH_SECONDS = 60"
definition SESSION_FLUSH_MAX_SECONDS :: u64 where "SESSION_FLUSH_MAX_SECONDS = 900"
definition MIN_SESSION_SECONDS :: f64 where "MIN_SESSION_SECONDS = Fin 5"

record reading_session =
  rs_id :: string
  rs_user_id :: string
  rs_book_id :: string
  rs_work_id :: "string option"
  rs_started_at_ms :: u64
  rs_ended_at_ms :: u64
  rs_listened_seconds :: f64
  rs_start_position_seconds :: f64
  rs_end_position_seconds :: f64
  rs_speed :: "f64 option"
  rs_client :: "string option"
  rs_tz_offset_minutes :: int
  rs_started_on :: string

definition idle_for_ms :: "reading_session \<Rightarrow> u64 \<Rightarrow> u64" where
  "idle_for_ms s at_ms = sat_sub at_ms (rs_ended_at_ms s)"

definition accepts :: "reading_session \<Rightarrow> u64 \<Rightarrow> bool" where
  "accepts s at_ms \<longleftrightarrow> idle_for_ms s at_ms \<le> sat_mul SESSION_GAP_SECONDS 1000"

definition is_substantive :: "reading_session \<Rightarrow> bool" where
  "is_substantive s \<longleftrightarrow> f64_ge (rs_listened_seconds s) MIN_SESSION_SECONDS"

record edition_snapshot =
  es_title :: ustr
  es_author :: "ustr option"
  es_narrator :: "ustr option"
  es_duration_seconds :: "f64 option"
  es_asin :: "string option"
  es_isbn :: "string option"
  es_publisher :: "ustr option"
  es_published_date :: "string option"
  es_series :: "ustr option"
  es_series_position :: "string option"
  es_genres :: "ustr list"
  es_track_count :: nat

datatype completion_source = Reached | Marked

record completion_event =
  ce_id :: string
  ce_user_id :: string
  ce_book_id :: string
  ce_work_id :: "string option"
  ce_finished_at_ms :: u64
  ce_source :: completion_source
  ce_tz_offset_minutes :: int
  ce_finished_on :: string
  ce_snapshot :: edition_snapshot

record reading_history =
  h_sessions :: "reading_session list"
  h_completions :: "completion_event list"
  h_finish_seen :: "(string, string) table"

record open_session =
  os_session :: reading_session
  os_flushed_at_ms :: u64
  os_flush_interval_ms :: u64
  os_dirty :: bool

type_synonym open_sessions = "(string, open_session) table"

datatype session_outcome = Buffered | Append "reading_session list"

record checkpoint =
  ck_user_id :: string
  ck_book_id :: string
  ck_work_id :: "string option"
  ck_at_ms :: u64
  ck_listened_seconds :: f64
  ck_position_seconds :: f64
  ck_speed :: "f64 option"
  ck_client :: "string option"
  ck_tz_offset_minutes :: int
  ck_today :: string

section \<open>Open sittings\<close>

definition session_key :: "string \<Rightarrow> string \<Rightarrow> string" where
  "session_key user_id book_id = user_id @ [CHR 0x1F] @ book_id"

definition backup_rows :: "open_sessions \<Rightarrow> reading_session list" where
  "backup_rows m = filter is_substantive (map (\<lambda>(k, o'). os_session o') m)"

text \<open>The first step of \<open>record\<close>: a sitting the checkpoint cannot extend is closed.\<close>

definition close_stale :: "string \<Rightarrow> u64 \<Rightarrow> open_sessions \<Rightarrow> open_sessions \<times> reading_session list" where
  "close_stale key at_ms m =
     (case tget m key of
        Some open' \<Rightarrow>
          if \<not> accepts (os_session open') at_ms
          then (tremove key m,
                if os_dirty open' \<and> is_substantive (os_session open') then [os_session open'] else [])
          else (m, [])
      | None \<Rightarrow> (m, []))"

definition extend_session :: "checkpoint \<Rightarrow> reading_session \<Rightarrow> reading_session" where
  "extend_session c s =
     s\<lparr>rs_ended_at_ms := ck_at_ms c,
       rs_listened_seconds := f64_add (rs_listened_seconds s) (ck_listened_seconds c),
       rs_end_position_seconds := ck_position_seconds c,
       rs_speed := (if ck_speed c \<noteq> None then ck_speed c else rs_speed s),
       rs_client := (if ck_client c \<noteq> None then ck_client c else rs_client s)\<rparr>"

definition flush_due :: "checkpoint \<Rightarrow> open_session \<Rightarrow> bool" where
  "flush_due c open' \<longleftrightarrow>
     os_flush_interval_ms open' \<le> sat_sub (ck_at_ms c) (os_flushed_at_ms open')"

definition flushed :: "checkpoint \<Rightarrow> open_session \<Rightarrow> open_session" where
  "flushed c open' =
     open'\<lparr>os_session := extend_session c (os_session open'), os_flushed_at_ms := ck_at_ms c,
       os_flush_interval_ms := min (sat_mul (os_flush_interval_ms open') 2)
                                   (sat_mul SESSION_FLUSH_MAX_SECONDS 1000),
       os_dirty := False\<rparr>"

definition extend_open :: "checkpoint \<Rightarrow> open_session \<Rightarrow> open_session \<times> reading_session list" where
  "extend_open c open' =
     (if flush_due c open' \<and> is_substantive (extend_session c (os_session open'))
      then (flushed c open', [os_session (flushed c open')])
      else (open'\<lparr>os_session := extend_session c (os_session open'), os_dirty := True\<rparr>, []))"

definition new_session :: "checkpoint \<Rightarrow> string \<Rightarrow> reading_session" where
  "new_session c new_id =
     \<lparr>rs_id = new_id, rs_user_id = ck_user_id c, rs_book_id = ck_book_id c,
      rs_work_id = ck_work_id c, rs_started_at_ms = ck_at_ms c, rs_ended_at_ms = ck_at_ms c,
      rs_listened_seconds = ck_listened_seconds c,
      rs_start_position_seconds =
        f64_max (f64_sub (ck_position_seconds c) (ck_listened_seconds c)) f64_zero,
      rs_end_position_seconds = ck_position_seconds c,
      rs_speed = ck_speed c, rs_client = ck_client c,
      rs_tz_offset_minutes = ck_tz_offset_minutes c, rs_started_on = ck_today c\<rparr>"

definition new_open :: "checkpoint \<Rightarrow> string \<Rightarrow> open_session" where
  "new_open c new_id =
     \<lparr>os_session = new_session c new_id, os_flushed_at_ms = ck_at_ms c,
      os_flush_interval_ms = sat_mul SESSION_FLUSH_SECONDS 1000, os_dirty = True\<rparr>"

text \<open>The second step: the remaining sitting is extended, or a new one begins.\<close>

fun fold_checkpoint ::
  "checkpoint \<Rightarrow> string \<Rightarrow> string \<Rightarrow> open_sessions \<times> reading_session list
   \<Rightarrow> open_sessions \<times> reading_session list" where
  "fold_checkpoint c new_id key (m, rows) =
     (case tget m key of
        Some open' \<Rightarrow>
          (tinsert key (fst (extend_open c open')) m, rows @ snd (extend_open c open'))
      | None \<Rightarrow> (tinsert key (new_open c new_id) m, rows))"

definition record_rows :: "open_sessions \<Rightarrow> checkpoint \<Rightarrow> string \<Rightarrow> open_sessions \<times> reading_session list" where
  "record_rows m c new_id =
     fold_checkpoint c new_id (session_key (ck_user_id c) (ck_book_id c))
       (close_stale (session_key (ck_user_id c) (ck_book_id c)) (ck_at_ms c) m)"

fun session_outcome_of :: "open_sessions \<times> reading_session list \<Rightarrow> open_sessions \<times> session_outcome" where
  "session_outcome_of (m, rows) = (m, if rows = [] then Buffered else Append rows)"

definition record_checkpoint ::
  "open_sessions \<Rightarrow> checkpoint \<Rightarrow> string \<Rightarrow> open_sessions \<times> session_outcome" where
  "record_checkpoint m c new_id = session_outcome_of (record_rows m c new_id)"

definition written :: "open_session \<Rightarrow> bool" where
  "written open' \<longleftrightarrow> os_dirty open' \<and> is_substantive (os_session open')"

definition stale_keys :: "open_sessions \<Rightarrow> u64 \<Rightarrow> string list" where
  "stale_keys m now_ms = map fst (filter (\<lambda>(k, open'). \<not> accepts (os_session open') now_ms) m)"

definition close_idle :: "open_sessions \<Rightarrow> u64 \<Rightarrow> open_sessions \<times> reading_session list" where
  "close_idle m now_ms =
     (fold tremove (stale_keys m now_ms) m,
      map os_session (filter written (List.map_filter (tget m) (stale_keys m now_ms))))"

definition drain :: "open_sessions \<Rightarrow> open_sessions \<times> reading_session list" where
  "drain m = ([], map os_session (filter written (map snd m)))"

definition forget_user :: "open_sessions \<Rightarrow> string \<Rightarrow> open_sessions" where
  "forget_user m user_id = tretain (\<lambda>k open'. rs_user_id (os_session open') \<noteq> user_id) m"

section \<open>The stored history\<close>

text \<open>\<open>persist_sessions\<close>, inside the transaction.\<close>

definition persist_rows :: "reading_session list \<Rightarrow> reading_session list \<Rightarrow> reading_session list" where
  "persist_rows rows stored =
     (if rows = [] then stored
      else filter (\<lambda>s. rs_id s \<notin> rs_id ` set rows) stored @ rows)"

fun compact_loop ::
  "reading_session list \<Rightarrow> string list \<Rightarrow> (string, reading_session) table
   \<Rightarrow> string list \<times> (string, reading_session) table" where
  "compact_loop [] order latest = (order, latest)"
| "compact_loop (row # rows) order latest =
     (case tget latest (rs_id row) of
        Some existing \<Rightarrow>
          if rs_ended_at_ms row \<le> rs_ended_at_ms existing then compact_loop rows order latest
          else compact_loop rows order (tinsert (rs_id row) row latest)
      | None \<Rightarrow> compact_loop rows (order @ [rs_id row]) (tinsert (rs_id row) row latest))"

fun take_rows :: "string list \<Rightarrow> (string, reading_session) table \<Rightarrow> reading_session list" where
  "take_rows [] latest = []"
| "take_rows (k # ks) latest =
     (case tget latest k of
        Some row \<Rightarrow> row # take_rows ks (tremove k latest)
      | None \<Rightarrow> take_rows ks latest)"

definition compact_sessions :: "reading_session list \<Rightarrow> reading_session list" where
  "compact_sessions rows = (let (order, latest) = compact_loop rows [] [] in take_rows order latest)"

record reading_log_query =
  q_limit :: "nat option"
  q_since :: "string option"

definition DEFAULT_READING_LOG_PAGE :: nat where "DEFAULT_READING_LOG_PAGE = 200"
definition MAX_READING_LOG_PAGE :: nat where "MAX_READING_LOG_PAGE = 1000"

text \<open>A stable sort by decreasing time, then the page.\<close>

definition newest_first :: "('a \<Rightarrow> u64) \<Rightarrow> 'a list \<Rightarrow> 'a list" where
  "newest_first time rows = sort_key (\<lambda>r. - uint (time r)) rows"

definition history_rows ::
  "'a list \<Rightarrow> string \<Rightarrow> reading_log_query \<Rightarrow> ('a \<Rightarrow> string) \<Rightarrow> ('a \<Rightarrow> string) \<Rightarrow> ('a \<Rightarrow> u64) \<Rightarrow> 'a list" where
  "history_rows rows user_id query user day time =
     take (min (case q_limit query of Some l \<Rightarrow> l | None \<Rightarrow> DEFAULT_READING_LOG_PAGE) MAX_READING_LOG_PAGE)
       (newest_first time
         (filter (\<lambda>row. user row = user_id
             \<and> (case q_since query of None \<Rightarrow> True | Some date \<Rightarrow> date \<le> day row)) rows))"

definition overlay_work_id :: "(string \<Rightarrow> string option) \<Rightarrow> string \<Rightarrow> string option \<Rightarrow> string option" where
  "overlay_work_id work_ids book_id work_id =
     (case work_ids book_id of Some current \<Rightarrow> Some current | None \<Rightarrow> work_id)"

definition reading_log_sessions ::
  "work_store \<Rightarrow> reading_history \<Rightarrow> string \<Rightarrow> reading_log_query \<Rightarrow> reading_session list" where
  "reading_log_sessions ws history user_id query =
     map (\<lambda>s. s\<lparr>rs_work_id := overlay_work_id (book_to_work ws) (rs_book_id s) (rs_work_id s)\<rparr>)
       (history_rows
          (compact_sessions (filter (\<lambda>s. rs_user_id s = user_id) (h_sessions history)))
          user_id query rs_user_id rs_started_on rs_ended_at_ms)"

definition reading_log_completions ::
  "work_store \<Rightarrow> reading_history \<Rightarrow> string \<Rightarrow> reading_log_query \<Rightarrow> completion_event list" where
  "reading_log_completions ws history user_id query =
     map (\<lambda>e. e\<lparr>ce_work_id := overlay_work_id (book_to_work ws) (ce_book_id e) (ce_work_id e)\<rparr>)
       (history_rows (h_completions history) user_id query ce_user_id ce_finished_on
          ce_finished_at_ms)"

text \<open>\<open>record_listening\<close> and the two writers of closed sittings, on the pair of the
  stored rows and the open sittings.\<close>

type_synonym log_state = "reading_session list \<times> open_sessions"

fun persist_outcome :: "reading_session list \<Rightarrow> open_sessions \<times> session_outcome \<Rightarrow> log_state" where
  "persist_outcome h (m, Append rows) = (persist_rows rows h, m)"
| "persist_outcome h (m, Buffered) = (h, m)"

definition record_listening :: "checkpoint \<Rightarrow> string \<Rightarrow> log_state \<Rightarrow> log_state" where
  "record_listening c new_id st =
     (if f64_le (ck_listened_seconds c) f64_zero then st
      else persist_outcome (fst st) (record_checkpoint (snd st) c new_id))"

fun persist_closed :: "reading_session list \<Rightarrow> open_sessions \<times> reading_session list \<Rightarrow> log_state" where
  "persist_closed h (m, rows) = (persist_rows rows h, m)"

definition sweep_idle :: "u64 \<Rightarrow> log_state \<Rightarrow> log_state" where
  "sweep_idle now_ms st = persist_closed (fst st) (close_idle (snd st) now_ms)"

definition drain_reading_sessions :: "log_state \<Rightarrow> log_state" where
  "drain_reading_sessions st = persist_closed (fst st) (drain (snd st))"

section \<open>What is recorded\<close>

text \<open>What a backup taken at this moment would hold: the stored rows, with each open
  sitting worth keeping in place of its earlier revision.\<close>

definition recorded :: "log_state \<Rightarrow> reading_session set" where
  "recorded st = set (persist_rows (backup_rows (snd st)) (fst st))"

definition log_inv :: "log_state \<Rightarrow> bool" where
  "log_inv st \<longleftrightarrow>
     tvalid (snd st)
     \<and> (\<forall>k o1. tget (snd st) k = Some o1 \<longrightarrow>
          k = session_key (rs_user_id (os_session o1)) (rs_book_id (os_session o1)))
     \<and> (\<forall>k l o1 o2. tget (snd st) k = Some o1 \<longrightarrow> tget (snd st) l = Some o2 \<longrightarrow>
          rs_id (os_session o1) = rs_id (os_session o2) \<longrightarrow> k = l)
     \<and> (\<forall>k o1. tget (snd st) k = Some o1 \<longrightarrow> \<not> os_dirty o1 \<longrightarrow>
          is_substantive (os_session o1) \<and> os_session o1 \<in> set (fst st)
          \<and> (\<forall>r \<in> set (fst st). rs_id r = rs_id (os_session o1) \<longrightarrow> r = os_session o1))
     \<and> (\<forall>k o1 r. tget (snd st) k = Some o1 \<longrightarrow> r \<in> set (fst st) \<longrightarrow>
          rs_id r = rs_id (os_session o1) \<longrightarrow> is_substantive (os_session o1))"

lemma log_invD:
  assumes "log_inv (h, m)"
  shows "tvalid m"
    and "tget m k = Some o1 \<Longrightarrow> k = session_key (rs_user_id (os_session o1)) (rs_book_id (os_session o1))"
    and "tget m k = Some o1 \<Longrightarrow> tget m l = Some o2 \<Longrightarrow>
      rs_id (os_session o1) = rs_id (os_session o2) \<Longrightarrow> k = l"
    and "tget m k = Some o1 \<Longrightarrow> \<not> os_dirty o1 \<Longrightarrow> is_substantive (os_session o1)"
    and "tget m k = Some o1 \<Longrightarrow> \<not> os_dirty o1 \<Longrightarrow> os_session o1 \<in> set h"
    and "tget m k = Some o1 \<Longrightarrow> \<not> os_dirty o1 \<Longrightarrow> r \<in> set h \<Longrightarrow> rs_id r = rs_id (os_session o1) \<Longrightarrow>
      r = os_session o1"
    and "tget m k = Some o1 \<Longrightarrow> r \<in> set h \<Longrightarrow> rs_id r = rs_id (os_session o1) \<Longrightarrow>
      is_substantive (os_session o1)"
  using assms unfolding log_inv_def by auto

lemma set_persist_rows:
  "set (persist_rows rows stored) = {s \<in> set stored. rs_id s \<notin> rs_id ` set rows} \<union> set rows"
  by (auto simp: persist_rows_def)

lemma set_backup_rows:
  assumes "tvalid m"
  shows "r \<in> set (backup_rows m) \<longleftrightarrow> (\<exists>k o1. tget m k = Some o1 \<and> r = os_session o1 \<and> is_substantive r)"
proof -
  have mem: "(k, o1) \<in> set m \<longleftrightarrow> tget m k = Some o1" for k o1
    using in_tget [OF assms] tget_in by metis
  then have "r \<in> set (backup_rows m) \<longleftrightarrow> (\<exists>e \<in> set m. r = os_session (snd e) \<and> is_substantive r)"
    by (auto simp: backup_rows_def case_prod_beta)
  also have "\<dots> \<longleftrightarrow> (\<exists>k o1. (k, o1) \<in> set m \<and> r = os_session o1 \<and> is_substantive r)"
    by (metis prod.collapse snd_conv)
  finally show ?thesis by (simp only: mem)
qed

lemma recorded_iff:
  assumes "tvalid m"
  shows "r \<in> recorded (h, m) \<longleftrightarrow>
    (\<exists>k o1. tget m k = Some o1 \<and> r = os_session o1 \<and> is_substantive r)
    \<or> (r \<in> set h \<and> (\<forall>k o1. tget m k = Some o1 \<longrightarrow> is_substantive (os_session o1) \<longrightarrow>
        rs_id (os_session o1) \<noteq> rs_id r))"
proof -
  have "rs_id r \<notin> rs_id ` set (backup_rows m) \<longleftrightarrow>
      (\<forall>k o1. tget m k = Some o1 \<longrightarrow> is_substantive (os_session o1) \<longrightarrow> rs_id (os_session o1) \<noteq> rs_id r)"
    unfolding image_iff bex_simps Bex_def set_backup_rows [OF assms] by metis
  then show ?thesis
    by (auto simp: recorded_def set_persist_rows set_backup_rows [OF assms])
qed

text \<open>Closing a set of sittings: the rows written are those of the closed sittings that
  changed since their last write.\<close>

lemma closing_inv:
  assumes inv: "log_inv (h, m)" and valid: "tvalid m'"
    and rest: "\<And>k. tget m' k = (if k \<in> K then None else tget m k)"
    and rows: "\<And>r. r \<in> set rows \<longleftrightarrow> (\<exists>k \<in> K. \<exists>o1. tget m k = Some o1 \<and> written o1 \<and> r = os_session o1)"
  shows "log_inv (persist_rows rows h, m')"
proof -
  have old: "r \<in> set h" if "r \<in> set (persist_rows rows h)" "tget m' k = Some o1"
      "rs_id r = rs_id (os_session o1)" for r k o1
    using that log_invD(3) [OF inv] by (auto simp: set_persist_rows rest rows split: if_splits)
  have kept: "r \<in> set (persist_rows rows h)" if "r \<in> set h" "tget m' k = Some o1"
      "rs_id r = rs_id (os_session o1)" for r k o1
  proof -
    have k: "k \<notin> K" "tget m k = Some o1" using that(2) by (auto simp: rest split: if_splits)
    have "rs_id r \<noteq> rs_id s" if s: "s \<in> set rows" for s
    proof -
      obtain l o2 where "l \<in> K" "tget m l = Some o2" "s = os_session o2" using s rows by blast
      with k log_invD(3) [OF inv k(2), of l o2] \<open>rs_id r = _\<close> show ?thesis by auto
    qed
    then show ?thesis using that(1) by (auto simp: set_persist_rows)
  qed
  show "log_inv (persist_rows rows h, m')"
    unfolding log_inv_def fst_conv snd_conv
  proof (intro conjI allI impI ballI)
    show "tvalid m'" by (rule valid)
  next
    fix k o1 assume "tget m' k = Some o1"
    then show "k = session_key (rs_user_id (os_session o1)) (rs_book_id (os_session o1))"
      using log_invD(2) [OF inv] by (simp add: rest split: if_splits)
  next
    fix k l o1 o2 assume "tget m' k = Some o1" "tget m' l = Some o2"
      "rs_id (os_session o1) = rs_id (os_session o2)"
    then show "k = l" using log_invD(3) [OF inv] by (simp add: rest split: if_splits)
  next
    fix k o1 assume o1: "tget m' k = Some o1" "\<not> os_dirty o1"
    then have m: "tget m k = Some o1" by (simp add: rest split: if_splits)
    show "is_substantive (os_session o1)" by (rule log_invD(4) [OF inv m o1(2)])
    show "os_session o1 \<in> set (persist_rows rows h)"
      by (rule kept [OF log_invD(5) [OF inv m o1(2)] o1(1) refl])
    fix r assume "r \<in> set (persist_rows rows h)" "rs_id r = rs_id (os_session o1)"
    then show "r = os_session o1" using log_invD(6) [OF inv m o1(2)] old [OF _ o1(1)] by blast
  next
    fix k o1 r assume o1: "tget m' k = Some o1" "r \<in> set (persist_rows rows h)"
      "rs_id r = rs_id (os_session o1)"
    then have m: "tget m k = Some o1" by (simp add: rest split: if_splits)
    show "is_substantive (os_session o1)"
      by (rule log_invD(7) [OF inv m old [OF o1(2,1,3)] o1(3)])
  qed
qed

lemma closing_recorded:
  assumes inv: "log_inv (h, m)" and valid: "tvalid m'"
    and rest: "\<And>k. tget m' k = (if k \<in> K then None else tget m k)"
    and rows: "\<And>r. r \<in> set rows \<longleftrightarrow> (\<exists>k \<in> K. \<exists>o1. tget m k = Some o1 \<and> written o1 \<and> r = os_session o1)"
  shows "recorded (persist_rows rows h, m') = recorded (h, m)"
proof -
  show "recorded (persist_rows rows h, m') = recorded (h, m)"
  proof (rule set_eqI)
    fix r
    have valid_m: "tvalid m" by (rule log_invD(1) [OF inv])
    show "r \<in> recorded (persist_rows rows h, m') \<longleftrightarrow> r \<in> recorded (h, m)"
    proof
      assume "r \<in> recorded (persist_rows rows h, m')"
      then consider (live) k o1 where "tget m' k = Some o1" "r = os_session o1" "is_substantive r"
        | (closed) k o1 where "k \<in> K" "tget m k = Some o1" "written o1" "r = os_session o1"
        | (stored) "r \<in> set h" "rs_id r \<notin> rs_id ` set rows"
            "\<forall>k o1. tget m' k = Some o1 \<longrightarrow> is_substantive (os_session o1) \<longrightarrow> rs_id (os_session o1) \<noteq> rs_id r"
        unfolding recorded_iff [OF valid] set_persist_rows using rows by blast
      then show "r \<in> recorded (h, m)"
      proof cases
        case live
        then show ?thesis unfolding recorded_iff [OF valid_m] by (auto simp: rest split: if_splits)
      next
        case closed
        then show ?thesis unfolding recorded_iff [OF valid_m] by (auto simp: written_def)
      next
        case stored
        show ?thesis
        proof (cases "\<exists>k o1. tget m k = Some o1 \<and> is_substantive (os_session o1) \<and> rs_id (os_session o1) = rs_id r")
          case True
          then obtain k o1 where o1: "tget m k = Some o1" "is_substantive (os_session o1)"
            "rs_id (os_session o1) = rs_id r" by blast
          then have "k \<in> K" using stored(3) by (metis rest)
          have "\<not> os_dirty o1"
          proof
            assume "os_dirty o1"
            then have "os_session o1 \<in> set rows"
              unfolding rows using \<open>k \<in> K\<close> o1(1,2) written_def by blast
            then show False using stored(2) o1(3) by (metis image_eqI)
          qed
          then have "r = os_session o1" using log_invD(6) [OF inv o1(1)] stored(1) o1(3) by simp
          with o1 show ?thesis unfolding recorded_iff [OF valid_m] by blast
        qed (use stored(1) in \<open>unfold recorded_iff [OF valid_m], blast\<close>)
      qed
    next
      assume "r \<in> recorded (h, m)"
      then consider (live) k o1 where "tget m k = Some o1" "r = os_session o1" "is_substantive r"
        | (stored) "r \<in> set h"
            "\<forall>k o1. tget m k = Some o1 \<longrightarrow> is_substantive (os_session o1) \<longrightarrow> rs_id (os_session o1) \<noteq> rs_id r"
        unfolding recorded_iff [OF valid_m] by blast
      then show "r \<in> recorded (persist_rows rows h, m')"
      proof cases
        case live
        show ?thesis
        proof (cases "k \<in> K")
          case False
          with live show ?thesis unfolding recorded_iff [OF valid] by (auto simp: rest)
        next
          case True
          have "r \<in> set (persist_rows rows h)"
          proof (cases "os_dirty o1")
            case True
            then have "r \<in> set rows" using live \<open>k \<in> K\<close> rows by (auto simp: written_def)
            then show ?thesis by (simp add: set_persist_rows)
          next
            case False
            have "rs_id r \<noteq> rs_id s" if s: "s \<in> set rows" for s
            proof -
              obtain l o2 where o2: "tget m l = Some o2" "written o2" "s = os_session o2"
                using s rows by blast
              show ?thesis
              proof
                assume "rs_id r = rs_id s"
                then have "k = l" using log_invD(3) [OF inv live(1) o2(1)] live(2) o2(3) by simp
                then have "o1 = o2" using live(1) o2(1) by simp
                then show False using False o2(2) by (simp add: written_def)
              qed
            qed
            then show ?thesis
              using log_invD(5) [OF inv live(1) False] live(2) by (auto simp: set_persist_rows)
          qed
          moreover have "rs_id (os_session o2) \<noteq> rs_id r" if "tget m' l = Some o2" for l o2
          proof
            assume "rs_id (os_session o2) = rs_id r"
            moreover have l: "l \<notin> K" "tget m l = Some o2" using that by (simp_all add: rest split: if_splits)
            ultimately have "k = l" using log_invD(3) [OF inv live(1) l(2)] live(2) by simp
            then show False using l(1) True by simp
          qed
          ultimately show ?thesis unfolding recorded_iff [OF valid] by blast
        qed
      next
        case stored
        have "rs_id s \<noteq> rs_id r" if s: "s \<in> set rows" for s
        proof -
          obtain l o2 where "tget m l = Some o2" "written o2" "s = os_session o2" using s rows by blast
          then show ?thesis using stored(2) by (simp add: written_def)
        qed
        then have "r \<in> set (persist_rows rows h)" using stored(1) by (force simp: set_persist_rows)
        moreover have "rs_id (os_session o2) \<noteq> rs_id r"
          if "tget m' l = Some o2" "is_substantive (os_session o2)" for l o2
          using that stored(2) by (simp add: rest split: if_splits)
        ultimately show ?thesis unfolding recorded_iff [OF valid] by blast
      qed
    qed
  qed
qed

text \<open>Putting a sitting in place of its earlier state, or a new one beside the others.\<close>

definition places :: "log_state \<Rightarrow> string \<Rightarrow> open_session \<Rightarrow> reading_session list \<Rightarrow> bool" where
  "places st key o' rows \<longleftrightarrow>
     key = session_key (rs_user_id (os_session o')) (rs_book_id (os_session o'))
     \<and> (\<forall>k o1. tget (snd st) k = Some o1 \<longrightarrow>
          (k = key \<longleftrightarrow> rs_id (os_session o1) = rs_id (os_session o')))
     \<and> ((rows = [] \<and> os_dirty o') \<or> (rows = [os_session o'] \<and> is_substantive (os_session o')))
     \<and> ((\<exists>r \<in> set (fst st). rs_id r = rs_id (os_session o')) \<longrightarrow> is_substantive (os_session o'))"

lemma placesD:
  assumes "places (h, m) key o' rows"
  shows "key = session_key (rs_user_id (os_session o')) (rs_book_id (os_session o'))"
    and "tget m k = Some o1 \<Longrightarrow> k = key \<longleftrightarrow> rs_id (os_session o1) = rs_id (os_session o')"
    and "(rows = [] \<and> os_dirty o') \<or> (rows = [os_session o'] \<and> is_substantive (os_session o'))"
    and "r \<in> set h \<Longrightarrow> rs_id r = rs_id (os_session o') \<Longrightarrow> is_substantive (os_session o')"
  using assms by (auto simp: places_def)

lemma places_stored:
  assumes "places (h, m) key o' rows"
  shows "rs_id r \<noteq> rs_id (os_session o') \<Longrightarrow> r \<in> set (persist_rows rows h) \<longleftrightarrow> r \<in> set h"
    and "r \<in> set (persist_rows rows h) \<Longrightarrow> rs_id r = rs_id (os_session o') \<Longrightarrow> is_substantive (os_session o')"
    and "rows \<noteq> [] \<Longrightarrow> r \<in> set (persist_rows rows h) \<Longrightarrow> rs_id r = rs_id (os_session o') \<Longrightarrow> r = os_session o'"
    and "rows \<noteq> [] \<Longrightarrow> os_session o' \<in> set (persist_rows rows h)"
  using placesD(3,4) [OF assms] by (auto simp: set_persist_rows)

lemma placing_inv:
  assumes inv: "log_inv (h, m)" and p: "places (h, m) key o' rows"
  shows "log_inv (persist_rows rows h, tinsert key o' m)"
  unfolding log_inv_def fst_conv snd_conv tbl.lookup_insert
proof (intro conjI allI impI ballI)
  show "tvalid (tinsert key o' m)" by (rule tbl.valid_insert [OF log_invD(1) [OF inv]])
next
  fix k o1 assume "(if k = key then Some o' else tget m k) = Some o1"
  then show "k = session_key (rs_user_id (os_session o1)) (rs_book_id (os_session o1))"
    using placesD(1) [OF p] log_invD(2) [OF inv] by (auto split: if_splits)
next
  fix k l o1 o2
  assume "(if k = key then Some o' else tget m k) = Some o1" "(if l = key then Some o' else tget m l) = Some o2"
    "rs_id (os_session o1) = rs_id (os_session o2)"
  then show "k = l"
    using placesD(2) [OF p, of k o1] placesD(2) [OF p, of l o2] log_invD(3) [OF inv, of k o1 l o2]
    by (simp split: if_splits)
next
  fix k o1 assume o1: "(if k = key then Some o' else tget m k) = Some o1" "\<not> os_dirty o1"
  show "is_substantive (os_session o1)"
    using o1 placesD(3) [OF p] log_invD(4) [OF inv, of k o1] by (auto split: if_splits)
  show "os_session o1 \<in> set (persist_rows rows h)"
  proof (cases "k = key")
    case True
    then show ?thesis using o1 placesD(3) [OF p] places_stored(4) [OF p] by auto
  next
    case False
    then have m: "tget m k = Some o1" using o1 by simp
    show ?thesis
      using log_invD(5) [OF inv m o1(2)] placesD(2) [OF p m] False places_stored(1) [OF p] by simp
  qed
  fix r assume r: "r \<in> set (persist_rows rows h)" "rs_id r = rs_id (os_session o1)"
  show "r = os_session o1"
  proof (cases "k = key")
    case True
    then show ?thesis using o1 r placesD(3) [OF p] places_stored(3) [OF p] by auto
  next
    case False
    then have m: "tget m k = Some o1" using o1 by simp
    show ?thesis
      using log_invD(6) [OF inv m o1(2)] r placesD(2) [OF p m] False places_stored(1) [OF p, of r] by simp
  qed
next
  fix k o1 r assume o1: "(if k = key then Some o' else tget m k) = Some o1"
    and r: "r \<in> set (persist_rows rows h)" "rs_id r = rs_id (os_session o1)"
  show "is_substantive (os_session o1)"
  proof (cases "k = key")
    case True
    then show ?thesis using o1 r places_stored(2) [OF p] by simp
  next
    case False
    then have m: "tget m k = Some o1" using o1 by simp
    show ?thesis
      using log_invD(7) [OF inv m] r placesD(2) [OF p m] False places_stored(1) [OF p, of r] by simp
  qed
qed

lemma ex_updated:
  "(\<exists>k v. (if k = key then Some x else m k) = Some v \<and> P v) \<longleftrightarrow>
     P x \<or> (\<exists>k v. k \<noteq> key \<and> m k = Some v \<and> P v)"
  by (metis option.inject)

lemma all_updated:
  "(\<forall>k v. (if k = key then Some x else m k) = Some v \<longrightarrow> P v) \<longleftrightarrow>
     P x \<and> (\<forall>k v. k \<noteq> key \<longrightarrow> m k = Some v \<longrightarrow> P v)"
  by (metis option.inject)

lemma placing_recorded:
  assumes inv: "log_inv (h, m)" and p: "places (h, m) key o' rows"
  shows "recorded (persist_rows rows h, tinsert key o' m) =
    {r \<in> recorded (h, m). rs_id r \<noteq> rs_id (os_session o')}
    \<union> (if is_substantive (os_session o') then {os_session o'} else {})"
proof (rule set_eqI)
  fix r
  let ?s = "os_session o'"
  let ?other = "\<exists>k o1. k \<noteq> key \<and> tget m k = Some o1 \<and> r = os_session o1 \<and> is_substantive r"
  let ?stored = "r \<in> set h \<and> rs_id r \<noteq> rs_id ?s \<and> (\<forall>k o1. k \<noteq> key \<longrightarrow> tget m k = Some o1 \<longrightarrow>
      is_substantive (os_session o1) \<longrightarrow> rs_id (os_session o1) \<noteq> rs_id r)"
  have valid: "tvalid m" by (rule log_invD(1) [OF inv])
  have same: "r = ?s \<and> is_substantive r \<longleftrightarrow> r = ?s \<and> is_substantive ?s" by auto
  have shuffle: "((R \<or> E) \<or> (S \<and> B \<and> A)) = (E \<or> R \<or> (S \<and> A \<and> B))" for R E S A B by blast
  note ex_new = ex_updated [where P = "\<lambda>o1. r = os_session o1 \<and> is_substantive r" and m = "tget m"
    and key = key and x = o']
  note all_new = all_updated [where P = "\<lambda>o1. is_substantive (os_session o1) \<longrightarrow> rs_id (os_session o1) \<noteq> rs_id r"
    and m = "tget m" and key = key and x = o']
  have "r \<in> recorded (persist_rows rows h, tinsert key o' m) \<longleftrightarrow>
      ?other \<or> (r = ?s \<and> is_substantive ?s) \<or> (r \<in> set (persist_rows rows h)
        \<and> (\<forall>k o1. k \<noteq> key \<longrightarrow> tget m k = Some o1 \<longrightarrow> is_substantive (os_session o1) \<longrightarrow>
             rs_id (os_session o1) \<noteq> rs_id r) \<and> (is_substantive ?s \<longrightarrow> rs_id ?s \<noteq> rs_id r))"
    unfolding recorded_iff [OF tbl.valid_insert [OF valid]] tbl.lookup_insert ex_new all_new same
    by (rule shuffle)
  also have "\<dots> \<longleftrightarrow> ?other \<or> (r = ?s \<and> is_substantive ?s) \<or> ?stored"
  proof (cases "rs_id r = rs_id ?s")
    case True
    then show ?thesis using places_stored(2) [OF p, of r] by (simp only: True not_True_eq_False) blast
  next
    case False
    then show ?thesis using places_stored(1) [OF p, of r] by (simp only: False not_sym) simp
  qed
  also have "?other \<longleftrightarrow> (\<exists>k o1. tget m k = Some o1 \<and> r = os_session o1 \<and> is_substantive r)
      \<and> rs_id r \<noteq> rs_id ?s"
    using placesD(2) [OF p] by blast
  also have "?stored \<longleftrightarrow> (r \<in> set h \<and> (\<forall>k o1. tget m k = Some o1 \<longrightarrow> is_substantive (os_session o1) \<longrightarrow>
      rs_id (os_session o1) \<noteq> rs_id r)) \<and> rs_id r \<noteq> rs_id ?s"
    using placesD(2) [OF p] by metis
  finally show "r \<in> recorded (persist_rows rows h, tinsert key o' m) \<longleftrightarrow>
      r \<in> {r \<in> recorded (h, m). rs_id r \<noteq> rs_id ?s} \<union> (if is_substantive ?s then {?s} else {})"
    unfolding recorded_iff [OF valid] by auto
qed

lemma persist_rows_Nil [simp]: "persist_rows [] h = h"
  by (simp add: persist_rows_def)

lemma close_stale_keeps:
  assumes inv: "log_inv (h, m)" and cs: "close_stale key at_ms m = (m1, rows)"
  shows "log_inv (persist_rows rows h, m1) \<and> recorded (persist_rows rows h, m1) = recorded (h, m)"
proof (cases "\<exists>o1. tget m key = Some o1 \<and> \<not> accepts (os_session o1) at_ms")
  case False
  then have "m1 = m" "rows = []" using cs by (auto simp: close_stale_def split: option.splits if_splits)
  with inv show ?thesis by simp
next
  case True
  then obtain o1 where o1: "tget m key = Some o1" "\<not> accepts (os_session o1) at_ms" by blast
  have valid: "tvalid m" by (rule log_invD(1) [OF inv])
  have m1: "m1 = tremove key m" and rows: "rows = (if written o1 then [os_session o1] else [])"
    using cs o1 by (simp_all add: close_stale_def written_def)
  have rest: "tget m1 k = (if k \<in> {key} then None else tget m k)" for k
    by (simp add: m1 tbl.lookup_remove [OF valid])
  have "r \<in> set rows \<longleftrightarrow> (\<exists>k \<in> {key}. \<exists>o1. tget m k = Some o1 \<and> written o1 \<and> r = os_session o1)" for r
    using o1 by (auto simp: rows)
  with closing_inv [OF inv _ rest] closing_recorded [OF inv _ rest] tbl.valid_remove [OF valid] m1
  show ?thesis by simp
qed

definition session_fresh :: "string \<Rightarrow> log_state \<Rightarrow> bool" where
  "session_fresh new_id st \<longleftrightarrow> new_id \<notin> rs_id ` set (fst st)
     \<and> (\<forall>e \<in> set (snd st). rs_id (os_session (snd e)) \<noteq> new_id)"

text \<open>The sitting a checkpoint continues, and the sitting it leaves open.\<close>

definition continued :: "log_state \<Rightarrow> checkpoint \<Rightarrow> reading_session option" where
  "continued st c =
     (case tget (snd st) (session_key (ck_user_id c) (ck_book_id c)) of
        Some o1 \<Rightarrow> if accepts (os_session o1) (ck_at_ms c) then Some (os_session o1) else None
      | None \<Rightarrow> None)"

definition sitting :: "log_state \<Rightarrow> checkpoint \<Rightarrow> string \<Rightarrow> reading_session" where
  "sitting st c new_id =
     (case continued st c of Some s \<Rightarrow> extend_session c s | None \<Rightarrow> new_session c new_id)"

lemma record_listening_rows:
  assumes "f64_gt (ck_listened_seconds c) f64_zero"
  shows "record_listening c new_id (h, m) =
    (case record_rows m c new_id of (m', rows) \<Rightarrow> (persist_rows rows h, m'))"
proof -
  have "\<not> f64_le (ck_listened_seconds c) f64_zero"
    using assms f64_lt_asym by (auto simp: f64_le_def f64_eq_def)
  then show ?thesis
    by (cases "record_rows m c new_id") (simp add: record_listening_def record_checkpoint_def persist_rows_def)
qed

lemma extend_session_fields [simp]:
  "rs_id (extend_session c s) = rs_id s" "rs_user_id (extend_session c s) = rs_user_id s"
  "rs_book_id (extend_session c s) = rs_book_id s"
  by (simp_all add: extend_session_def)

lemma new_session_fields [simp]:
  "rs_id (new_session c k) = k" "rs_user_id (new_session c k) = ck_user_id c"
  "rs_book_id (new_session c k) = ck_book_id c"
  by (simp_all add: new_session_def)

lemma extend_substantive:
  assumes "is_substantive s" "f64_gt (ck_listened_seconds c) f64_zero"
  shows "is_substantive (extend_session c s)"
  using f64_add_ge_int [of 5 "rs_listened_seconds s" "ck_listened_seconds c"] assms
    f64_lt_imp_le [OF assms(2)]
  by (simp add: is_substantive_def MIN_SESSION_SECONDS_def extend_session_def)

lemma extend_open_places:
  assumes inv: "log_inv (h, m)" and o1: "tget m key = Some o1"
    and ext: "extend_open c o1 = (o2, rows)" and pos: "f64_gt (ck_listened_seconds c) f64_zero"
  shows "places (h, m) key o2 rows \<and> os_session o2 = extend_session c (os_session o1)"
proof -
  have s: "os_session o2 = extend_session c (os_session o1)"
    and rows: "(rows = [] \<and> os_dirty o2) \<or> (rows = [os_session o2] \<and> is_substantive (os_session o2))"
    using ext by (auto simp: extend_open_def flushed_def split: if_splits)
  have ids: "k = key \<longleftrightarrow> rs_id (os_session o3) = rs_id (os_session o2)" if "tget m k = Some o3" for k o3
  proof
    assume "k = key"
    then show "rs_id (os_session o3) = rs_id (os_session o2)" using that o1 s by simp
  next
    assume "rs_id (os_session o3) = rs_id (os_session o2)"
    then show "k = key" using log_invD(3) [OF inv that o1] s by simp
  qed
  have sub: "is_substantive (os_session o2)" if "r \<in> set h" "rs_id r = rs_id (os_session o2)" for r
    using log_invD(7) [OF inv o1 that(1)] that(2) extend_substantive [OF _ pos] by (simp add: s)
  have key: "key = session_key (rs_user_id (os_session o2)) (rs_book_id (os_session o2))"
    using log_invD(2) [OF inv o1] by (simp add: s)
  show ?thesis unfolding places_def fst_conv snd_conv using s rows ids sub key by blast
qed

lemma new_open_places:
  assumes valid: "tvalid m" and none: "tget m (session_key (ck_user_id c) (ck_book_id c)) = None"
    and fresh: "session_fresh new_id (h, m)"
  shows "places (h, m) (session_key (ck_user_id c) (ck_book_id c)) (new_open c new_id) []"
proof -
  have "rs_id (os_session o1) \<noteq> new_id" if "tget m k = Some o1" for k o1
    using fresh tget_in [OF that] by (auto simp: session_fresh_def)
  moreover have "new_id \<notin> rs_id ` set h" using fresh by (simp add: session_fresh_def)
  ultimately show ?thesis using none by (auto simp: places_def new_open_def)
qed

lemma record_listening_spec:
  assumes inv: "log_inv (h, m)" and fresh: "session_fresh new_id (h, m)"
    and pos: "f64_gt (ck_listened_seconds c) f64_zero"
  defines "s \<equiv> sitting (h, m) c new_id"
  shows "log_inv (record_listening c new_id (h, m))
    \<and> recorded (record_listening c new_id (h, m)) =
        {r \<in> recorded (h, m). rs_id r \<noteq> rs_id s} \<union> (if is_substantive s then {s} else {})"
proof -
  let ?key = "session_key (ck_user_id c) (ck_book_id c)"
  obtain m1 rows where cs: "close_stale ?key (ck_at_ms c) m = (m1, rows)" by fastforce
  note kept = close_stale_keeps [OF inv cs]
  show ?thesis
  proof (cases "continued (h, m) c")
    case None
    then have none: "tget m1 ?key = None"
      using cs tbl.lookup_remove [OF log_invD(1) [OF inv]]
      by (auto simp: continued_def close_stale_def split: option.splits if_splits)
    have sub: "set m1 \<subseteq> set m"
      using cs by (auto simp: close_stale_def tremove_def AList.delete_eq split: option.splits if_splits)
    have "rows = [] \<or> (\<exists>o1. rows = [os_session o1] \<and> (?key, o1) \<in> set m)"
      using cs tget_in [of m ?key] by (auto simp: close_stale_def split: option.splits if_splits)
    then have rows_h: "set (persist_rows rows h) \<subseteq> set h \<union> os_session ` snd ` set m"
      by (force simp: set_persist_rows)
    with sub have "session_fresh new_id (persist_rows rows h, m1)"
      using fresh by (fastforce simp: session_fresh_def)
    note placed = new_open_places [OF _ none this]
    have "record_listening c new_id (h, m) = (persist_rows rows h, tinsert ?key (new_open c new_id) m1)"
      by (simp add: record_listening_rows [OF pos] record_rows_def cs none)
    moreover have "os_session (new_open c new_id) = s"
      using None by (simp add: s_def sitting_def new_open_def)
    moreover have "tvalid m1" using kept log_invD(1) by blast
    ultimately show ?thesis
      using placing_inv [OF conjunct1 [OF kept] placed] placing_recorded [OF conjunct1 [OF kept] placed] kept
      by simp
  next
    case (Some s0)
    then obtain o1 where o1: "tget m ?key = Some o1" "s0 = os_session o1" "accepts s0 (ck_at_ms c)"
      by (auto simp: continued_def split: option.splits if_splits)
    then have m1: "m1 = m" "rows = []" using cs by (simp_all add: close_stale_def)
    obtain o2 rows2 where ext: "extend_open c o1 = (o2, rows2)" by fastforce
    note placed = extend_open_places [OF inv o1(1) ext pos]
    have "record_listening c new_id (h, m) = (persist_rows rows2 h, tinsert ?key o2 m)"
      by (simp add: record_listening_rows [OF pos] record_rows_def cs m1 o1(1) ext)
    moreover have "os_session o2 = s" using placed Some o1(2) by (simp add: s_def sitting_def)
    ultimately show ?thesis
      using placing_inv [OF inv conjunct1 [OF placed]] placing_recorded [OF inv conjunct1 [OF placed]] by simp
  qed
qed

lemma sweep_idle_spec:
  assumes inv: "log_inv (h, m)"
  shows "log_inv (sweep_idle now (h, m)) \<and> recorded (sweep_idle now (h, m)) = recorded (h, m)"
proof -
  define K where "K = set (stale_keys m now)"
  obtain m' rows where c: "close_idle m now = (m', rows)" by fastforce
  have valid: "tvalid m" by (rule log_invD(1) [OF inv])
  have "m' = fold tremove (stale_keys m now) m"
    using c by (simp add: close_idle_def)
  then have rest: "tget m' k = (if k \<in> K then None else tget m k)" and "tvalid m'" for k
    using tbl.lookup_remove_all [OF valid] tbl.valid_remove_all [OF valid] by (simp_all add: K_def)
  moreover have "r \<in> set rows \<longleftrightarrow> (\<exists>k \<in> K. \<exists>o1. tget m k = Some o1 \<and> written o1 \<and> r = os_session o1)" for r
  proof -
    have "rows = map os_session (filter written (List.map_filter (tget m) (stale_keys m now)))"
      using c by (simp add: close_idle_def)
    then show ?thesis unfolding K_def by (simp only: set_map set_filter set_map_filter_eq) blast
  qed
  ultimately show ?thesis
    using closing_inv [OF inv _ rest] closing_recorded [OF inv _ rest] c by (simp add: sweep_idle_def)
qed

lemma drain_spec:
  assumes inv: "log_inv (h, m)"
  shows "log_inv (drain_reading_sessions (h, m)) \<and> recorded (drain_reading_sessions (h, m)) = recorded (h, m)"
proof -
  obtain m' rows where c: "drain m = (m', rows)" by fastforce
  have valid: "tvalid m" by (rule log_invD(1) [OF inv])
  have "r \<in> set rows \<longleftrightarrow> (\<exists>k \<in> UNIV. \<exists>o1. tget m k = Some o1 \<and> written o1 \<and> r = os_session o1)" for r
  proof -
    have "r \<in> set rows \<longleftrightarrow> (\<exists>e \<in> set m. written (snd e) \<and> r = os_session (snd e))"
    proof -
      have "rows = map os_session (filter written (map snd m))" using c by (simp add: drain_def)
      then show ?thesis by (simp only: set_map set_filter) blast
    qed
    also have "\<dots> \<longleftrightarrow> (\<exists>k o1. (k, o1) \<in> set m \<and> written o1 \<and> r = os_session o1)"
      by (metis prod.collapse snd_conv)
    also have "\<dots> \<longleftrightarrow> (\<exists>k o1. tget m k = Some o1 \<and> written o1 \<and> r = os_session o1)"
      using in_tget [OF valid] tget_in by metis
    finally show ?thesis by simp
  qed
  moreover have "m' = []" using c by (simp add: drain_def)
  ultimately show ?thesis
    using closing_inv [OF inv, of m' UNIV rows] closing_recorded [OF inv, of m' UNIV rows] c
    by (simp add: drain_reading_sessions_def)
qed

section \<open>The write-through reference\<close>

text \<open>The log without buffering: every checkpoint is stored at once, as the new revision of
  the sitting it belongs to.\<close>

type_synonym plain_log = "reading_session set \<times> (string \<Rightarrow> reading_session option)"

datatype log_event = Heard checkpoint string | Sweep u64

definition plain_apply :: "log_event \<Rightarrow> plain_log \<Rightarrow> plain_log" where
  "plain_apply e st =
     (case e of
        Heard c new_id \<Rightarrow>
          (let key = session_key (ck_user_id c) (ck_book_id c);
               s = (case snd st key of
                      Some s0 \<Rightarrow> if accepts s0 (ck_at_ms c) then extend_session c s0 else new_session c new_id
                    | None \<Rightarrow> new_session c new_id)
           in ({r \<in> fst st. rs_id r \<noteq> rs_id s} \<union> (if is_substantive s then {s} else {}),
               (snd st)(key \<mapsto> s)))
      | Sweep now \<Rightarrow>
          (fst st, \<lambda>k. case snd st k of Some s \<Rightarrow> if accepts s now then Some s else None | None \<Rightarrow> None))"

definition log_apply :: "log_event \<Rightarrow> log_state \<Rightarrow> log_state" where
  "log_apply e st = (case e of Heard c new_id \<Rightarrow> record_listening c new_id st | Sweep now \<Rightarrow> sweep_idle now st)"

definition log_event_ok :: "log_event \<Rightarrow> log_state \<Rightarrow> bool" where
  "log_event_ok e st =
     (case e of Heard c new_id \<Rightarrow> f64_gt (ck_listened_seconds c) f64_zero \<and> session_fresh new_id st
      | Sweep now \<Rightarrow> True)"

fun log_run :: "log_event list \<Rightarrow> log_state \<Rightarrow> log_state option" where
  "log_run [] st = Some st"
| "log_run (e # es) st = (if log_event_ok e st then log_run es (log_apply e st) else None)"

definition log_abs :: "log_state \<Rightarrow> plain_log" where
  "log_abs st = (recorded st, \<lambda>k. map_option os_session (tget (snd st) k))"

lemma record_open:
  assumes valid: "tvalid m" and pos: "f64_gt (ck_listened_seconds c) f64_zero"
  shows "map_option os_session (tget (snd (record_listening c new_id (h, m))) k) =
    (if k = session_key (ck_user_id c) (ck_book_id c) then Some (sitting (h, m) c new_id)
     else map_option os_session (tget m k))"
  by (auto simp: record_listening_rows [OF pos] record_rows_def close_stale_def flushed_def
      sitting_def continued_def extend_open_def new_open_def tbl.lookup_insert
      tbl.lookup_remove [OF valid] split: option.splits if_splits)

lemma sweep_open:
  assumes valid: "tvalid m"
  shows "map_option os_session (tget (snd (sweep_idle now (h, m))) k) =
    (case map_option os_session (tget m k) of
       Some s \<Rightarrow> if accepts s now then Some s else None | None \<Rightarrow> None)"
proof -
  let ?stale = "stale_keys m now"
  have "k \<in> set ?stale \<longleftrightarrow> (\<exists>o1. (k, o1) \<in> set m \<and> \<not> accepts (os_session o1) now)"
    by (force simp: stale_keys_def)
  also have "\<dots> \<longleftrightarrow> (\<exists>o1. tget m k = Some o1 \<and> \<not> accepts (os_session o1) now)"
    using in_tget [OF valid] tget_in by metis
  finally have stale: "k \<in> set ?stale \<longleftrightarrow> (\<exists>o1. tget m k = Some o1 \<and> \<not> accepts (os_session o1) now)" .
  have "tget (snd (sweep_idle now (h, m))) k = (if k \<in> set ?stale then None else tget m k)"
    using tbl.lookup_remove_all [OF valid, of ?stale k]
    by (simp only: sweep_idle_def close_idle_def persist_closed.simps snd_conv)
  with stale show ?thesis by (auto split: option.splits)
qed

lemma log_apply_refines:
  assumes inv: "log_inv st" and ok: "log_event_ok e st"
  shows "log_inv (log_apply e st) \<and> log_abs (log_apply e st) = plain_apply e (log_abs st)"
proof -
  obtain h m where st: "st = (h, m)" by fastforce
  have valid: "tvalid m" using log_invD(1) inv st by blast
  show ?thesis
  proof (cases e)
    case (Heard c new_id)
    then have pos: "f64_gt (ck_listened_seconds c) f64_zero" and fresh: "session_fresh new_id (h, m)"
      using ok st by (simp_all add: log_event_ok_def)
    have s: "(case map_option os_session (tget m (session_key (ck_user_id c) (ck_book_id c))) of
        Some s0 \<Rightarrow> if accepts s0 (ck_at_ms c) then extend_session c s0 else new_session c new_id
      | None \<Rightarrow> new_session c new_id) = sitting (h, m) c new_id"
      by (simp add: sitting_def continued_def split: option.splits)
    have plain: "plain_apply (Heard c new_id) (log_abs (h, m)) =
        ({r \<in> recorded (h, m). rs_id r \<noteq> rs_id (sitting (h, m) c new_id)}
           \<union> (if is_substantive (sitting (h, m) c new_id) then {sitting (h, m) c new_id} else {}),
         (\<lambda>k. map_option os_session (tget m k))
           (session_key (ck_user_id c) (ck_book_id c) \<mapsto> sitting (h, m) c new_id))"
      by (simp only: plain_apply_def log_event.case log_abs_def snd_conv fst_conv Let_def s)
    have "log_abs (record_listening c new_id (h, m)) = plain_apply (Heard c new_id) (log_abs (h, m))"
      unfolding plain
      using record_listening_spec [OF inv [unfolded st] fresh pos] record_open [OF valid pos, of new_id h]
      by (simp only: log_abs_def prod.inject fun_eq_iff fun_upd_apply simp_thms)
    with record_listening_spec [OF inv [unfolded st] fresh pos] show ?thesis
      by (simp add: Heard st log_apply_def)
  next
    case (Sweep now)
    show ?thesis
      using sweep_idle_spec [OF inv [unfolded st], of now] sweep_open [OF valid, of now h]
      by (simp add: Sweep st log_apply_def plain_apply_def log_abs_def fun_eq_iff)
  qed
qed

lemma log_run_refines:
  "log_run es st = Some st' \<Longrightarrow> log_inv st \<Longrightarrow> log_inv st' \<and> log_abs st' = fold plain_apply es (log_abs st)"
proof (induction es arbitrary: st)
  case (Cons e es)
  then show ?case using log_apply_refines [of st e] by (simp split: if_splits)
qed simp

lemma log_inv_start: "log_inv (h, [])"
  by (simp add: log_inv_def)


definition ex_checkpoint :: "u64 \<Rightarrow> f64 \<Rightarrow> checkpoint" where
  "ex_checkpoint t x = \<lparr>ck_user_id = ''u'', ck_book_id = ''b'', ck_work_id = None, ck_at_ms = t,
     ck_listened_seconds = x, ck_position_seconds = Fin 100, ck_speed = None, ck_client = None,
     ck_tz_offset_minutes = 0, ck_today = ''2024-01-01''\<rparr>"

definition ex_log_events :: "log_event list" where
  "ex_log_events = [Heard (ex_checkpoint 1000 (Fin 4)) ''s1'', Heard (ex_checkpoint 70000 (Fin 6)) ''s2'',
     Sweep 100000, Heard (ex_checkpoint 900000 (Fin 8)) ''s3'']"


section \<open>The cost of a crash\<close>

definition entry_ok :: "reading_session list \<Rightarrow> open_session \<Rightarrow> bool" where
  "entry_ok h o1 \<longleftrightarrow>
     60000 \<le> unat (os_flush_interval_ms o1) \<and> unat (os_flush_interval_ms o1) \<le> 900000
     \<and> (os_dirty o1 \<and> is_substantive (os_session o1) \<longrightarrow>
          unat (rs_ended_at_ms (os_session o1)) - unat (os_flushed_at_ms o1) < unat (os_flush_interval_ms o1))
     \<and> (\<not> os_dirty o1 \<longrightarrow> rs_ended_at_ms (os_session o1) = os_flushed_at_ms o1)
     \<and> (os_flushed_at_ms o1 = rs_started_at_ms (os_session o1)
        \<or> (\<exists>r \<in> set h. rs_id r = rs_id (os_session o1) \<and> rs_ended_at_ms r = os_flushed_at_ms o1))"

definition flush_inv :: "log_state \<Rightarrow> bool" where
  "flush_inv st \<longleftrightarrow> (\<forall>k o1. tget (snd st) k = Some o1 \<longrightarrow> entry_ok (fst st) o1)"

lemma entry_ok_mono:
  "entry_ok h o1 \<Longrightarrow> (\<And>r. r \<in> set h \<Longrightarrow> rs_id r = rs_id (os_session o1) \<Longrightarrow> r \<in> set g) \<Longrightarrow> entry_ok g o1"
  unfolding entry_ok_def by blast

lemma closing_flush_inv:
  assumes inv: "log_inv (h, m)" and ok: "flush_inv (h, m)"
    and rest: "\<And>k. tget m' k = (if k \<in> K then None else tget m k)"
    and rows: "\<And>r. r \<in> set rows \<Longrightarrow> \<exists>k \<in> K. \<exists>o1. tget m k = Some o1 \<and> r = os_session o1"
  shows "flush_inv (persist_rows rows h, m')"
  unfolding flush_inv_def fst_conv snd_conv
proof (intro allI impI)
  fix k o1 assume "tget m' k = Some o1"
  then have k: "k \<notin> K" "tget m k = Some o1" by (simp_all add: rest split: if_splits)
  have other: "rs_id s \<noteq> rs_id (os_session o1)" if s: "s \<in> set rows" for s
  proof -
    obtain l o2 where l: "l \<in> K" "tget m l = Some o2" "s = os_session o2" using rows [OF s] by blast
    then show ?thesis using log_invD(3) [OF inv k(2) l(2)] k(1) by auto
  qed
  have "entry_ok h o1" using ok k(2) by (simp add: flush_inv_def)
  then show "entry_ok (persist_rows rows h) o1"
  proof (rule entry_ok_mono)
    fix r assume r: "r \<in> set h" "rs_id r = rs_id (os_session o1)"
    then have "rs_id r \<notin> rs_id ` set rows" using other by fastforce
    with r(1) show "r \<in> set (persist_rows rows h)" by (simp add: set_persist_rows)
  qed
qed

lemma placing_flush_inv:
  assumes ok: "flush_inv (h, m)" and p: "places (h, m) key o' rows"
    and new: "entry_ok (persist_rows rows h) o'"
  shows "flush_inv (persist_rows rows h, tinsert key o' m)"
  unfolding flush_inv_def fst_conv snd_conv tbl.lookup_insert
proof (intro allI impI)
  fix k o1 assume o1: "(if k = key then Some o' else tget m k) = Some o1"
  show "entry_ok (persist_rows rows h) o1"
  proof (cases "k = key")
    case False
    then have m: "tget m k = Some o1" using o1 by simp
    then have "entry_ok h o1" using ok by (simp add: flush_inv_def)
    then show ?thesis
      by (rule entry_ok_mono) (use places_stored(1) [OF p] placesD(2) [OF p m] False in auto)
  qed (use o1 new in simp)
qed

lemma new_open_ok: "entry_ok h (new_open c new_id)"
  by (simp add: entry_ok_def new_open_def new_session_def SESSION_FLUSH_SECONDS_def u64_simps)

lemma extend_open_ok:
  assumes ok: "entry_ok h o1" and ext: "extend_open c o1 = (o2, rows)"
    and stored: "rows \<noteq> [] \<Longrightarrow> os_session o2 \<in> set (persist_rows rows h)"
  shows "entry_ok (persist_rows rows h) o2"
proof (cases "flush_due c o1 \<and> is_substantive (extend_session c (os_session o1))")
  case True
  then have o2: "o2 = flushed c o1" "rows \<noteq> []" using ext by (auto simp: extend_open_def)
  have "rs_ended_at_ms (os_session (flushed c o1)) = ck_at_ms c"
    by (simp add: flushed_def extend_session_def)
  moreover have "unat (min (sat_mul (os_flush_interval_ms o1) 2) (sat_mul SESSION_FLUSH_MAX_SECONDS 1000))
      = min (unat (os_flush_interval_ms o1) * 2) 900000"
    using ok by (simp add: min_def word_le_nat_alt u64_simps SESSION_FLUSH_MAX_SECONDS_def entry_ok_def)
  ultimately show ?thesis
    using ok stored [OF o2(2)] unfolding o2(1) entry_ok_def by (auto simp: flushed_def)
next
  case False
  then have o2: "o2 = o1\<lparr>os_session := extend_session c (os_session o1), os_dirty := True\<rparr>" "rows = []"
    using ext by (auto simp: extend_open_def)
  have "unat (ck_at_ms c) - unat (os_flushed_at_ms o1) < unat (os_flush_interval_ms o1)"
    if "is_substantive (extend_session c (os_session o1))"
    using that False by (auto simp: flush_due_def word_le_nat_alt u64_simps not_le)
  then show ?thesis using ok by (simp add: entry_ok_def o2 extend_session_def)
qed

lemma log_apply_flush_inv:
  assumes inv: "log_inv st" and ok: "flush_inv st" and ev: "log_event_ok e st"
  shows "flush_inv (log_apply e st)"
proof -
  obtain h m where st: "st = (h, m)" by fastforce
  have valid: "tvalid m" using log_invD(1) inv st by blast
  show ?thesis
  proof (cases e)
    case (Sweep now)
    have rest: "tget (fold tremove (stale_keys m now) m) k =
        (if k \<in> set (stale_keys m now) then None else tget m k)" for k
      by (rule tbl.lookup_remove_all [OF valid])
    have "\<exists>k \<in> set (stale_keys m now). \<exists>o1. tget m k = Some o1 \<and> r = os_session o1"
      if "r \<in> set (map os_session (filter written (List.map_filter (tget m) (stale_keys m now))))" for r
      using that by (simp only: set_map set_filter set_map_filter_eq) blast
    then have "flush_inv (persist_rows (map os_session (filter written (List.map_filter (tget m)
        (stale_keys m now)))) h, fold tremove (stale_keys m now) m)"
      by (rule closing_flush_inv [OF inv [unfolded st] ok [unfolded st] rest])
    then show ?thesis
      by (simp add: Sweep st log_apply_def sweep_idle_def close_idle_def)
  next
    case (Heard c new_id)
    let ?key = "session_key (ck_user_id c) (ck_book_id c)"
    have pos: "f64_gt (ck_listened_seconds c) f64_zero" and fresh: "session_fresh new_id (h, m)"
      using ev st Heard by (simp_all add: log_event_ok_def)
    show ?thesis
    proof (cases "continued (h, m) c")
      case (Some s0)
      then obtain o1 where o1: "tget m ?key = Some o1" "accepts (os_session o1) (ck_at_ms c)"
        by (auto simp: continued_def split: option.splits if_splits)
      obtain o2 rows where ext: "extend_open c o1 = (o2, rows)" by fastforce
      note placed = conjunct1 [OF extend_open_places [OF inv [unfolded st] o1(1) ext pos]]
      have "entry_ok h o1" using ok o1(1) by (simp add: flush_inv_def st)
      from placing_flush_inv [OF ok [unfolded st] placed extend_open_ok [OF this ext places_stored(4) [OF placed]]]
      show ?thesis
        by (simp add: Heard st log_apply_def record_listening_rows [OF pos] record_rows_def close_stale_def o1 ext)
    next
      case None
      obtain m1 rows where cs: "close_stale ?key (ck_at_ms c) m = (m1, rows)" by fastforce
      have rest: "tget m1 k = (if k \<in> {?key} then None else tget m k)" for k
        using None cs tbl.lookup_remove [OF valid]
        by (auto simp: continued_def close_stale_def split: option.splits if_splits)
      have "\<exists>k \<in> {?key}. \<exists>o1. tget m k = Some o1 \<and> r = os_session o1" if "r \<in> set rows" for r
        using cs that by (auto simp: close_stale_def split: option.splits if_splits)
      note closed = closing_flush_inv [OF inv [unfolded st] ok [unfolded st] rest this]
      have run: "log_apply e st = (persist_rows rows h, tinsert ?key (new_open c new_id) m1)"
        by (simp add: Heard st log_apply_def record_listening_rows [OF pos] record_rows_def cs rest)
      have "tget (tinsert ?key (new_open c new_id) m1) k = Some o1 \<Longrightarrow> entry_ok (persist_rows rows h) o1" for k o1
        using closed new_open_ok by (auto simp: tbl.lookup_insert flush_inv_def split: if_splits)
      then show ?thesis by (simp add: run flush_inv_def)
    qed
  qed
qed

lemma log_run_inv:
  "log_run es st = Some st' \<Longrightarrow> log_inv st \<Longrightarrow> flush_inv st \<Longrightarrow> log_inv st' \<and> flush_inv st'"
proof (induction es arbitrary: st)
  case (Cons e es)
  then show ?case using log_apply_refines [of st e] log_apply_flush_inv [of st e] by (simp split: if_splits)
qed simp



section \<open>Reading the log back\<close>

text \<open>The loop's state after some rows: the keys in order of first appearance, and for each
  its best row so far, the first among those with the largest end time.\<close>

definition compact_ok :: "reading_session list \<Rightarrow> string list \<Rightarrow> (string, reading_session) table \<Rightarrow> bool" where
  "compact_ok seen order latest \<longleftrightarrow>
     tvalid latest \<and> order = rev (remdups (rev (map rs_id seen)))
     \<and> (\<forall>k. (tget latest k = None) = (k \<notin> rs_id ` set seen))
     \<and> (\<forall>k row. tget latest k = Some row \<longrightarrow> rs_id row = k \<and> row \<in> set seen
          \<and> (\<forall>r \<in> set seen. rs_id r = k \<longrightarrow> rs_ended_at_ms r \<le> rs_ended_at_ms row))"

lemma compact_okD:
  assumes "compact_ok seen order latest"
  shows "tvalid latest" "order = rev (remdups (rev (map rs_id seen)))"
    and "tget latest k = None \<longleftrightarrow> k \<notin> rs_id ` set seen"
    and "tget latest k = Some row \<Longrightarrow> rs_id row = k"
    and "tget latest k = Some row \<Longrightarrow> row \<in> set seen"
    and "tget latest k = Some row \<Longrightarrow> r \<in> set seen \<Longrightarrow> rs_id r = k \<Longrightarrow> rs_ended_at_ms r \<le> rs_ended_at_ms row"
  using assms unfolding compact_ok_def by auto

lemma compact_step:
  assumes ok: "compact_ok seen order latest"
  shows "compact_loop [row] order latest = (order', latest') \<Longrightarrow> compact_ok (seen @ [row]) order' latest'"
proof -
  assume step: "compact_loop [row] order latest = (order', latest')"
  show "compact_ok (seen @ [row]) order' latest'"
  proof (cases "tget latest (rs_id row)")
    case None
    then have new: "rs_id row \<notin> rs_id ` set seen" using compact_okD(3) [OF ok] by simp
    have s: "order' = order @ [rs_id row]" "latest' = tinsert (rs_id row) row latest"
      using step None by simp_all
    have "\<not> (\<exists>r \<in> set seen. rs_id r = rs_id row)" using new by (auto simp: image_iff)
    then show ?thesis
      using new compact_okD [OF ok] unfolding compact_ok_def s
      by (auto simp: tbl.valid_insert tbl.lookup_insert split: if_splits)
  next
    case (Some existing)
    note ex = compact_okD(4,5) [OF ok Some]
    have keep: "order = rev (remdups (rev (map rs_id (seen @ [row]))))"
    proof -
      have "rs_id row \<in> set (map rs_id seen)" using ex by (metis image_eqI set_map)
      then show ?thesis using compact_okD(2) [OF ok] by simp
    qed
    show ?thesis
    proof (cases "rs_ended_at_ms row \<le> rs_ended_at_ms existing")
      case True
      then have s: "order' = order" "latest' = latest" using step Some by simp_all
      show ?thesis
        using compact_okD [OF ok] keep ex True Some unfolding compact_ok_def s by auto
    next
      case False
      then have s: "order' = order" "latest' = tinsert (rs_id row) row latest" using step Some by simp_all
      have "rs_ended_at_ms r \<le> rs_ended_at_ms row" if "r \<in> set seen" "rs_id r = rs_id row" for r
        using compact_okD(6) [OF ok Some that] False by simp
      then show ?thesis
        using compact_okD [OF ok] keep ex unfolding compact_ok_def s
        by (auto simp: tbl.valid_insert tbl.lookup_insert split: if_splits)
    qed
  qed
qed

lemma compact_loop_ok:
  "compact_ok seen order latest \<Longrightarrow> compact_loop rows order latest = (order', latest') \<Longrightarrow>
   compact_ok (seen @ rows) order' latest'"
proof (induction rows arbitrary: seen order latest)
  case (Cons row rows)
  obtain o1 l1 where one: "compact_loop [row] order latest = (o1, l1)" by fastforce
  then have "compact_loop (row # rows) order latest = compact_loop rows o1 l1"
    by (auto split: option.splits if_splits)
  with Cons.IH [OF compact_step [OF Cons.prems(1) one]] Cons.prems(2) show ?case by simp
qed simp

lemma take_rows_map:
  "tvalid latest \<Longrightarrow> distinct ks \<Longrightarrow> (\<And>k. k \<in> set ks \<Longrightarrow> tget latest k \<noteq> None) \<Longrightarrow>
   take_rows ks latest = map (\<lambda>k. the (tget latest k)) ks"
proof (induction ks arbitrary: latest)
  case (Cons k ks)
  obtain row where row: "tget latest k = Some row" using Cons.prems(3) [of k] by auto
  have "take_rows ks (tremove k latest) = map (\<lambda>j. the (tget (tremove k latest) j)) ks"
    using Cons.prems by (intro Cons.IH) (auto simp: tbl.valid_remove tbl.lookup_remove)
  also have "\<dots> = map (\<lambda>j. the (tget latest j)) ks"
    using Cons.prems(1,2) by (intro map_cong) (auto simp: tbl.lookup_remove)
  finally show ?case using row by simp
qed simp

text \<open>Compaction keeps exactly the latest revision of every sitting. The result lists each
  sitting of the input once, in the order of first appearance, by a row of the input that no
  other revision of that sitting outlasts.\<close>

theorem compact_sessions_latest:
  shows "map rs_id (compact_sessions rows) = rev (remdups (rev (map rs_id rows)))
    \<and> (\<forall>row \<in> set (compact_sessions rows). row \<in> set rows
        \<and> (\<forall>r \<in> set rows. rs_id r = rs_id row \<longrightarrow> rs_ended_at_ms r \<le> rs_ended_at_ms row))"
proof -
  obtain order latest where loop: "compact_loop rows [] [] = (order, latest)" by fastforce
  have "compact_ok [] [] []" by (simp add: compact_ok_def)
  from compact_loop_ok [OF this loop] have ok: "compact_ok rows order latest" by simp
  have order: "distinct order" "k \<in> set order \<Longrightarrow> tget latest k \<noteq> None" for k
    using compact_okD(2,3) [OF ok] by auto
  have c: "compact_sessions rows = map (\<lambda>k. the (tget latest k)) order"
    using take_rows_map [OF compact_okD(1) [OF ok] order(1)] order(2) loop
    by (simp add: compact_sessions_def)
  have ids: "rs_id (the (tget latest k)) = k" if "k \<in> set order" for k
    using order(2) [OF that] compact_okD(4) [OF ok] by auto
  have "map rs_id (compact_sessions rows) = order"
    unfolding c map_map by (rule map_idI) (simp add: ids)
  moreover have "row \<in> set rows \<and> (\<forall>r \<in> set rows. rs_id r = rs_id row \<longrightarrow> rs_ended_at_ms r \<le> rs_ended_at_ms row)"
    if row: "row \<in> set (compact_sessions rows)" for row
  proof -
    obtain k where "k \<in> set order" "row = the (tget latest k)" using row c by auto
    then have "tget latest k = Some row" using order(2) by auto
    with compact_okD(4-6) [OF ok this] show ?thesis by blast
  qed
  ultimately show ?thesis using compact_okD(2) [OF ok] by blast
qed

definition ex_row :: "string \<Rightarrow> u64 \<Rightarrow> reading_session" where
  "ex_row k t = (new_session (ex_checkpoint t (Fin 10)) k)"

lemma compact_sessions_latest_witness:
  "map rs_id (compact_sessions [ex_row ''a'' 5, ex_row ''b'' 6, ex_row ''a'' 9]) = [''a'', ''b'']
   \<and> hd (compact_sessions [ex_row ''a'' 5, ex_row ''b'' 6, ex_row ''a'' 9]) = ex_row ''a'' 9"
proof
  show "map rs_id (compact_sessions [ex_row ''a'' 5, ex_row ''b'' 6, ex_row ''a'' 9]) = [''a'', ''b'']"
    using compact_sessions_latest [of "[ex_row ''a'' 5, ex_row ''b'' 6, ex_row ''a'' 9]"]
    by (simp add: ex_row_def)
  show "hd (compact_sessions [ex_row ''a'' 5, ex_row ''b'' 6, ex_row ''a'' 9]) = ex_row ''a'' 9"
    by code_simp
qed

lemma newest_first_order:
  "sorted_wrt (\<lambda>a b. time b \<le> time a) (newest_first time rows)"
proof -
  have "sorted (map (\<lambda>r. - uint (time r)) (newest_first time rows))" by (simp add: newest_first_def)
  then show ?thesis by (simp add: sorted_wrt_map word_le_def)
qed

text \<open>A page of the reading log is the reader's own newest rows. It has at most the
  requested number of rows and never more than a thousand, each of them the caller's and on
  or after the requested day, in decreasing time; and a row of the caller that the page
  leaves out, when the page is not full, is before the requested day, and otherwise is no
  newer than any row listed.\<close>

theorem history_rows_page:
  fixes rows :: "'a list" and user_id :: string and user day :: "'a \<Rightarrow> string" and time :: "'a \<Rightarrow> u64"
    and query :: reading_log_query
  defines "page \<equiv> \<lambda>query. history_rows rows user_id query user day time"
    and "limit \<equiv> \<lambda>query. min (case q_limit query of Some l \<Rightarrow> l | None \<Rightarrow> 200) 1000"
    and "wanted \<equiv> \<lambda>query row. row \<in> set rows \<and> user row = user_id
           \<and> (case q_since query of None \<Rightarrow> True | Some date \<Rightarrow> date \<le> day row)"
  shows "length (page query) \<le> limit query \<and> set (page query) \<subseteq> {row. wanted query row}
    \<and> sorted_wrt (\<lambda>a b. time b \<le> time a) (page query)
    \<and> (\<forall>row. wanted query row \<longrightarrow> row \<in> set (page query)
        \<or> (length (page query) = limit query \<and> (\<forall>r \<in> set (page query). time row \<le> time r)))"
proof -
  let ?all = "newest_first time (filter (\<lambda>row. user row = user_id
      \<and> (case q_since query of None \<Rightarrow> True | Some date \<Rightarrow> date \<le> day row)) rows)"
  have page: "page query = take (limit query) ?all"
    unfolding page_def limit_def history_rows_def DEFAULT_READING_LOG_PAGE_def
      MAX_READING_LOG_PAGE_def by (rule refl)
  have all: "set ?all = {row. wanted query row}"
    by (auto simp: newest_first_def wanted_def)
  have order: "sorted_wrt (\<lambda>a b. time b \<le> time a) ?all" by (rule newest_first_order)
  have split: "?all = page query @ drop (limit query) ?all"
    unfolding page by (rule append_take_drop_id [symmetric])
  have "length (page query) = limit query \<and> (\<forall>r \<in> set (page query). time row \<le> time r)"
    if "row \<in> set ?all" "row \<notin> set (page query)" for row
  proof -
    have "set ?all = set (page query) \<union> set (drop (limit query) ?all)"
      by (subst split) (rule set_append)
    then have row: "row \<in> set (drop (limit query) ?all)" using that by blast
    then have "limit query < length ?all" by (metis drop_all empty_iff list.set(1) not_le)
    moreover have "\<forall>r \<in> set (page query). time row \<le> time r"
      unfolding page using sorted_take_drop [OF order row] by blast
    ultimately show ?thesis by (simp add: page)
  qed
  moreover have "sorted_wrt (\<lambda>a b. time b \<le> time a) (page query)"
    using order unfolding page by (rule sorted_wrt_take)
  moreover have "set (page query) \<subseteq> set ?all" by (simp add: page set_take_subset)
  ultimately show ?thesis using all by (auto simp: page)
qed

lemma history_rows_page_witness:
  "ex_row ''b'' 6 \<in> set (history_rows [ex_row ''a'' 5, ex_row ''b'' 6] ''u''
      \<lparr>q_limit = Some 1, q_since = None\<rparr> rs_user_id rs_started_on rs_ended_at_ms)
   \<and> length (history_rows [ex_row ''a'' 5, ex_row ''b'' 6] ''u''
      \<lparr>q_limit = Some 1, q_since = None\<rparr> rs_user_id rs_started_on rs_ended_at_ms) \<le> 1"
proof -
  have "ex_row ''b'' 6 \<in> set (history_rows [ex_row ''a'' 5, ex_row ''b'' 6] ''u''
      \<lparr>q_limit = Some 1, q_since = None\<rparr> rs_user_id rs_started_on rs_ended_at_ms)"
    by code_simp
  moreover note history_rows_page [of "[ex_row ''a'' 5, ex_row ''b'' 6]" "''u''"
      "\<lparr>q_limit = Some 1, q_since = None\<rparr>" rs_user_id rs_started_on rs_ended_at_ms]
  ultimately show ?thesis by simp
qed

end
