(* ===== verification/Progress.thy ===== *)
theory Progress
  imports Accounts Works ReadingLog Calendar
begin

text \<open>
  Playback progress (\<open>progress.rs\<close>, \<open>ProgressStore\<close> of \<open>storage.rs\<close>): the rules that
  decide what a checkpoint or a completion request stores, the transaction that applies the
  decision and keeps a copy of a position a listener may have lost, the effects on the
  reading log, and the summaries the library serves, the inherited finish of another edition
  and the reciprocal sharing included. Positions are binary64 numbers, revisions decimal
  texts issued by the server.
\<close>

section \<open>Data\<close>

text \<open>Of a book and a track, what the rules look at.\<close>

record track =
  t_id :: string
  t_duration_seconds :: "f64 option"

record metadata_summary =
  ms_publisher :: "ustr option"
  ms_series :: "ustr option"
  ms_series_position :: "string option"

record book =
  b_id :: string
  b_title :: ustr
  b_author :: "ustr option"
  b_narrator :: "ustr option"
  b_duration_seconds :: "f64 option"
  b_track_count :: nat
  b_genres :: "ustr list"
  b_published_date :: "string option"
  b_asin :: "string option"
  b_metadata :: metadata_summary
  b_tracks :: "track list"

datatype book_progress_status = NotStarted | InProgress | Finished

record progress_recording =
  pc_id :: string
  pc_sequence :: u64

record progress =
  pr_book_id :: string
  pr_track_id :: string
  pr_position_seconds :: f64
  pr_book_position_seconds :: f64
  pr_duration_seconds :: "f64 option"
  pr_updated_at :: string
  pr_finished_override :: "bool option"
  pr_recording :: "progress_recording option"

record book_progress =
  bp_status :: book_progress_status
  bp_finished_override :: "bool option"
  bp_book_position_seconds :: f64
  bp_duration_seconds :: "f64 option"
  bp_remaining_seconds :: "f64 option"
  bp_percent_complete :: "f64 option"
  bp_updated_at :: string

record shared_progress =
  sp_user_id :: string
  sp_username :: ustr
  sp_status :: book_progress_status
  sp_percent_complete :: "f64 option"
  sp_updated_at :: string

record progress_update =
  pu_track_id :: string
  pu_position_seconds :: f64
  pu_book_position_seconds :: "f64 option"
  pu_duration_seconds :: "f64 option"
  pu_updated_at_ms :: "u64 option"
  pu_intentional_regression :: bool
  pu_intentional_seek :: bool
  pu_tz_offset_minutes :: "int option"
  pu_speed :: "f64 option"
  pu_client :: "string option"

record progress_checkpoint =
  cp_update :: progress_update
  cp_sent_at_ms :: "u64 option"
  cp_base_updated_at :: "string option"
  cp_recording :: "progress_recording option"

record completion_update =
  cu_finished :: bool
  cu_track_id :: "string option"
  cu_position_seconds :: "f64 option"
  cu_book_position_seconds :: "f64 option"
  cu_duration_seconds :: "f64 option"
  cu_tz_offset_minutes :: "int option"

definition recording_is_valid :: "progress_recording \<Rightarrow> bool" where
  "recording_is_valid r \<longleftrightarrow>
     length (pc_id r) = 32 \<and> list_all is_ascii_hexdigit (pc_id r)
     \<and> 1 \<le> pc_sequence r \<and> pc_sequence r \<le> 9007199254740991"

section \<open>Positions\<close>

definition positive_duration :: "f64 option \<Rightarrow> f64 option" where
  "positive_duration d =
     (case d of Some x \<Rightarrow> if f64_gt x f64_zero then Some x else None | None \<Rightarrow> None)"

definition f64_sum :: "f64 list \<Rightarrow> f64" where
  "f64_sum xs = foldl f64_add f64_zero xs"

text \<open>The tracks before the given one, in the book's order.\<close>

definition tracks_before :: "book \<Rightarrow> track \<Rightarrow> track list" where
  "tracks_before b t = takeWhile (\<lambda>c. t_id c \<noteq> t_id t) (b_tracks b)"

definition book_position_seconds :: "book \<Rightarrow> track \<Rightarrow> f64 \<Rightarrow> f64" where
  "book_position_seconds b t position_seconds =
     f64_add
       (f64_sum (map (\<lambda>c. case t_duration_seconds c of Some d \<Rightarrow> d | None \<Rightarrow> f64_zero) (tracks_before b t)))
       (f64_max position_seconds f64_zero)"

definition clamped_track_position :: "f64 \<Rightarrow> f64 option \<Rightarrow> f64" where
  "clamped_track_position position_seconds duration_seconds =
     (case positive_duration duration_seconds of
        Some d \<Rightarrow> f64_min (f64_max position_seconds f64_zero) d
      | None \<Rightarrow> f64_max position_seconds f64_zero)"

definition validated_book_position_seconds :: "book \<Rightarrow> track \<Rightarrow> f64 \<Rightarrow> f64 option \<Rightarrow> f64" where
  "validated_book_position_seconds b t position_seconds reported =
     (if list_all (\<lambda>c. case t_duration_seconds c of Some d \<Rightarrow> f64_gt d f64_zero | None \<Rightarrow> False)
           (tracks_before b t)
      then book_position_seconds b t position_seconds
      else f64_max (case reported of
             Some r \<Rightarrow> r
           | None \<Rightarrow> book_position_seconds b t position_seconds) f64_zero)"

definition enrich_progress :: "book \<Rightarrow> progress \<Rightarrow> progress" where
  "enrich_progress b p =
     (case List.find (\<lambda>c. t_id c = pr_track_id p) (b_tracks b) of
        None \<Rightarrow> p
      | Some t \<Rightarrow>
          if f64_le (pr_book_position_seconds p) f64_zero
          then p\<lparr>pr_book_position_seconds := book_position_seconds b t (pr_position_seconds p)\<rparr>
          else p)"

section \<open>Revisions\<close>

definition SECONDS_LIMIT :: f64 where
  "SECONDS_LIMIT = Fin 1000000000000"

definition parsed_timestamp :: "string \<Rightarrow> f64" where
  "parsed_timestamp value = (case parse_f64 value of Some x \<Rightarrow> x | None \<Rightarrow> f64_zero)"

definition progress_timestamp_seconds :: "string \<Rightarrow> f64" where
  "progress_timestamp_seconds value =
     (if f64_ge (parsed_timestamp value) SECONDS_LIMIT
      then f64_div (parsed_timestamp value) (Fin 1000) else parsed_timestamp value)"

definition progress_timestamp_millis :: "string \<Rightarrow> u64" where
  "progress_timestamp_millis value =
     (if f64_ge (f64_max (parsed_timestamp value) f64_zero) SECONDS_LIMIT
      then f64_floor_u64 (f64_max (parsed_timestamp value) f64_zero)
      else f64_floor_u64 (f64_mul (f64_max (parsed_timestamp value) f64_zero) (Fin 1000)))"

definition previous_millis :: "progress option \<Rightarrow> u64" where
  "previous_millis previous =
     (case previous of Some p \<Rightarrow> progress_timestamp_millis (pr_updated_at p) | None \<Rightarrow> 0)"

definition next_progress_timestamp :: "progress option \<Rightarrow> u64 \<Rightarrow> string" where
  "next_progress_timestamp previous now_millis =
     dec (unat (max now_millis (sat_add (previous_millis previous) 1)))"

text \<open>
  The client's clock corrected by the gap between sending and receiving, in 128-bit
  arithmetic that cannot overflow.
\<close>

definition server_domain_timestamp_ms :: "u64 option \<Rightarrow> u64 option \<Rightarrow> u64 \<Rightarrow> u64 option" where
  "server_domain_timestamp_ms updated_at_ms sent_at_ms now_millis =
     (case updated_at_ms of
        None \<Rightarrow> None
      | Some updated \<Rightarrow>
          (case sent_at_ms of
             None \<Rightarrow> Some updated
           | Some sent \<Rightarrow>
               Some (of_int (max 0 (min (uint u64_max)
                 (uint updated + (uint now_millis - uint sent)))))))"

section \<open>The guards of a checkpoint\<close>

definition PROGRESS_STALE_WRITE_SLACK_SECONDS :: f64 where
  "PROGRESS_STALE_WRITE_SLACK_SECONDS = Fin 300"
definition PROGRESS_BACKUP_REGRESSION_SECONDS :: f64 where
  "PROGRESS_BACKUP_REGRESSION_SECONDS = Fin 300"
definition PROGRESS_AUTOMATIC_REGRESSION_SLACK_SECONDS :: f64 where
  "PROGRESS_AUTOMATIC_REGRESSION_SLACK_SECONDS = Fin 2"
definition PROGRESS_NEAR_ZERO_SECONDS :: f64 where
  "PROGRESS_NEAR_ZERO_SECONDS = Fin 60"
definition PROGRESS_BACKUPS_PER_BOOK :: nat where
  "PROGRESS_BACKUPS_PER_BOOK = 20"

definition progress_write_is_stale :: "string \<Rightarrow> f64 \<Rightarrow> bool" where
  "progress_write_is_stale stored_updated_at incoming_seconds \<longleftrightarrow>
     f64_lt (f64_add incoming_seconds PROGRESS_STALE_WRITE_SLACK_SECONDS)
       (progress_timestamp_seconds stored_updated_at)"

definition progress_write_is_suspect_reset :: "f64 \<Rightarrow> f64 \<Rightarrow> bool \<Rightarrow> bool" where
  "progress_write_is_suspect_reset previous incoming intentional \<longleftrightarrow>
     \<not> intentional \<and> f64_lt incoming PROGRESS_NEAR_ZERO_SECONDS
     \<and> f64_gt (f64_sub previous incoming) PROGRESS_BACKUP_REGRESSION_SECONDS"

definition progress_write_is_unintentional_regression :: "f64 \<Rightarrow> f64 \<Rightarrow> bool \<Rightarrow> bool" where
  "progress_write_is_unintentional_regression previous incoming intentional_seek \<longleftrightarrow>
     \<not> intentional_seek
     \<and> f64_lt (f64_add incoming PROGRESS_AUTOMATIC_REGRESSION_SLACK_SECONDS) previous"

definition carried_finished_override :: "progress option \<Rightarrow> f64 \<Rightarrow> bool \<Rightarrow> bool option" where
  "carried_finished_override previous incoming_book_position intentional_seek =
     (case previous of
        None \<Rightarrow> None
      | Some p \<Rightarrow>
          if intentional_seek \<and> pr_finished_override p = Some True
             \<and> f64_lt incoming_book_position PROGRESS_NEAR_ZERO_SECONDS
          then None else pr_finished_override p)"

datatype progress_decision = Keep | Store progress bool

definition incoming_progress :: "book \<Rightarrow> track \<Rightarrow> progress option \<Rightarrow> progress_update \<Rightarrow> u64 \<Rightarrow> progress" where
  "incoming_progress b t previous u now_millis =
     (let pos = clamped_track_position (pu_position_seconds u) (t_duration_seconds t);
          book_position = validated_book_position_seconds b t pos (pu_book_position_seconds u)
      in \<lparr>pr_book_id = b_id b, pr_track_id = t_id t, pr_position_seconds = pos,
          pr_book_position_seconds = book_position,
          pr_duration_seconds = (case pu_duration_seconds u of Some d \<Rightarrow> Some d | None \<Rightarrow> t_duration_seconds t),
          pr_updated_at = next_progress_timestamp previous now_millis,
          pr_finished_override = carried_finished_override previous book_position (pu_intentional_seek u),
          pr_recording = None\<rparr>)"

definition replayed :: "progress option \<Rightarrow> progress_update \<Rightarrow> u64 \<Rightarrow> bool" where
  "replayed previous u now_millis \<longleftrightarrow>
     (case (previous, pu_updated_at_ms u) of
        (Some p, Some ms) \<Rightarrow>
          progress_write_is_stale (pr_updated_at p)
            (f64_min (f64_div (f64_of_nat (unat ms)) (Fin 1000))
                     (f64_div (f64_of_nat (unat now_millis)) (Fin 1000)))
      | _ \<Rightarrow> False)"

definition decide_progress_write ::
  "book \<Rightarrow> track \<Rightarrow> progress option \<Rightarrow> progress_update \<Rightarrow> u64 \<Rightarrow> progress_decision" where
  "decide_progress_write b t stored u now_millis =
     (if replayed stored u now_millis then Keep
      else
        (let previous = map_option (enrich_progress b) stored;
             saved = incoming_progress b t previous u now_millis
         in case previous of
              None \<Rightarrow> Store saved False
            | Some p \<Rightarrow>
                if progress_write_is_unintentional_regression
                     (pr_book_position_seconds p) (pr_book_position_seconds saved)
                     (pu_intentional_seek u \<or> pu_intentional_regression u)
                then Keep
                else if progress_write_is_suspect_reset
                     (pr_book_position_seconds p) (pr_book_position_seconds saved)
                     (pu_intentional_regression u)
                then Keep
                else Store saved
                  (f64_gt (f64_sub (pr_book_position_seconds p) (pr_book_position_seconds saved))
                     PROGRESS_BACKUP_REGRESSION_SECONDS)))"

text \<open>How the incoming edit of the same recording compares with the stored one.\<close>

definition recording_order ::
  "progress option \<Rightarrow> progress_checkpoint \<Rightarrow> (u64 \<times> u64) option" where
  "recording_order previous c =
     (case (Option.bind previous pr_recording, cp_recording c) of
        (Some stored, Some incoming) \<Rightarrow>
          if pc_id stored = pc_id incoming then Some (pc_sequence incoming, pc_sequence stored) else None
      | _ \<Rightarrow> None)"

definition continues_recording :: "progress option \<Rightarrow> progress_checkpoint \<Rightarrow> bool" where
  "continues_recording previous c \<longleftrightarrow>
     (case recording_order previous c of Some (incoming, stored) \<Rightarrow> stored < incoming | None \<Rightarrow> False)"

definition stale_base :: "progress option \<Rightarrow> progress_checkpoint \<Rightarrow> bool" where
  "stale_base previous c \<longleftrightarrow>
     (case (previous, cp_base_updated_at c) of
        (Some p, Some base) \<Rightarrow> base \<noteq> pr_updated_at p
      | _ \<Rightarrow> False)"

definition ordered_update :: "progress option \<Rightarrow> progress_checkpoint \<Rightarrow> u64 \<Rightarrow> progress_update" where
  "ordered_update previous c now_millis =
     (cp_update c)\<lparr>pu_updated_at_ms :=
        (if cp_base_updated_at c \<noteq> None \<or> continues_recording previous c then None
         else server_domain_timestamp_ms (pu_updated_at_ms (cp_update c)) (cp_sent_at_ms c) now_millis)\<rparr>"

definition decide_progress_checkpoint ::
  "book \<Rightarrow> track \<Rightarrow> progress option \<Rightarrow> progress_checkpoint \<Rightarrow> u64 \<Rightarrow> progress_decision" where
  "decide_progress_checkpoint b t previous c now_millis =
     (if recording_order previous c \<noteq> None \<and> \<not> continues_recording previous c then Keep
      else if stale_base previous c \<and> \<not> continues_recording previous c then Keep
      else case decide_progress_write b t previous (ordered_update previous c now_millis) now_millis of
        Keep \<Rightarrow> Keep
      | Store saved backup \<Rightarrow> Store (saved\<lparr>pr_recording := cp_recording c\<rparr>) backup)"

section \<open>Completion requests\<close>

definition fresh_progress :: "book \<Rightarrow> track \<Rightarrow> progress option \<Rightarrow> u64 \<Rightarrow> progress" where
  "fresh_progress b first_track previous now_millis =
     \<lparr>pr_book_id = b_id b, pr_track_id = t_id first_track, pr_position_seconds = f64_zero,
      pr_book_position_seconds = f64_zero, pr_duration_seconds = t_duration_seconds first_track,
      pr_updated_at = next_progress_timestamp previous now_millis,
      pr_finished_override = None, pr_recording = None\<rparr>"

definition final_position_applied ::
  "book \<Rightarrow> progress option \<Rightarrow> completion_update \<Rightarrow> (track \<times> f64) option \<Rightarrow> u64 \<Rightarrow> progress \<Rightarrow> progress" where
  "final_position_applied b previous u final_position now_millis saved =
     (case final_position of
        None \<Rightarrow> saved
      | Some (t, pos) \<Rightarrow>
          saved\<lparr>pr_track_id := t_id t, pr_position_seconds := pos,
            pr_book_position_seconds :=
              validated_book_position_seconds b t pos (cu_book_position_seconds u),
            pr_duration_seconds :=
              (case cu_duration_seconds u of Some d \<Rightarrow> Some d | None \<Rightarrow> t_duration_seconds t),
            pr_updated_at := next_progress_timestamp previous now_millis\<rparr>)"

definition decide_completion_write ::
  "book \<Rightarrow> track \<Rightarrow> progress option \<Rightarrow> completion_update \<Rightarrow> (track \<times> f64) option \<Rightarrow> u64
   \<Rightarrow> progress_decision" where
  "decide_completion_write b first_track previous u final_position now_millis =
     (let start = (case previous of Some p \<Rightarrow> p | None \<Rightarrow> fresh_progress b first_track previous now_millis);
          saved = (final_position_applied b previous u final_position now_millis start)
                    \<lparr>pr_finished_override := Some (cu_finished u), pr_recording := None\<rparr>
      in Store saved
           (case previous of
              None \<Rightarrow> False
            | Some p \<Rightarrow>
                f64_gt (f64_sub (pr_book_position_seconds (enrich_progress b p))
                                (pr_book_position_seconds (enrich_progress b saved)))
                  PROGRESS_BACKUP_REGRESSION_SECONDS))"

section \<open>The store\<close>

text \<open>
  The tables \<open>progress\<close> and \<open>progress_backups\<close>, by listener and book; the copies of a
  book in the order of their row identifiers.
\<close>

record progress_store =
  ps_saved :: "string \<times> string \<Rightarrow> progress option"
  ps_backups :: "string \<times> string \<Rightarrow> progress list"

definition kept_backups :: "progress list \<Rightarrow> progress list" where
  "kept_backups rows = drop (length rows - PROGRESS_BACKUPS_PER_BOOK) rows"

definition update_book ::
  "string \<Rightarrow> string \<Rightarrow> (progress option \<Rightarrow> progress_decision) \<Rightarrow> progress_store
   \<Rightarrow> progress_store \<times> (progress \<times> progress option) option" where
  "update_book user_id book_id decide s =
     (let k = (user_id, book_id); previous = ps_saved s k in
      case decide previous of
        Keep \<Rightarrow> (s, map_option (\<lambda>kept. (kept, previous)) previous)
      | Store saved backup_previous \<Rightarrow>
          (s\<lparr>ps_saved := (ps_saved s)(k \<mapsto> saved),
             ps_backups := (case (backup_previous, previous) of
                 (True, Some p) \<Rightarrow> (ps_backups s)(k := kept_backups (ps_backups s k @ [p]))
               | _ \<Rightarrow> ps_backups s)\<rparr>,
           Some (saved, previous)))"

definition remove_user_progress :: "string \<Rightarrow> progress_store \<Rightarrow> progress_store" where
  "remove_user_progress user_id s =
     s\<lparr>ps_saved := (\<lambda>k. if fst k = user_id then None else ps_saved s k),
       ps_backups := (\<lambda>k. if fst k = user_id then [] else ps_backups s k)\<rparr>"

section \<open>Summaries\<close>

fun sum_known :: "f64 \<Rightarrow> track list \<Rightarrow> f64 option" where
  "sum_known acc [] = Some acc"
| "sum_known acc (t # ts) =
     (case positive_duration (t_duration_seconds t) of
        None \<Rightarrow> None
      | Some d \<Rightarrow> sum_known (f64_add acc d) ts)"

definition known_duration_from_tracks :: "book \<Rightarrow> f64 option" where
  "known_duration_from_tracks b = (if b_tracks b = [] then None else sum_known f64_zero (b_tracks b))"

definition known_duration :: "book \<Rightarrow> f64 option" where
  "known_duration b =
     (case positive_duration (b_duration_seconds b) of
        Some d \<Rightarrow> Some d
      | None \<Rightarrow> known_duration_from_tracks b)"

definition finished_by_position :: "f64 option \<Rightarrow> f64 option \<Rightarrow> f64 \<Rightarrow> bool" where
  "finished_by_position duration remaining pos \<longleftrightarrow>
     (case duration of
        None \<Rightarrow> False
      | Some d \<Rightarrow> f64_gt d f64_zero
          \<and> ((case remaining of Some r \<Rightarrow> f64_le r (Fin 30) | None \<Rightarrow> False)
             \<or> f64_ge (f64_div pos d) (f64_of_rat (995 / 1000))))"

definition book_progress_status_of ::
  "f64 option \<Rightarrow> f64 option \<Rightarrow> f64 \<Rightarrow> bool option \<Rightarrow> book_progress_status" where
  "book_progress_status_of duration remaining pos finished_override =
     (case finished_override of
        Some True \<Rightarrow> Finished
      | Some False \<Rightarrow> if f64_gt pos f64_zero then InProgress else NotStarted
      | None \<Rightarrow>
          if finished_by_position duration remaining pos then Finished
          else if f64_gt pos f64_zero then InProgress else NotStarted)"

definition summary_position :: "f64 option \<Rightarrow> f64 \<Rightarrow> f64" where
  "summary_position duration pos =
     (case duration of Some d \<Rightarrow> f64_clamp pos f64_zero d | None \<Rightarrow> f64_max pos f64_zero)"

definition summary_remaining :: "f64 option \<Rightarrow> f64 \<Rightarrow> f64 option" where
  "summary_remaining duration pos = map_option (\<lambda>d. f64_max (f64_sub d pos) f64_zero) duration"

definition summarize_book_progress :: "book \<Rightarrow> progress \<Rightarrow> book_progress" where
  "summarize_book_progress b p =
     (let enriched = enrich_progress b p; duration = known_duration b;
          pos = summary_position duration (pr_book_position_seconds enriched);
          remaining = summary_remaining duration pos
      in \<lparr>bp_status = book_progress_status_of duration remaining pos (pr_finished_override enriched),
          bp_finished_override = pr_finished_override enriched,
          bp_book_position_seconds = pos,
          bp_duration_seconds = duration,
          bp_remaining_seconds = remaining,
          bp_percent_complete =
            map_option (\<lambda>d. f64_clamp (f64_mul (f64_div pos d) (Fin 100)) f64_zero (Fin 100))
              (positive_duration duration),
          bp_updated_at = pr_updated_at enriched\<rparr>)"

definition playback_position_is_finished :: "book \<Rightarrow> progress \<Rightarrow> bool" where
  "playback_position_is_finished b p \<longleftrightarrow>
     bp_status (summarize_book_progress b (p\<lparr>pr_finished_override := None\<rparr>)) = Finished"

definition reached_position_seconds :: "book \<Rightarrow> progress \<Rightarrow> f64" where
  "reached_position_seconds b p = f64_max (bp_book_position_seconds (summarize_book_progress b p)) f64_zero"

section \<open>Listening time and the effects of a checkpoint\<close>

definition plausible_listened_delta :: "progress option \<Rightarrow> progress \<Rightarrow> bool \<Rightarrow> f64" where
  "plausible_listened_delta previous saved intentional_seek =
     (case previous of
        None \<Rightarrow> f64_zero
      | Some p \<Rightarrow>
          if intentional_seek then f64_zero
          else
            (let delta = f64_max (f64_sub (pr_book_position_seconds saved) (pr_book_position_seconds p)) f64_zero
             in if f64_le delta f64_zero then f64_zero
                else f64_min delta
                  (f64_add (f64_mul (f64_max (f64_sub (progress_timestamp_seconds (pr_updated_at saved))
                                                (progress_timestamp_seconds (pr_updated_at p))) f64_zero)
                              (f64_of_rat (21 / 10))) (Fin 5))))"

definition sanitized_playback_speed :: "f64 option \<Rightarrow> f64 option" where
  "sanitized_playback_speed speed =
     (case speed of
        Some rate \<Rightarrow>
          if f64_is_finite rate \<and> f64_le (Fin (1 / 4)) rate \<and> f64_le rate (Fin 4) then Some rate else None
      | None \<Rightarrow> None)"

definition sanitized_client_name :: "string option \<Rightarrow> string option" where
  "sanitized_client_name client =
     (case client of
        Some c \<Rightarrow> if c \<noteq> [] \<and> length c \<le> 64 \<and> list_all is_ascii_graphic c then Some c else None
      | None \<Rightarrow> None)"

text \<open>
  What the server keeps of a listener beside the position: the daily totals, the reading log
  with its open sittings, the completions and the works index.
\<close>

record listening =
  li_progress :: progress_store
  li_activity :: "(string \<times> string, f64) table"
  li_log :: log_state
  li_completions :: "completion_event list"
  li_works :: work_store

definition add_seconds :: "string \<Rightarrow> string \<Rightarrow> f64 \<Rightarrow> (string \<times> string, f64) table \<Rightarrow> (string \<times> string, f64) table" where
  "add_seconds user_id day delta m =
     tinsert (user_id, day)
       (f64_add (case tget m (user_id, day) of Some t \<Rightarrow> t | None \<Rightarrow> f64_zero) delta) m"

definition record_activity :: "string \<Rightarrow> f64 \<Rightarrow> int \<Rightarrow> u64 \<Rightarrow> listening \<Rightarrow> listening" where
  "record_activity user_id delta tz now s =
     s\<lparr>li_activity := add_seconds user_id (today_ymd now tz) delta (li_activity s)\<rparr>"

definition current_work_id :: "listening \<Rightarrow> string \<Rightarrow> string option" where
  "current_work_id s book_id = map_option w_id (work_for_book (li_works s) book_id)"

record listening_checkpoint =
  lc_listened_seconds :: f64
  lc_tz_offset_minutes :: int
  lc_speed :: "f64 option"
  lc_client :: "string option"

definition log_listening ::
  "string \<Rightarrow> book \<Rightarrow> progress \<Rightarrow> listening_checkpoint \<Rightarrow> u64 \<Rightarrow> string \<Rightarrow> listening \<Rightarrow> listening" where
  "log_listening user_id b saved c now new_id s =
     s\<lparr>li_log := record_listening
          \<lparr>ck_user_id = user_id, ck_book_id = b_id b, ck_work_id = current_work_id s (b_id b),
           ck_at_ms = progress_timestamp_millis (pr_updated_at saved),
           ck_listened_seconds = lc_listened_seconds c,
           ck_position_seconds = pr_book_position_seconds saved,
           ck_speed = lc_speed c, ck_client = lc_client c,
           ck_tz_offset_minutes = lc_tz_offset_minutes c,
           ck_today = today_ymd now (lc_tz_offset_minutes c)\<rparr> new_id (li_log s)\<rparr>"

definition snapshot_of :: "book \<Rightarrow> edition_snapshot" where
  "snapshot_of b =
     \<lparr>es_title = b_title b, es_author = b_author b, es_narrator = b_narrator b,
      es_duration_seconds = b_duration_seconds b, es_asin = b_asin b, es_isbn = None,
      es_publisher = ms_publisher (b_metadata b), es_published_date = b_published_date b,
      es_series = ms_series (b_metadata b), es_series_position = ms_series_position (b_metadata b),
      es_genres = b_genres b, es_track_count = b_track_count b\<rparr>"

definition record_completion ::
  "string \<Rightarrow> book \<Rightarrow> completion_source \<Rightarrow> int \<Rightarrow> u64 \<Rightarrow> u64 \<Rightarrow> string \<Rightarrow> listening \<Rightarrow> listening" where
  "record_completion user_id b source tz now now_millis new_id s =
     s\<lparr>li_completions := li_completions s @
        [\<lparr>ce_id = new_id, ce_user_id = user_id, ce_book_id = b_id b,
          ce_work_id = current_work_id s (b_id b), ce_finished_at_ms = now_millis,
          ce_source = source, ce_tz_offset_minutes = tz, ce_finished_on = today_ymd now tz,
          ce_snapshot = snapshot_of b\<rparr>]\<rparr>"

record progress_bookkeeping =
  bk_intentional_seek :: bool
  bk_tz_offset_minutes :: "int option"
  bk_speed :: "f64 option"
  bk_client :: "string option"
  bk_completion_source :: "completion_source option"

text \<open>The clock in seconds and milliseconds and two fresh identifiers.\<close>

record request_env =
  re_now :: u64
  re_now_millis :: u64
  re_session_id :: string
  re_completion_id :: string

definition record_progress_bookkeeping ::
  "request_env \<Rightarrow> string \<Rightarrow> book \<Rightarrow> progress \<Rightarrow> progress option \<Rightarrow> progress_bookkeeping
   \<Rightarrow> listening \<Rightarrow> listening" where
  "record_progress_bookkeeping env user_id b saved stored k s =
     (let tz = sanitized_tz_offset_minutes (bk_tz_offset_minutes k);
          previous = map_option (enrich_progress b) stored;
          delta = plausible_listened_delta previous saved (bk_intentional_seek k);
          logged =
            (if f64_gt delta f64_zero
             then log_listening user_id b saved
                    \<lparr>lc_listened_seconds = delta, lc_tz_offset_minutes = tz,
                     lc_speed = sanitized_playback_speed (bk_speed k),
                     lc_client = sanitized_client_name (bk_client k)\<rparr> (re_now env) (re_session_id env)
                    (record_activity user_id delta tz (re_now env) s)
             else s);
          was_finished = (case previous of Some p \<Rightarrow> playback_position_is_finished b p | None \<Rightarrow> False)
      in case bk_completion_source k of
           None \<Rightarrow> logged
         | Some source \<Rightarrow>
             if \<not> was_finished \<and> playback_position_is_finished b saved
             then record_completion user_id b source tz (re_now env) (re_now_millis env)
                    (re_completion_id env) logged
             else logged)"

section \<open>The handlers\<close>

definition find_book :: "book list \<Rightarrow> string \<Rightarrow> book result" where
  "find_book library book_id =
     (case List.find (\<lambda>b. b_id b = book_id) library of
        Some b \<Rightarrow> Inr b | None \<Rightarrow> Inl (not_found ''Book not found''))"

definition find_track :: "book \<Rightarrow> string \<Rightarrow> track result" where
  "find_track b track_id =
     (case List.find (\<lambda>t. t_id t = track_id) (b_tracks b) of
        Some t \<Rightarrow> Inr t | None \<Rightarrow> Inl (not_found ''Track not found''))"

definition kept_without_position :: api_error where
  "kept_without_position = internal ''progress was kept without a stored position''"

text \<open>Whether the reply may say that this very checkpoint is what is stored.\<close>

definition checkpoint_accepted ::
  "book \<Rightarrow> track \<Rightarrow> progress_checkpoint \<Rightarrow> progress \<Rightarrow> progress option \<Rightarrow> bool" where
  "checkpoint_accepted b t c saved previous \<longleftrightarrow>
     (case previous of None \<Rightarrow> True | Some p \<Rightarrow> pr_updated_at p \<noteq> pr_updated_at saved)
     \<or> (cp_recording c \<noteq> None \<and> cp_recording c = pr_recording saved \<and> pr_track_id saved = t_id t
        \<and> f64_eq (pr_position_seconds saved)
            (clamped_track_position (pu_position_seconds (cp_update c)) (t_duration_seconds t))
        \<and> f64_eq (pr_book_position_seconds saved)
            (validated_book_position_seconds b t (pr_position_seconds saved)
              (pu_book_position_seconds (cp_update c))))"

definition update_progress ::
  "request_env \<Rightarrow> book list \<Rightarrow> auth_user \<Rightarrow> string \<Rightarrow> progress_checkpoint \<Rightarrow> listening
   \<Rightarrow> listening \<times> (progress \<times> bool) result" where
  "update_progress env library auth book_id c s =
     (case bind (require_book_access auth book_id) (\<lambda>_.
             if (case cp_recording c of Some r \<Rightarrow> \<not> recording_is_valid r | None \<Rightarrow> False)
             then Inl (bad_request ''Invalid progress recording identifier or sequence.'')
             else bind (find_book library book_id) (\<lambda>b.
                  bind (find_track b (pu_track_id (cp_update c))) (\<lambda>t. Inr (b, t)))) of
        Inl e \<Rightarrow> (s, Inl e)
      | Inr (b, t) \<Rightarrow>
          (case update_book (a_id auth) (b_id b)
                  (\<lambda>previous. decide_progress_checkpoint b t previous c (re_now_millis env)) (li_progress s) of
             (store, None) \<Rightarrow> (s, Inl kept_without_position)
           | (store, Some (saved, previous)) \<Rightarrow>
               (record_progress_bookkeeping env (a_id auth) b saved previous
                  \<lparr>bk_intentional_seek = pu_intentional_seek (cp_update c),
                   bk_tz_offset_minutes = pu_tz_offset_minutes (cp_update c),
                   bk_speed = pu_speed (cp_update c), bk_client = pu_client (cp_update c),
                   bk_completion_source = Some Reached\<rparr> (s\<lparr>li_progress := store\<rparr>),
                Inr (saved, checkpoint_accepted b t c saved previous))))"

definition requested_final_position :: "book \<Rightarrow> completion_update \<Rightarrow> (track \<times> f64) option result" where
  "requested_final_position b u =
     (case (cu_track_id u, cu_position_seconds u) of
        (None, None) \<Rightarrow> Inr None
      | (Some track_id, Some pos) \<Rightarrow>
          bind (find_track b track_id) (\<lambda>t.
            Inr (Some (t, clamped_track_position pos (t_duration_seconds t))))
      | _ \<Rightarrow> Inl (bad_request ''Completion position requires both trackId and positionSeconds.''))"

definition update_book_completion ::
  "request_env \<Rightarrow> book list \<Rightarrow> auth_user \<Rightarrow> string \<Rightarrow> completion_update \<Rightarrow> listening
   \<Rightarrow> listening \<times> book_progress result" where
  "update_book_completion env library auth book_id u s =
     (case bind (require_book_access auth book_id) (\<lambda>_.
             bind (find_book library book_id) (\<lambda>b.
             case b_tracks b of
               [] \<Rightarrow> Inl (bad_request ''This book has no playable tracks.'')
             | first # _ \<Rightarrow> bind (requested_final_position b u) (\<lambda>final. Inr (b, first, final)))) of
        Inl e \<Rightarrow> (s, Inl e)
      | Inr (b, first, final) \<Rightarrow>
          (case update_book (a_id auth) (b_id b)
                  (\<lambda>previous. decide_completion_write b first previous u final (re_now_millis env)) (li_progress s) of
             (store, None) \<Rightarrow> (s, Inl kept_without_position)
           | (store, Some (saved, previous)) \<Rightarrow>
               (let was_finished = (case previous of Some p \<Rightarrow> playback_position_is_finished b p | None \<Rightarrow> False);
                    s' = s\<lparr>li_progress := store\<rparr>
                in (if final \<noteq> None \<and> cu_finished u \<and> \<not> was_finished
                    then record_completion (a_id auth) b Reached
                           (sanitized_tz_offset_minutes (cu_tz_offset_minutes u)) (re_now env)
                           (re_now_millis env) (re_completion_id env) s'
                    else s',
                    Inr (summarize_book_progress b saved)))))"

definition get_progress :: "book list \<Rightarrow> auth_user \<Rightarrow> string \<Rightarrow> listening \<Rightarrow> progress option result" where
  "get_progress library auth book_id s =
     bind (require_book_access auth book_id) (\<lambda>_.
       Inr (map_option (\<lambda>saved.
              case List.find (\<lambda>b. b_id b = book_id) library of
                Some b \<Rightarrow> enrich_progress b saved | None \<Rightarrow> saved)
            (ps_saved (li_progress s) (a_id auth, book_id))))"

section \<open>A finish inherited from another edition\<close>

record finished_works =
  fw_work_by_book :: "(string, string) table"
  fw_finished_at :: "(string \<times> string, string) table"

definition fw_record :: "string \<Rightarrow> string \<Rightarrow> string \<Rightarrow> finished_works \<Rightarrow> finished_works" where
  "fw_record user_id work_id updated_at f =
     (let latest = (case tget (fw_finished_at f) (user_id, work_id) of Some l \<Rightarrow> l | None \<Rightarrow> [])
      in f\<lparr>fw_finished_at := tinsert (user_id, work_id)
             (if progress_timestamp_millis latest \<le> progress_timestamp_millis updated_at
              then updated_at else latest) (fw_finished_at f)\<rparr>)"

definition edition_finished :: "work \<Rightarrow> progress \<Rightarrow> bool" where
  "edition_finished w saved \<longleftrightarrow>
     (case pr_finished_override saved of
        Some choice \<Rightarrow> choice
      | None \<Rightarrow>
          (let pos = f64_max (pr_book_position_seconds saved) f64_zero
           in book_progress_status_of (w_duration_seconds w)
                (summary_remaining (w_duration_seconds w) pos) pos None = Finished))"

type_synonym saved_progress = "(string, progress) table"

definition index_edition ::
  "saved_progress \<Rightarrow> work \<Rightarrow> string \<Rightarrow> string \<Rightarrow> finished_works \<Rightarrow> finished_works" where
  "index_edition saved w user_id book_id f =
     (case tget saved (progress_key user_id book_id) of
        None \<Rightarrow> f
      | Some p \<Rightarrow> if edition_finished w p then fw_record user_id (w_id w) (pr_updated_at p) f else f)"

definition index_work ::
  "saved_progress \<Rightarrow> string list \<Rightarrow> work \<Rightarrow> finished_works \<Rightarrow> finished_works" where
  "index_work saved user_ids w f =
     fold (\<lambda>user_id. fold (index_edition saved w user_id) (w_book_ids w)) user_ids
       (f\<lparr>fw_work_by_book :=
            fold (\<lambda>book_id. tinsert book_id (w_id w)) (w_book_ids w) (fw_work_by_book f)\<rparr>)"

definition index_completion ::
  "saved_progress \<Rightarrow> string list \<Rightarrow> completion_event \<Rightarrow> finished_works \<Rightarrow> finished_works" where
  "index_completion saved user_ids c f =
     (if ce_user_id c \<notin> set user_ids then f
      else if (case tget saved (progress_key (ce_user_id c) (ce_book_id c)) of
                 None \<Rightarrow> False | Some p \<Rightarrow> pr_finished_override p = Some False)
      then f
      else case tget (fw_work_by_book f) (ce_book_id c) of
        None \<Rightarrow> f
      | Some work_id \<Rightarrow> fw_record (ce_user_id c) work_id (dec (unat (ce_finished_at_ms c))) f)"

definition for_book_ids ::
  "work_store \<Rightarrow> string set \<Rightarrow> saved_progress \<Rightarrow> completion_event list \<Rightarrow> string list \<Rightarrow> finished_works" where
  "for_book_ids store requested saved completions user_ids =
     fold (index_completion saved user_ids) completions
       (fold (index_work saved user_ids)
         (filter (\<lambda>w. \<exists>i \<in> set (w_book_ids w). i \<in> requested) (works store))
         \<lparr>fw_work_by_book = [], fw_finished_at = []\<rparr>)"

definition finished_at :: "finished_works \<Rightarrow> string \<Rightarrow> string \<Rightarrow> string option" where
  "finished_at f user_id book_id =
     Option.bind (tget (fw_work_by_book f) book_id) (\<lambda>work_id. tget (fw_finished_at f) (user_id, work_id))"

definition inherited_finish :: "book \<Rightarrow> string \<Rightarrow> book_progress" where
  "inherited_finish b updated_at =
     \<lparr>bp_status = Finished, bp_finished_override = None, bp_book_position_seconds = f64_zero,
      bp_duration_seconds = known_duration b, bp_remaining_seconds = known_duration b,
      bp_percent_complete = map_option (\<lambda>_. f64_zero) (known_duration b),
      bp_updated_at = updated_at\<rparr>"

definition progress_for_reader ::
  "book \<Rightarrow> string \<Rightarrow> saved_progress \<Rightarrow> finished_works \<Rightarrow> book_progress option" where
  "progress_for_reader b user_id saved f =
     (let own = tget saved (progress_key user_id (b_id b));
          current = map_option (summarize_book_progress b) own
      in if (case own of Some p \<Rightarrow> pr_finished_override p \<noteq> None | None \<Rightarrow> False)
            \<or> (case current of Some p \<Rightarrow> bp_status p \<noteq> NotStarted | None \<Rightarrow> False)
         then current
         else case finished_at f user_id (b_id b) of
           None \<Rightarrow> current
         | Some updated_at \<Rightarrow> Some (inherited_finish b updated_at))"

section \<open>Sharing\<close>

definition visible_sharers :: "user list \<Rightarrow> auth_user \<Rightarrow> (string \<times> ustr) list" where
  "visible_sharers us auth =
     (if \<not> a_share_progress auth then []
      else map (\<lambda>u. (u_id u, u_username u))
             (filter (\<lambda>u. u_share_progress u \<and> u_id u \<noteq> a_id auth) us))"

definition share_rank :: "shared_progress \<Rightarrow> nat" where
  "share_rank e = (case sp_status e of Finished \<Rightarrow> 0 | InProgress \<Rightarrow> 1 | NotStarted \<Rightarrow> 2)"

definition share_percent :: "shared_progress \<Rightarrow> f64" where
  "share_percent e = (case sp_percent_complete e of Some p \<Rightarrow> p | None \<Rightarrow> f64_zero)"

definition listed_before :: "shared_progress \<Rightarrow> shared_progress \<Rightarrow> bool" where
  "listed_before a b \<longleftrightarrow>
     share_rank a < share_rank b
     \<or> (share_rank a = share_rank b \<and> f64_gt (share_percent a) (share_percent b))"

text \<open>\<open>sort_by\<close>: a stable sort by a strict order.\<close>

fun insert_by :: "('a \<Rightarrow> 'a \<Rightarrow> bool) \<Rightarrow> 'a \<Rightarrow> 'a list \<Rightarrow> 'a list" where
  "insert_by lt x [] = [x]"
| "insert_by lt x (y # ys) = (if lt y x then y # insert_by lt x ys else x # y # ys)"

definition sort_by :: "('a \<Rightarrow> 'a \<Rightarrow> bool) \<Rightarrow> 'a list \<Rightarrow> 'a list" where
  "sort_by lt xs = foldr (insert_by lt) xs []"

definition shared_entry ::
  "book \<Rightarrow> saved_progress \<Rightarrow> finished_works \<Rightarrow> string \<times> ustr \<Rightarrow> shared_progress option" where
  "shared_entry b saved f sharer =
     (case progress_for_reader b (fst sharer) saved f of
        None \<Rightarrow> None
      | Some summary \<Rightarrow>
          if bp_status summary = NotStarted then None
          else Some \<lparr>sp_user_id = fst sharer, sp_username = snd sharer, sp_status = bp_status summary,
                     sp_percent_complete = bp_percent_complete summary,
                     sp_updated_at = bp_updated_at summary\<rparr>)"

definition collect_shared_progress ::
  "book \<Rightarrow> saved_progress \<Rightarrow> (string \<times> ustr) list \<Rightarrow> finished_works \<Rightarrow> shared_progress list" where
  "collect_shared_progress b saved sharers f =
     sort_by listed_before (List.map_filter (shared_entry b saved f) sharers)"

section \<open>Revisions only grow\<close>

lemma parsed_timestamp_dec: "parsed_timestamp (dec n) = f64_of_nat n"
  by (simp add: parsed_timestamp_def parse_f64_dec)

lemma millis_dec:
  assumes "1000000000000 \<le> n" "n < 2 ^ 53"
  shows "progress_timestamp_millis (dec n) = of_nat n"
proof -
  have v: "parsed_timestamp (dec n) = Fin (of_nat n)"
    using assms(2) by (simp add: parsed_timestamp_dec f64_of_nat_exact)
  have "(of_nat 1000000000000 :: rat) \<le> of_nat n" using assms(1) by (simp only: of_nat_le_iff)
  then have "of_nat n \<ge> (1000000000000 :: rat)" by simp
  then have "f64_max (Fin (of_nat n)) f64_zero = Fin (of_nat n)" "f64_ge (Fin (of_nat n)) SECONDS_LIMIT"
    by (simp_all add: SECONDS_LIMIT_def max_def)
  moreover have "int n < 2 ^ 64" using assms(2) by simp
  ultimately show ?thesis by (simp add: progress_timestamp_millis_def v)
qed

definition revision :: "progress \<Rightarrow> u64" where
  "revision p = progress_timestamp_millis (pr_updated_at p)"

lemma next_revision:
  assumes "1000000000000 \<le> now" "unat now < 2 ^ 53" "unat (previous_millis previous) + 1 < 2 ^ 53"
  shows "unat (progress_timestamp_millis (next_progress_timestamp previous now))
      = max (unat now) (unat (previous_millis previous) + 1)"
proof -
  let ?n = "unat (max now (sat_add (previous_millis previous) 1))"
  have n: "?n = max (unat now) (unat (previous_millis previous) + 1)"
    using assms(3) by (simp add: max_def word_le_nat_alt unat_sat_add)
  have "1000000000000 \<le> unat now" using assms(1) by (simp add: word_le_nat_alt)
  then have "1000000000000 \<le> ?n" "?n < 2 ^ 53" using assms(2,3) unfolding n by simp_all
  then have "progress_timestamp_millis (next_progress_timestamp previous now) = of_nat ?n"
    unfolding next_progress_timestamp_def by (rule millis_dec)
  then have "progress_timestamp_millis (next_progress_timestamp previous now)
      = max now (sat_add (previous_millis previous) 1)" by simp
  then show ?thesis using n by (simp only:)
qed

lemma enrich_keeps [simp]:
  "pr_updated_at (enrich_progress b p) = pr_updated_at p"
  "pr_finished_override (enrich_progress b p) = pr_finished_override p"
  "pr_recording (enrich_progress b p) = pr_recording p"
  "pr_track_id (enrich_progress b p) = pr_track_id p"
  "pr_position_seconds (enrich_progress b p) = pr_position_seconds p"
  by (simp_all add: enrich_progress_def split: option.splits)

lemma previous_millis_enrich [simp]:
  "previous_millis (map_option (enrich_progress b) p) = previous_millis p"
  "next_progress_timestamp (map_option (enrich_progress b) p) now = next_progress_timestamp p now"
  by (auto simp: previous_millis_def next_progress_timestamp_def split: option.splits)

lemma decide_write_Store:
  assumes "decide_progress_write b t stored u now = Store saved backup"
  shows "saved = incoming_progress b t (map_option (enrich_progress b) stored) u now"
    and "backup = (case stored of None \<Rightarrow> False
      | Some p \<Rightarrow> f64_gt (f64_sub (pr_book_position_seconds (enrich_progress b p)) (pr_book_position_seconds saved))
          PROGRESS_BACKUP_REGRESSION_SECONDS)"
  using assms by (auto simp: decide_progress_write_def Let_def split: option.splits if_splits)

lemma decide_checkpoint_Store:
  assumes "decide_progress_checkpoint b t previous c now = Store saved backup"
  shows "\<exists>raw. decide_progress_write b t previous (ordered_update previous c now) now = Store raw backup
    \<and> saved = raw\<lparr>pr_recording := cp_recording c\<rparr>"
  using assms by (auto simp: decide_progress_checkpoint_def split: if_splits progress_decision.splits)

lemma stored_checkpoint_revision:
  assumes "decide_progress_checkpoint b t previous c now = Store saved backup"
  shows "pr_updated_at saved = next_progress_timestamp previous now" "pr_recording saved = cp_recording c"
    "pr_track_id saved = t_id t"
  using assms
  by (auto dest!: decide_checkpoint_Store decide_write_Store(1) simp: incoming_progress_def Let_def)

lemma stored_completion_revision:
  assumes "decide_completion_write b first previous u final now = Store saved backup" "previous = Some p"
  shows "pr_updated_at saved = pr_updated_at p \<or> pr_updated_at saved = next_progress_timestamp previous now"
  using assms
  by (auto simp: decide_completion_write_def final_position_applied_def Let_def split: option.splits)

text \<open>The writes of one listener to one book.\<close>

datatype progress_event =
    Check track progress_checkpoint u64
  | Complete track completion_update "(track \<times> f64) option" u64

fun event_decision :: "book \<Rightarrow> progress_event \<Rightarrow> progress option \<Rightarrow> progress_decision" where
  "event_decision b (Check t c now) previous = decide_progress_checkpoint b t previous c now"
| "event_decision b (Complete first u final now) previous =
     decide_completion_write b first previous u final now"

fun event_time :: "progress_event \<Rightarrow> u64" where
  "event_time (Check t c now) = now"
| "event_time (Complete first u final now) = now"

definition progress_step :: "string \<Rightarrow> book \<Rightarrow> progress_event \<Rightarrow> progress_store \<Rightarrow> progress_store" where
  "progress_step user_id b e s = fst (update_book user_id (b_id b) (event_decision b e) s)"

definition progress_run :: "string \<Rightarrow> book \<Rightarrow> progress_event list \<Rightarrow> progress_store \<Rightarrow> progress_store" where
  "progress_run user_id b es s = fold (progress_step user_id b) es s"

lemma saved_after_step:
  "ps_saved (progress_step user_id b e s) (user_id, b_id b) =
     (case event_decision b e (ps_saved s (user_id, b_id b)) of
        Keep \<Rightarrow> ps_saved s (user_id, b_id b) | Store saved backup \<Rightarrow> Some saved)"
  by (auto simp: progress_step_def update_book_def Let_def split: progress_decision.splits)

definition clock_ok :: "nat \<Rightarrow> progress_event list \<Rightarrow> bool" where
  "clock_ok limit es \<longleftrightarrow>
     list_all (\<lambda>e. 1000000000000 \<le> event_time e \<and> unat (event_time e) \<le> limit) es
     \<and> limit + length es + 1 < 2 ^ 53"

lemma step_revision:
  assumes p: "ps_saved s (user_id, b_id b) = Some p"
    and now: "1000000000000 \<le> event_time e" "unat (event_time e) < 2 ^ 53" "unat (revision p) + 1 < 2 ^ 53"
  shows "\<exists>q. ps_saved (progress_step user_id b e s) (user_id, b_id b) = Some q
      \<and> (pr_updated_at q = pr_updated_at p
         \<or> unat (revision q) = max (unat (event_time e)) (unat (revision p) + 1))"
proof (cases "event_decision b e (Some p)")
  case Keep
  then show ?thesis using p by (simp add: saved_after_step)
next
  case (Store q backup)
  have "pr_updated_at q = pr_updated_at p \<or> pr_updated_at q = next_progress_timestamp (Some p) (event_time e)"
    using Store stored_checkpoint_revision(1) stored_completion_revision [OF _ refl] by (cases e) auto
  then have "pr_updated_at q = pr_updated_at p
      \<or> unat (revision q) = max (unat (event_time e)) (unat (revision p) + 1)"
    using next_revision [OF now(1,2), of "Some p"] now(3) by (auto simp: revision_def previous_millis_def)
  then show ?thesis using p Store by (simp add: saved_after_step)
qed

lemma run_revision:
  assumes "ps_saved s (user_id, b_id b) = Some p" "clock_ok limit es" "unat (revision p) \<le> limit"
  shows "\<exists>q. ps_saved (progress_run user_id b es s) (user_id, b_id b) = Some q
      \<and> (pr_updated_at q = pr_updated_at p \<or> unat (revision p) < unat (revision q))
      \<and> unat (revision q) \<le> limit + length es"
  using assms
proof (induction es arbitrary: s p limit)
  case Nil
  then show ?case by (simp add: progress_run_def)
next
  case (Cons e es)
  have now: "1000000000000 \<le> event_time e" "unat (event_time e) < 2 ^ 53" "unat (revision p) + 1 < 2 ^ 53"
    using Cons.prems(2,3) by (auto simp: clock_ok_def)
  obtain q where q: "ps_saved (progress_step user_id b e s) (user_id, b_id b) = Some q"
    "pr_updated_at q = pr_updated_at p
       \<or> unat (revision q) = max (unat (event_time e)) (unat (revision p) + 1)"
    using step_revision [OF Cons.prems(1) now] by blast
  have bound: "unat (revision q) \<le> limit + 1"
    using q(2) Cons.prems(2,3) by (auto simp: revision_def clock_ok_def)
  have clock: "clock_ok (limit + 1) es" using Cons.prems(2) by (auto simp: clock_ok_def list_all_iff)
  obtain r where r: "ps_saved (progress_run user_id b es (progress_step user_id b e s)) (user_id, b_id b) = Some r"
    "pr_updated_at r = pr_updated_at q \<or> unat (revision q) < unat (revision r)"
    "unat (revision r) \<le> limit + 1 + length es"
    using Cons.IH [OF q(1) clock bound] by blast
  have "pr_updated_at r = pr_updated_at p \<or> unat (revision p) < unat (revision r)"
    using q(2) r(2) by (auto simp: revision_def)
  then show ?case using r(1,3) by (simp add: progress_run_def)
qed

text \<open>C24: Optimistic concurrency. Once a position has been replaced, a checkpoint based on the
  replaced revision is refused for good, however many writes of either kind happen before it
  arrives and whatever its timestamps say; only the device that is continuing the recording
  stored last may go on without having seen the newer revision.\<close>

theorem replaced_revision_refused:
  assumes "ps_saved s (user_id, b_id b) = Some p"
    and "ps_saved (progress_run user_id b es s) (user_id, b_id b) = Some q"
    and "pr_updated_at q \<noteq> pr_updated_at p"
    and "clock_ok limit (es @ fs)" and "unat (revision p) \<le> limit"
    and "cp_base_updated_at c = Some (pr_updated_at p)"
    and "ps_saved (progress_run user_id b (es @ fs) s) (user_id, b_id b) = Some r"
    and "\<not> continues_recording (Some r) c"
  shows "decide_progress_checkpoint b t (Some r) c now = Keep
    \<and> progress_step user_id b (Check t c now) (progress_run user_id b (es @ fs) s)
        = progress_run user_id b (es @ fs) s"
proof -
  let ?s = "progress_run user_id b es s"
  have es: "clock_ok limit es" using assms(4) by (auto simp: clock_ok_def)
  have fs: "clock_ok (limit + length es) fs"
    using assms(4) by (auto simp: clock_ok_def list_all_iff intro: trans_le_add1)
  have newer: "unat (revision p) < unat (revision q)" and bound: "unat (revision q) \<le> limit + length es"
    using run_revision [OF assms(1) es assms(5)] assms(2,3) by auto
  have run: "progress_run user_id b (es @ fs) s = progress_run user_id b fs ?s"
    by (simp add: progress_run_def)
  have "pr_updated_at r = pr_updated_at q \<or> unat (revision q) < unat (revision r)"
    using run_revision [OF assms(2) fs bound] assms(7) unfolding run by auto
  then have "pr_updated_at r \<noteq> pr_updated_at p" using newer by (auto simp: revision_def)
  then have keep: "decide_progress_checkpoint b t (Some r) c now = Keep"
    using assms(6,8) by (auto simp: decide_progress_checkpoint_def stale_base_def)
  then show ?thesis using assms(7)
    by (simp add: progress_step_def update_book_def Let_def)
qed

section \<open>A lost place can be recovered\<close>

text \<open>How far a write drops the whole-book position, as the write itself measures it.\<close>

fun dropped_place :: "book \<Rightarrow> progress_event \<Rightarrow> progress \<Rightarrow> progress \<Rightarrow> bool" where
  "dropped_place b (Check t c now) p q \<longleftrightarrow>
     f64_gt (f64_sub (pr_book_position_seconds (enrich_progress b p)) (pr_book_position_seconds q)) (Fin 300)"
| "dropped_place b (Complete first u final now) p q \<longleftrightarrow>
     f64_gt (f64_sub (pr_book_position_seconds (enrich_progress b p))
                     (pr_book_position_seconds (enrich_progress b q))) (Fin 300)"

lemma enrich_recording [simp]:
  "pr_book_position_seconds (enrich_progress b (p\<lparr>pr_recording := r\<rparr>))
     = pr_book_position_seconds (enrich_progress b p)"
  by (simp add: enrich_progress_def split: option.splits)

lemma event_backup:
  assumes "event_decision b e (Some p) = Store q backup"
  shows "backup = dropped_place b e p q"
proof (cases e)
  case (Check t c now)
  then show ?thesis using assms
    by (auto dest!: decide_checkpoint_Store decide_write_Store(2) simp: PROGRESS_BACKUP_REGRESSION_SECONDS_def)
next
  case (Complete first u final now)
  then show ?thesis using assms
    by (auto simp: decide_completion_write_def Let_def PROGRESS_BACKUP_REGRESSION_SECONDS_def)
qed


section \<open>Retries and refusals\<close>

lemma f64_max_zero_not_NaN [simp]: "f64_max x f64_zero \<noteq> NaN"
  by (simp add: f64_max_def)

lemma clamped_not_NaN [simp]: "clamped_track_position x d \<noteq> NaN"
proof (cases "positive_duration d")
  case None
  then show ?thesis by (simp add: clamped_track_position_def)
next
  case (Some m)
  then have "m \<noteq> NaN" by (auto simp: positive_duration_def split: option.splits if_splits)
  then show ?thesis using Some f64_min_cases [of "f64_max x f64_zero" m] f64_max_zero_not_NaN [of x]
    by (auto simp: clamped_track_position_def)
qed

lemma f64_sum_nonneg:
  "\<forall>x \<in> set xs. f64_le f64_zero x \<Longrightarrow> f64_le f64_zero acc \<Longrightarrow> f64_le f64_zero (foldl f64_add acc xs)"
  by (induction xs arbitrary: acc) (auto intro: f64_add_nonneg)

lemma validated_not_NaN: "validated_book_position_seconds b t x r \<noteq> NaN"
proof (cases "list_all (\<lambda>c. case t_duration_seconds c of Some d \<Rightarrow> f64_gt d f64_zero | None \<Rightarrow> False)
    (tracks_before b t)")
  case True
  have "f64_le f64_zero (case t_duration_seconds c of Some d \<Rightarrow> d | None \<Rightarrow> f64_zero)"
    if "c \<in> set (tracks_before b t)" for c
    using True that by (auto simp: list_all_iff split: option.splits intro: f64_lt_imp_le)
  then have "f64_le f64_zero (f64_sum (map (\<lambda>c. case t_duration_seconds c of Some d \<Rightarrow> d | None \<Rightarrow> f64_zero)
      (tracks_before b t)))"
    unfolding f64_sum_def by (intro f64_sum_nonneg) auto
  then have "f64_le f64_zero (book_position_seconds b t x)"
    unfolding book_position_seconds_def by (intro f64_add_nonneg) simp_all
  then have "book_position_seconds b t x \<noteq> NaN" using f64_le_not_NaN by blast
  then show ?thesis using True by (simp add: validated_book_position_seconds_def)
next
  case False
  then show ?thesis by (simp add: validated_book_position_seconds_def)
qed

text \<open>C26: An exact retry is safe. When a checkpoint of a recording has been stored and its reply was
  lost, sending it again at any later time stores nothing and is answered as accepted, with the
  position it stored the first time.\<close>

theorem retry_is_idempotent:
  assumes "decide_progress_checkpoint b t previous c now = Store saved backup"
    and "cp_recording c = Some r" and "ps_saved s (user_id, b_id b) = Some saved"
  shows "update_book user_id (b_id b) (\<lambda>p. decide_progress_checkpoint b t p c later) s
      = (s, Some (saved, Some saved))
    \<and> checkpoint_accepted b t c saved (Some saved)"
proof -
  have rec: "pr_recording saved = Some r" using stored_checkpoint_revision(2) [OF assms(1)] assms(2) by simp
  then have "recording_order (Some saved) c = Some (pc_sequence r, pc_sequence r)"
    using assms(2) by (simp add: recording_order_def)
  then have keep: "decide_progress_checkpoint b t (Some saved) c later = Keep"
    by (simp add: decide_progress_checkpoint_def continues_recording_def)
  obtain raw where raw: "decide_progress_write b t previous (ordered_update previous c now) now = Store raw backup"
    "saved = raw\<lparr>pr_recording := cp_recording c\<rparr>"
    using decide_checkpoint_Store [OF assms(1)] by blast
  have pos: "pr_position_seconds saved
      = clamped_track_position (pu_position_seconds (cp_update c)) (t_duration_seconds t)"
    "pr_book_position_seconds saved = validated_book_position_seconds b t (pr_position_seconds saved)
        (pu_book_position_seconds (cp_update c))"
    using decide_write_Store(1) [OF raw(1)] raw(2)
    by (simp_all add: incoming_progress_def ordered_update_def Let_def)
  have "checkpoint_accepted b t c saved (Some saved)"
    using assms(2) rec pos stored_checkpoint_revision(3) [OF assms(1)] validated_not_NaN
    by (simp add: checkpoint_accepted_def f64_eq_def)
  then show ?thesis using keep assms(3) by (simp add: update_book_def Let_def)
qed

lemma keep_needs_position:
  "decide_progress_checkpoint b t previous c now = Keep \<Longrightarrow> previous \<noteq> None"
  by (cases previous)
    (auto simp: decide_progress_checkpoint_def decide_progress_write_def recording_order_def stale_base_def
      replayed_def Let_def split: if_splits)

lemma f64_of_rat_le_0: "x \<le> 0 \<Longrightarrow> f64_le (f64_of_rat x) f64_zero"
  using f64_of_rat_ge_0 [of "- x"] f64_of_rat_neg [of "- x"]
  by (cases "f64_of_rat (- x)") (auto simp: f64_le_def f64_eq_def)

text \<open>A position that did not move, or was only derived, is no listening.\<close>

lemma no_delta:
  assumes "f64_le a b \<or> a = b"
  shows "f64_max (f64_sub a b) f64_zero = f64_zero"
proof (cases "\<exists>x y. a = Fin x \<and> b = Fin y")
  case True
  then obtain x y where xy: "a = Fin x" "b = Fin y" by blast
  then have "x \<le> y" using assms by auto
  then have "f64_le (f64_of_rat (x - y)) f64_zero" by (intro f64_of_rat_le_0) simp
  then show ?thesis using xy by (auto simp: f64_sub_def f64_max_def f64_le_def f64_eq_def)
next
  case False
  then show ?thesis using assms
    by (cases a; cases b) (auto simp: f64_sub_def f64_max_def f64_le_def f64_eq_def)
qed

lemma book_position_nonneg_or_NaN:
  assumes "f64_le p f64_zero" "q = book_position_seconds b t x"
    and "\<forall>c \<in> set (b_tracks b). \<forall>d. t_duration_seconds c = Some d \<longrightarrow> f64_le f64_zero d"
  shows "f64_le p q"
proof -
  have tracks: "c \<in> set (tracks_before b t) \<Longrightarrow> c \<in> set (b_tracks b)" for c
    by (auto simp: tracks_before_def dest: set_takeWhileD)
  have "f64_le f64_zero (f64_sum (map (\<lambda>c. case t_duration_seconds c of Some d \<Rightarrow> d | None \<Rightarrow> f64_zero)
      (tracks_before b t)))"
    unfolding f64_sum_def using assms(3) tracks
    by (intro f64_sum_nonneg) (auto split: option.splits)
  then have "f64_le f64_zero q"
    unfolding assms(2) book_position_seconds_def by (intro f64_add_nonneg) simp_all
  then show ?thesis by (rule f64_le_trans [OF assms(1)])
qed

definition durations_ok :: "book \<Rightarrow> bool" where
  "durations_ok b \<longleftrightarrow>
     list_all (\<lambda>c. case t_duration_seconds c of Some d \<Rightarrow> f64_le f64_zero d | None \<Rightarrow> True) (b_tracks b)"

lemma enrich_le:
  assumes "durations_ok b"
  shows "f64_le (pr_book_position_seconds p) (pr_book_position_seconds (enrich_progress b p))
    \<or> pr_book_position_seconds p = pr_book_position_seconds (enrich_progress b p)"
proof (cases "List.find (\<lambda>c. t_id c = pr_track_id p) (b_tracks b)")
  case None
  then show ?thesis by (simp add: enrich_progress_def)
next
  case (Some t)
  have d: "\<forall>c \<in> set (b_tracks b). \<forall>d. t_duration_seconds c = Some d \<longrightarrow> f64_le f64_zero d"
    using assms by (auto simp: durations_ok_def list_all_iff split: option.splits)
  show ?thesis
  proof (cases "f64_le (pr_book_position_seconds p) f64_zero")
    case True
    then show ?thesis using book_position_nonneg_or_NaN [OF True refl d] Some
      by (simp add: enrich_progress_def)
  qed (simp add: enrich_progress_def Some)
qed

lemma enrich_again: "enrich_progress b (enrich_progress b p) = enrich_progress b p"
  by (simp add: enrich_progress_def split: option.splits)

lemma finished_enrich: "playback_position_is_finished b (enrich_progress b p) = playback_position_is_finished b p"
proof -
  have "enrich_progress b ((enrich_progress b p)\<lparr>pr_finished_override := None\<rparr>)
      = enrich_progress b (p\<lparr>pr_finished_override := None\<rparr>)"
    by (simp add: enrich_progress_def split: option.splits)
  then show ?thesis by (simp add: playback_position_is_finished_def summarize_book_progress_def)
qed

text \<open>C27: A refused checkpoint changes nothing at all. When the rules keep the stored position, the
  whole request leaves the position, its copies, the daily totals, the reading log and the
  completions as they were and answers with the stored position; the rules never keep a position
  that is not there, so the request does not fail for want of one.\<close>

theorem refused_checkpoint_changes_nothing:
  assumes "can_access_book auth book_id"
    and "case cp_recording c of Some r \<Rightarrow> recording_is_valid r | None \<Rightarrow> True"
    and "find_book library book_id = Inr b" and "find_track b (pu_track_id (cp_update c)) = Inr t"
    and "durations_ok b"
    and "decide_progress_checkpoint b t (ps_saved (li_progress s) (a_id auth, b_id b)) c (re_now_millis env) = Keep"
  shows "\<exists>p. ps_saved (li_progress s) (a_id auth, b_id b) = Some p
    \<and> update_progress env library auth book_id c s = (s, Inr (p, checkpoint_accepted b t c p (Some p)))"
proof -
  obtain p where p: "ps_saved (li_progress s) (a_id auth, b_id b) = Some p"
    using keep_needs_position [OF assms(6)] by auto
  let ?e = "enrich_progress b p"
  have delta: "f64_max (f64_sub (pr_book_position_seconds p) (pr_book_position_seconds ?e)) f64_zero = f64_zero"
    by (rule no_delta [OF enrich_le [OF assms(5)]])
  then have none: "plausible_listened_delta (Some ?e) p sk = f64_zero" for sk
    by (simp add: plausible_listened_delta_def)
  have "record_progress_bookkeeping env (a_id auth) b p (Some p) k s = s" for k
    by (simp add: record_progress_bookkeeping_def Let_def none finished_enrich split: option.splits)
  moreover have "update_book (a_id auth) (b_id b)
      (\<lambda>previous. decide_progress_checkpoint b t previous c (re_now_millis env)) (li_progress s)
      = (li_progress s, Some (p, Some p))"
    using assms(6) p by (simp add: update_book_def Let_def)
  ultimately show ?thesis using assms(1-4) p
    by (simp add: update_progress_def require_book_access_def split: option.splits)
qed

section \<open>What a summary says\<close>

lemma positive_durationD: "positive_duration x = Some d \<Longrightarrow> f64_gt d f64_zero"
  by (auto simp: positive_duration_def split: option.splits if_splits)

lemma sum_known_positive:
  "sum_known acc ts = Some d \<Longrightarrow> f64_le f64_zero acc \<Longrightarrow> f64_le f64_zero d"
proof (induction ts arbitrary: acc)
  case (Cons t ts)
  obtain x where x: "positive_duration (t_duration_seconds t) = Some x"
    using Cons.prems(1) by (auto split: option.splits)
  have "f64_le f64_zero (f64_add acc x)"
    using Cons.prems(2) f64_lt_imp_le [OF positive_durationD [OF x]] by (rule f64_add_nonneg)
  then show ?case using Cons x by simp
qed simp

lemma known_duration_nonneg: "known_duration b = Some d \<Longrightarrow> f64_le f64_zero d"
  using sum_known_positive [of f64_zero "b_tracks b" d]
  by (auto simp: known_duration_def known_duration_from_tracks_def dest: positive_durationD
      intro: f64_lt_imp_le split: option.splits if_splits)

lemma positive_duration_None [simp]: "positive_duration None = None"
  by (simp add: positive_duration_def)


section \<open>Finishes inherited across editions\<close>

definition finish_known :: "finished_works \<Rightarrow> string \<Rightarrow> string \<Rightarrow> bool" where
  "finish_known f user_id work_id \<longleftrightarrow> tget (fw_finished_at f) (user_id, work_id) \<noteq> None"

definition edition_done :: "saved_progress \<Rightarrow> work \<Rightarrow> string \<Rightarrow> string \<Rightarrow> bool" where
  "edition_done saved w user_id book_id \<longleftrightarrow>
     (case tget saved (progress_key user_id book_id) of Some p \<Rightarrow> edition_finished w p | None \<Rightarrow> False)"

definition completion_counts :: "saved_progress \<Rightarrow> completion_event \<Rightarrow> bool" where
  "completion_counts saved c \<longleftrightarrow>
     (case tget saved (progress_key (ce_user_id c) (ce_book_id c)) of
        Some p \<Rightarrow> pr_finished_override p \<noteq> Some False | None \<Rightarrow> True)"

lemma fw_record_facts [simp]:
  "fw_work_by_book (fw_record u i t f) = fw_work_by_book f"
  "finish_known (fw_record u i t f) v j \<longleftrightarrow> finish_known f v j \<or> (u = v \<and> i = j)"
  by (auto simp: fw_record_def Let_def finish_known_def tbl.lookup_insert)

lemma finish_known_simps [simp]:
  "finish_known (f\<lparr>fw_work_by_book := m\<rparr>) = finish_known f"
  "\<not> finish_known \<lparr>fw_work_by_book = m, fw_finished_at = []\<rparr> u i"
  by (simp_all add: finish_known_def fun_eq_iff)

lemma index_editions:
  "fw_work_by_book (fold (index_edition saved w x) bs f) = fw_work_by_book f"
  "finish_known (fold (index_edition saved w x) bs f) u i \<longleftrightarrow>
     finish_known f u i \<or> (x = u \<and> w_id w = i \<and> list_ex (edition_done saved w u) bs)"
  by (induction bs arbitrary: f) (auto simp: index_edition_def edition_done_def split: option.splits)

lemma index_users:
  "fw_work_by_book (fold (\<lambda>x. fold (index_edition saved w x) bs) us f) = fw_work_by_book f"
  "finish_known (fold (\<lambda>x. fold (index_edition saved w x) bs) us f) u i \<longleftrightarrow>
     finish_known f u i \<or> (u \<in> set us \<and> w_id w = i \<and> list_ex (edition_done saved w u) bs)"
  by (induction us arbitrary: f) (auto simp: index_editions)

lemma index_book_ids:
  "tget (fold (\<lambda>b. tinsert b i) bs m) b = (if b \<in> set bs then Some i else tget m b)"
  by (induction bs arbitrary: m) (auto simp: tbl.lookup_insert)

lemma index_works:
  "finish_known (fold (index_work saved us) ws f) u i \<longleftrightarrow>
     finish_known f u i
     \<or> (u \<in> set us \<and> (\<exists>w \<in> set ws. w_id w = i \<and> list_ex (edition_done saved w u) (w_book_ids w)))"
  by (induction ws arbitrary: f) (auto simp: index_work_def index_users)

lemma index_works_by_book:
  assumes "\<And>v w. v \<in> set ws \<Longrightarrow> w \<in> set ws \<Longrightarrow> b \<in> set (w_book_ids v) \<Longrightarrow> b \<in> set (w_book_ids w)
    \<Longrightarrow> w_id v = w_id w"
  shows "tget (fw_work_by_book (fold (index_work saved us) ws f)) b =
     (case List.find (\<lambda>w. b \<in> set (w_book_ids w)) ws of Some w \<Rightarrow> Some (w_id w)
      | None \<Rightarrow> tget (fw_work_by_book f) b)"
  using assms
proof (induction ws arbitrary: f)
  case (Cons w ws)
  have step: "tget (fw_work_by_book (index_work saved us w f)) b
      = (if b \<in> set (w_book_ids w) then Some (w_id w) else tget (fw_work_by_book f) b)"
    by (simp add: index_work_def index_users index_book_ids)
  have same: "w_id v = w_id w" if "List.find (\<lambda>w. b \<in> set (w_book_ids w)) ws = Some v" "b \<in> set (w_book_ids w)" for v
    using find_Some_in [OF that(1)] that(2) by (intro Cons.prems) simp_all
  have ih: "tget (fw_work_by_book (fold (index_work saved us) ws g)) b =
      (case List.find (\<lambda>w. b \<in> set (w_book_ids w)) ws of Some w \<Rightarrow> Some (w_id w)
       | None \<Rightarrow> tget (fw_work_by_book g) b)" for g
    by (rule Cons.IH) (rule Cons.prems; simp)
  show ?case
  proof (cases "List.find (\<lambda>w. b \<in> set (w_book_ids w)) ws")
    case None
    then show ?thesis using step by (simp add: ih)
  next
    case (Some v)
    then show ?thesis using same by (simp add: ih)
  qed
qed simp

lemma index_completions:
  "fw_work_by_book (fold (index_completion saved us) cs f) = fw_work_by_book f"
  "finish_known (fold (index_completion saved us) cs f) u i \<longleftrightarrow>
     finish_known f u i
     \<or> (u \<in> set us \<and> (\<exists>c \<in> set cs. ce_user_id c = u \<and> completion_counts saved c
           \<and> tget (fw_work_by_book f) (ce_book_id c) = Some i))"
proof -
  have step: "fw_work_by_book (index_completion saved us c f) = fw_work_by_book f"
    "finish_known (index_completion saved us c f) u i \<longleftrightarrow>
       finish_known f u i \<or> (u \<in> set us \<and> ce_user_id c = u \<and> completion_counts saved c
           \<and> tget (fw_work_by_book f) (ce_book_id c) = Some i)" for c f
    by (auto simp: index_completion_def completion_counts_def split: option.splits if_splits)
  show "fw_work_by_book (fold (index_completion saved us) cs f) = fw_work_by_book f"
    by (induction cs arbitrary: f) (simp_all add: step)
  show "finish_known (fold (index_completion saved us) cs f) u i \<longleftrightarrow>
     finish_known f u i
     \<or> (u \<in> set us \<and> (\<exists>c \<in> set cs. ce_user_id c = u \<and> completion_counts saved c
           \<and> tget (fw_work_by_book f) (ce_book_id c) = Some i))"
    by (induction cs arbitrary: f) (auto simp: step)
qed

text \<open>C36: A book counts as finished by way of another edition exactly when some edition of its work is
  finished for that reader: by a choice, by its position, or by a recorded completion the reader
  has not taken back. Editions of other works and other readers never contribute.\<close>

theorem inherited_finish_iff:
  assumes "works_inv store" "user_id \<in> set user_ids" "book_id \<in> requested"
    and "w \<in> set (works store)" "book_id \<in> set (w_book_ids w)"
  shows "finished_at (for_book_ids store requested saved completions user_ids) user_id book_id \<noteq> None
    \<longleftrightarrow> list_ex (edition_done saved w user_id) (w_book_ids w)
      \<or> (\<exists>c \<in> set completions. ce_user_id c = user_id \<and> ce_book_id c \<in> set (w_book_ids w)
            \<and> completion_counts saved c)"
proof -
  let ?ws = "filter (\<lambda>w. \<exists>i \<in> set (w_book_ids w). i \<in> requested) (works store)"
  let ?f = "fold (index_work saved user_ids) ?ws \<lparr>fw_work_by_book = [], fw_finished_at = []\<rparr>"
  have same: "w_id v = w_id w'"
    if "v \<in> set ?ws" "w' \<in> set ?ws" "b \<in> set (w_book_ids v)" "b \<in> set (w_book_ids w')" for b v w'
    using assms(1) that unfolding works_inv_def by (meson disjoint_iff filter_is_subset subsetD)
  have w: "w \<in> set ?ws" using assms(3-5) by auto
  have unique: "v = w" if "v \<in> set (works store)" "w_id v = w_id w" for v
    using assms(1,4) that by (auto simp: works_inv_def distinct_map inj_on_def)
  have by_book: "tget (fw_work_by_book ?f) b =
      map_option w_id (List.find (\<lambda>w. b \<in> set (w_book_ids w)) ?ws)" for b
    by (subst index_works_by_book [OF same]) (simp_all split: option.splits)
  have at_book: "tget (fw_work_by_book ?f) b = Some (w_id w) \<longleftrightarrow> b \<in> set (w_book_ids w)" for b
  proof (cases "List.find (\<lambda>w. b \<in> set (w_book_ids w)) ?ws")
    case None
    then have "b \<notin> set (w_book_ids w)" using w unfolding find_None_iff by blast
    then show ?thesis unfolding by_book None by simp
  next
    case (Some v)
    then have v: "v \<in> set ?ws" "b \<in> set (w_book_ids v)" using find_Some_in by fast+
    have "w_id v = w_id w \<longleftrightarrow> b \<in> set (w_book_ids w)"
    proof
      assume "w_id v = w_id w"
      then have "v = w" by (rule unique [rotated]) (use v in simp)
      then show "b \<in> set (w_book_ids w)" using v by simp
    next
      assume "b \<in> set (w_book_ids w)"
      then show "w_id v = w_id w" by (rule same [OF v(1) w v(2)])
    qed
    then show ?thesis unfolding by_book Some by simp
  qed
  have editions: "finish_known ?f user_id (w_id w) \<longleftrightarrow> list_ex (edition_done saved w user_id) (w_book_ids w)"
    using assms(2) w unique by (auto simp: index_works)
  have "finished_at (for_book_ids store requested saved completions user_ids) user_id book_id \<noteq> None
      \<longleftrightarrow> finish_known (fold (index_completion saved user_ids) completions ?f) user_id (w_id w)"
    using at_book [of book_id] assms(5) by (simp add: finished_at_def for_book_ids_def index_completions finish_known_def)
  also have "\<dots> \<longleftrightarrow> finish_known ?f user_id (w_id w)
      \<or> (\<exists>c \<in> set completions. ce_user_id c = user_id \<and> completion_counts saved c
           \<and> tget (fw_work_by_book ?f) (ce_book_id c) = Some (w_id w))"
    using assms(2) by (simp only: index_completions simp_thms)
  finally show ?thesis unfolding editions at_book by blast
qed

section \<open>Sharing is mutual\<close>

text \<open>Progress is shown between accounts only mutually. Of two different accounts, each sees the
  other's progress exactly when both have sharing switched on, so nobody reads progress without
  offering their own.\<close>

theorem sharing_reciprocal:
  assumes "u \<in> set us" "v \<in> set us" "distinct (map u_id us)" "u \<noteq> v"
  shows "((u_id v, u_username v) \<in> set (visible_sharers us (auth_of_user u))
      \<longleftrightarrow> u_share_progress u \<and> u_share_progress v)
    \<and> ((u_id v, u_username v) \<in> set (visible_sharers us (auth_of_user u))
      \<longleftrightarrow> (u_id u, u_username u) \<in> set (visible_sharers us (auth_of_user v)))"
proof -
  have member: "(u_id b, u_username b) \<in> set (visible_sharers us (auth_of_user a))
      \<longleftrightarrow> u_share_progress a \<and> u_share_progress b" if "a \<in> set us" "b \<in> set us" "a \<noteq> b" for a b
    using assms(3) that by (auto simp: visible_sharers_def auth_of_user_def distinct_map inj_on_def)
  show ?thesis
    using member [OF assms(1,2,4)] member [OF assms(2,1) assms(4) [symmetric]] by blast
qed

section \<open>Examples\<close>

text \<open>Decimal digits computed on integers, for evaluation.\<close>

function dec_of_int :: "int \<Rightarrow> string" where
  "dec_of_int n = (if n < 10 then [digit (nat n)] else dec_of_int (n div 10) @ [digit (nat (n mod 10))])"
  by pat_completeness auto
termination
  by (relation "measure nat") auto

declare dec_of_int.simps [simp del]

lemma dec_of_int_nat: "dec_of_int (int n) = dec n"
proof (induction n rule: dec.induct)
  case (1 n)
  have "int n div 10 = int (n div 10)" "nat (int n mod 10) = n mod 10"
    by (simp_all add: zdiv_int nat_mod_distrib)
  then show ?case using 1 by (subst dec.simps, subst dec_of_int.simps) (auto simp: nat_eq_iff)
qed

lemma next_progress_timestamp_code [code]:
  "next_progress_timestamp previous now_millis = dec_of_int (uint (max now_millis (sat_add (previous_millis previous) 1)))"
  by (simp add: next_progress_timestamp_def flip: dec_of_int_nat)

definition ex_track :: "string \<Rightarrow> track" where
  "ex_track i = \<lparr>t_id = i, t_duration_seconds = Some (Fin 3600)\<rparr>"

definition ex_book :: book where
  "ex_book = \<lparr>b_id = ''b'', b_title = [], b_author = None, b_narrator = None, b_duration_seconds = Some (Fin 7200),
     b_track_count = 2, b_genres = [], b_published_date = None, b_asin = None,
     b_metadata = \<lparr>ms_publisher = None, ms_series = None, ms_series_position = None\<rparr>,
     b_tracks = [ex_track ''t'', ex_track ''w'']\<rparr>"

definition ex_update :: "rat \<Rightarrow> bool \<Rightarrow> progress_update" where
  "ex_update pos back = \<lparr>pu_track_id = ''t'', pu_position_seconds = Fin pos, pu_book_position_seconds = None,
     pu_duration_seconds = None, pu_updated_at_ms = None, pu_intentional_regression = back,
     pu_intentional_seek = False, pu_tz_offset_minutes = None, pu_speed = None, pu_client = None\<rparr>"

definition ex_heartbeat ::
  "rat \<Rightarrow> bool \<Rightarrow> string option \<Rightarrow> progress_recording option \<Rightarrow> progress_checkpoint" where
  "ex_heartbeat pos back base r = \<lparr>cp_update = ex_update pos back, cp_sent_at_ms = None,
     cp_base_updated_at = base, cp_recording = r\<rparr>"

definition ex_recording :: progress_recording where
  "ex_recording = \<lparr>pc_id = replicate 32 (CHR ''a''), pc_sequence = 1\<rparr>"

definition ex_saved :: progress where
  "ex_saved = \<lparr>pr_book_id = ''b'', pr_track_id = ''t'', pr_position_seconds = Fin 1000,
     pr_book_position_seconds = Fin 1000, pr_duration_seconds = None, pr_updated_at = ''7'',
     pr_finished_override = None, pr_recording = None\<rparr>"

definition ex_places :: progress_store where
  "ex_places = \<lparr>ps_saved = (\<lambda>k. if k = (''u'', ''b'') then Some ex_saved else None), ps_backups = (\<lambda>k. [])\<rparr>"

definition ex_later :: progress_event where
  "ex_later = Check (ex_track ''t'') (ex_heartbeat 1200 False None None) 1700000001000"

definition ex_back :: progress_event where
  "ex_back = Check (ex_track ''t'') (ex_heartbeat 100 True None None) 1700000001000"

lemma ex_heartbeat_fields [simp]:
  "cp_base_updated_at (ex_heartbeat x back base r) = base" "cp_recording (ex_heartbeat x back base r) = r"
  by (simp_all add: ex_heartbeat_def)

lemma ex_keys: "b_id ex_book = ''b''" "ps_saved ex_places (''u'', ''b'') = Some ex_saved"
  by (simp_all add: ex_book_def ex_places_def)

lemma ex_later_saved:
  "case ps_saved (progress_run ''u'' ex_book [ex_later] ex_places) (''u'', ''b'') of
     None \<Rightarrow> False
   | Some q \<Rightarrow> pr_updated_at q \<noteq> pr_updated_at ex_saved
       \<and> \<not> continues_recording (Some q) (ex_heartbeat 1300 False (Some (pr_updated_at ex_saved)) None)"
  by code_simp

lemma ex_clock: "clock_ok 1700000001000 [ex_later]" "unat (revision ex_saved) \<le> 1700000001000"
proof -
  have "revision ex_saved = 7000" by code_simp
  then show "unat (revision ex_saved) \<le> 1700000001000" by simp
qed (simp add: clock_ok_def ex_later_def word_le_nat_alt)

lemma ex_back_saved:
  "case ps_saved (progress_step ''u'' ex_book ex_back ex_places) (''u'', ''b'') of
     None \<Rightarrow> False | Some q \<Rightarrow> dropped_place ex_book ex_back ex_saved q"
  "event_decision ex_book ex_back (Some ex_saved) \<noteq> Keep"
  by code_simp+

lemma ex_recorded:
  "case decide_progress_checkpoint ex_book (ex_track ''t'') None (ex_heartbeat 20 False None (Some ex_recording))
      1700000001000 of Keep \<Rightarrow> False | Store saved backup \<Rightarrow> True"
  by code_simp

lemma ex_stale:
  "decide_progress_checkpoint ex_book (ex_track ''t'') (Some ex_saved) (ex_heartbeat 20 False (Some ''1'') None)
      1700000001000 = Keep"
  by code_simp

lemma ex_summary: "pr_book_position_seconds (enrich_progress ex_book ex_saved) \<noteq> NaN"
  by code_simp

section \<open>Witnesses\<close>

theorem replaced_revision_refused_witness:
  "\<exists>r. decide_progress_checkpoint ex_book (ex_track ''t'') (Some r)
      (ex_heartbeat 1300 False (Some (pr_updated_at ex_saved)) None) 1700000009000 = Keep"
proof -
  let ?c = "ex_heartbeat 1300 False (Some (pr_updated_at ex_saved)) None"
  obtain q where q: "ps_saved (progress_run ''u'' ex_book [ex_later] ex_places) (''u'', ''b'') = Some q"
    "pr_updated_at q \<noteq> pr_updated_at ex_saved" "\<not> continues_recording (Some q) ?c"
    using ex_later_saved by (auto split: option.splits)
  have "decide_progress_checkpoint ex_book (ex_track ''t'') (Some q) ?c 1700000009000 = Keep"
    using replaced_revision_refused [of ex_places "''u''" ex_book ex_saved "[ex_later]" q 1700000001000 "[]" ?c q
        "ex_track ''t''" 1700000009000] q ex_clock
    by (simp add: ex_keys)
  then show ?thesis by blast
qed


theorem retry_is_idempotent_witness:
  "\<exists>saved s. update_book ''u'' (b_id ex_book) (\<lambda>p. decide_progress_checkpoint ex_book (ex_track ''t'') p
       (ex_heartbeat 20 False None (Some ex_recording)) 1700000009000) s = (s, Some (saved, Some saved))"
proof -
  obtain saved backup where "decide_progress_checkpoint ex_book (ex_track ''t'') None
      (ex_heartbeat 20 False None (Some ex_recording)) 1700000001000 = Store saved backup"
    using ex_recorded by (auto split: progress_decision.splits)
  from retry_is_idempotent [OF this, where s = "ex_places\<lparr>ps_saved := \<lambda>k. Some saved\<rparr>"
      and user_id = "''u''" and later = 1700000009000 and r = ex_recording]
  show ?thesis by (auto simp: ex_checkpoint_def)
qed

definition ex_listening :: listening where
  "ex_listening = \<lparr>li_progress = ex_places, li_activity = [], li_log = ([], []), li_completions = [],
     li_works = \<lparr>works = [], suggestions = []\<rparr>\<rparr>"

definition ex_listener :: "string \<Rightarrow> bool \<Rightarrow> user" where
  "ex_listener i share = (setup_user ex_setup ''h'' i ''1'')\<lparr>u_username := cps i, u_share_progress := share\<rparr>"

theorem refused_checkpoint_changes_nothing_witness:
  "\<exists>accepted. update_progress \<lparr>re_now = 1700000001, re_now_millis = 1700000001000, re_session_id = [],
       re_completion_id = []\<rparr> [ex_book] (auth_of_user (ex_listener ''u'' True)) ''b''
     (ex_heartbeat 20 False (Some ''1'') None) ex_listening = (ex_listening, Inr (ex_saved, accepted))"
proof -
  have stored: "ps_saved (li_progress ex_listening) (a_id (auth_of_user (ex_listener ''u'' True)), b_id ex_book) = Some ex_saved"
    by code_simp
  have library: "find_book [ex_book] ''b'' = Inr ex_book"
    "find_track ex_book (pu_track_id (cp_update (ex_heartbeat 20 False (Some ''1'') None))) = Inr (ex_track ''t'')"
    "case cp_recording (ex_heartbeat 20 False (Some ''1'') None) of Some r \<Rightarrow> recording_is_valid r | None \<Rightarrow> True"
    "durations_ok ex_book" "can_access_book (auth_of_user (ex_listener ''u'' True)) ''b''"
    by code_simp+
  show ?thesis
    using refused_checkpoint_changes_nothing [OF library(5,3,1,2,4), where s = ex_listening
        and env = "\<lparr>re_now = 1700000001, re_now_millis = 1700000001000, re_session_id = [],
          re_completion_id = []\<rparr>"] stored ex_stale
    by simp
qed


definition ex_edition_work :: work where
  "ex_edition_work = \<lparr>w_id = ''k'', w_title = [], w_author = None, w_asins = [], w_isbns = [], w_keys = [],
     w_duration_seconds = Some (Fin 7200), w_book_ids = [''b'', ''c''], w_manual_book_ids = [],
     w_excluded_book_ids = [], w_created_at_ms = 1\<rparr>"

theorem inherited_finish_iff_witness:
  "finished_at (for_book_ids \<lparr>works = [ex_edition_work], suggestions = []\<rparr> {''c''}
     [(progress_key ''u'' ''b'', ex_saved\<lparr>pr_finished_override := Some True\<rparr>)] [] [''u'']) ''u'' ''c'' \<noteq> None"
proof -
  let ?store = "\<lparr>works = [ex_edition_work], suggestions = []\<rparr>"
  have inv: "works_inv ?store" "''u'' \<in> set [''u'']" "''c'' \<in> {''c''}" "ex_edition_work \<in> set (works ?store)"
    "''c'' \<in> set (w_book_ids ex_edition_work)"
    by (simp_all add: works_inv_def ex_edition_work_def)
  have "list_ex (edition_done [(progress_key ''u'' ''b'', ex_saved\<lparr>pr_finished_override := Some True\<rparr>)]
      ex_edition_work ''u'') (w_book_ids ex_edition_work)"
    by (simp add: edition_done_def edition_finished_def ex_edition_work_def tget_def)
  then show ?thesis using inherited_finish_iff [OF inv] by blast
qed

theorem sharing_reciprocal_witness:
  "(''v'', cps ''v'') \<notin> set (visible_sharers [ex_listener ''u'' False, ex_listener ''v'' True]
      (auth_of_user (ex_listener ''u'' False)))"
proof -
  have "ex_listener ''u'' False \<noteq> ex_listener ''v'' True" by (simp add: ex_listener_def setup_user_def)
  then show ?thesis
    using sharing_reciprocal [of "ex_listener ''u'' False" "[ex_listener ''u'' False, ex_listener ''v'' True]"
        "ex_listener ''v'' True"]
    by (simp add: ex_listener_def setup_user_def)
qed

end
