(* ===== verification/Json.thy ===== *)
theory Json
  imports Text
begin

text \<open>
  A parsed JSON document, with the accessors of \<open>serde_json::Value\<close> the server uses. An object
  lists its members in order; of two members with one name the parser keeps the last, so names
  do not repeat. Parsing itself is a parameter of the models that read documents.
\<close>

datatype json =
    JNull
  | JBool bool
  | JNumber f64
  | JString ustr
  | JArray "json list"
  | JObject "(string \<times> json) list"

fun json_get :: "string \<Rightarrow> json \<Rightarrow> json option" where
  "json_get k (JObject members) = map_of members k"
| "json_get k _ = None"

fun as_array :: "json \<Rightarrow> json list option" where
  "as_array (JArray xs) = Some xs"
| "as_array _ = None"

fun as_str :: "json \<Rightarrow> ustr option" where
  "as_str (JString s) = Some s"
| "as_str _ = None"

end
