(* ===== verification/Remux.thy ===== *)
theory Remux
  imports Util Json
begin

text \<open>
  MP4 maintenance (\<open>faststart.rs\<close>): the walk over the top-level boxes that decides whether a file
  streams from its first bytes, the verification of a remuxed copy, and the conversion, which
  replaces a book by such a copy. The file system is a map from paths to files; the conversion
  returns every state it goes through, so that a crash can be placed after any of its effects.
  The ffmpeg and ffprobe programs, the outcome of each system call and the random token
  are parameters.
\<close>

section \<open>Names\<close>

text \<open>A path by its directory and its file name.\<close>

record path =
  in_dir :: string
  file_name :: string

definition MP4_EXTENSIONS :: "string list" where
  "MP4_EXTENSIONS = [''m4a'', ''m4b'', ''mp4'']"

definition TEMP_PREFIX :: string where
  "TEMP_PREFIX = ''.operalibre-faststart-''"

definition MIN_FREE_HEADROOM_BYTES :: nat where
  "MIN_FREE_HEADROOM_BYTES = 512 * 1024 * 1024"

definition MAX_BOXES :: nat where
  "MAX_BOXES = 4096"

definition DURATION_TOLERANCE_SECONDS :: f64 where
  "DURATION_TOLERANCE_SECONDS = Fin 1"

text \<open>\<open>Path::extension\<close>: what follows the last dot, unless the name only starts with it.\<close>

definition extension :: "string \<Rightarrow> string option" where
  "extension name =
     (let after = takeWhile (\<lambda>c. c \<noteq> CHR ''.'') (rev name)
      in if name = ''..'' \<or> length name \<le> length after + 1 then None else Some (rev after))"

definition is_mp4_file :: "path \<Rightarrow> bool" where
  "is_mp4_file p =
     (case extension (file_name p) of
        None \<Rightarrow> False
      | Some e \<Rightarrow> list_ex (\<lambda>c. eq_ignore_ascii_case c e) MP4_EXTENSIONS)"

definition is_work_file :: "path \<Rightarrow> bool" where
  "is_work_file p = (take (length TEMP_PREFIX) (file_name p) = TEMP_PREFIX)"

section \<open>The box chain\<close>

datatype layout = Faststart | Trailing | Unknown

text \<open>Big-endian numbers.\<close>

definition be_val :: "string \<Rightarrow> nat" where
  "be_val s = foldl (\<lambda>n c. 256 * n + byte c) 0 s"

text \<open>\<open>read_exact\<close>: \<open>None\<close> stands for an unexpected end of file.\<close>

definition read_exact :: "string \<Rightarrow> nat \<Rightarrow> nat \<Rightarrow> string option" where
  "read_exact f offset n =
     (if offset + n \<le> length f then Some (take n (drop offset f)) else None)"

definition u64_sat :: "nat \<Rightarrow> nat" where
  "u64_sat n = min n (2 ^ 64 - 1)"

text \<open>The size a header declares, and the header's own length.\<close>

definition box_extent :: "string \<Rightarrow> nat \<Rightarrow> nat \<Rightarrow> nat \<Rightarrow> (nat \<times> nat) option" where
  "box_extent f file_size offset declared =
     (if declared = 1
      then map_option (\<lambda>extended. (be_val extended, 16)) (read_exact f (offset + 8) 8)
      else if declared = 0 then Some (file_size - offset, 8)
      else Some (declared, 8))"

fun box_loop :: "nat \<Rightarrow> bool \<Rightarrow> nat \<Rightarrow> bool \<Rightarrow> string \<Rightarrow> nat \<Rightarrow> layout" where
  "box_loop 0 at_start offset seen_mdat f file_size = Unknown"
| "box_loop (Suc n) at_start offset seen_mdat f file_size =
     (if u64_sat (offset + 8) > file_size then Unknown
      else case read_exact f offset 8 of
        None \<Rightarrow> Unknown
      | Some header \<Rightarrow>
          (let box_type = drop 4 header in
           if at_start \<and> box_type \<noteq> ''ftyp'' then Unknown
           else if \<not> list_all is_ascii_graphic box_type then Unknown
           else case box_extent f file_size offset (be_val (take 4 header)) of
             None \<Rightarrow> Unknown
           | Some (box_size, header_len) \<Rightarrow>
               if box_size < header_len \<or> u64_sat (offset + box_size) > file_size then Unknown
               else if box_type = ''moov'' then (if seen_mdat then Trailing else Faststart)
               else box_loop n False (offset + box_size) (seen_mdat \<or> box_type = ''mdat'') f file_size))"

definition inspect_boxes :: "string \<Rightarrow> nat \<Rightarrow> layout" where
  "inspect_boxes f file_size = box_loop MAX_BOXES True 0 False f file_size"

definition inspect :: "string \<Rightarrow> layout" where
  "inspect f = inspect_boxes f (length f)"

section \<open>The box chain of a file\<close>

text \<open>
  A box as the container format has it: with a 32-bit size, with a 64-bit size, or running
  to the end of the file.
\<close>

datatype size_form = Short | Long | ToEnd

record mp4_box =
  bx_type :: string
  bx_form :: size_form
  bx_payload :: string

fun be_bytes :: "nat \<Rightarrow> nat \<Rightarrow> string" where
  "be_bytes 0 n = []"
| "be_bytes (Suc k) n = be_bytes k (n div 256) @ [char_of (n mod 256)]"

definition box_bytes :: "mp4_box \<Rightarrow> string" where
  "box_bytes b =
     (case bx_form b of
        Short \<Rightarrow> be_bytes 4 (8 + length (bx_payload b)) @ bx_type b @ bx_payload b
      | Long \<Rightarrow> be_bytes 4 1 @ bx_type b @ be_bytes 8 (16 + length (bx_payload b)) @ bx_payload b
      | ToEnd \<Rightarrow> be_bytes 4 0 @ bx_type b @ bx_payload b)"

definition box_ok :: "mp4_box \<Rightarrow> bool" where
  "box_ok b \<longleftrightarrow>
     length (bx_type b) = 4 \<and> list_all is_ascii_graphic (bx_type b)
     \<and> (bx_form b = Short \<longrightarrow> 8 + length (bx_payload b) < 2 ^ 32)
     \<and> (bx_form b = Long \<longrightarrow> 16 + length (bx_payload b) < 2 ^ 64)"

text \<open>The file starts with these boxes, then an index box, then anything.\<close>

definition box_chain :: "string \<Rightarrow> mp4_box list \<Rightarrow> mp4_box \<Rightarrow> bool" where
  "box_chain f bs index \<longleftrightarrow>
     (\<exists>rest. f = concat (map box_bytes bs) @ box_bytes index @ rest
        \<and> (bx_form index = ToEnd \<longrightarrow> rest = []))
     \<and> list_all box_ok (index # bs) \<and> bx_type index = ''moov''
     \<and> list_all (\<lambda>b. bx_type b \<noteq> ''moov'' \<and> bx_form b \<noteq> ToEnd) bs
     \<and> bs \<noteq> [] \<and> bx_type (hd bs) = ''ftyp'' \<and> length bs < MAX_BOXES"

lemma byte_char_of: "byte (char_of n) = n mod 256"
  by (simp add: byte_def)

lemma char_of_byte: "char_of (byte c) = c"
  by (simp add: byte_def)

lemma byte_less: "byte c < 256"
  by (simp add: byte_def)

lemma be_val_Nil [simp]: "be_val [] = 0"
  by (simp add: be_val_def)

lemma be_val_snoc [simp]: "be_val (s @ [c]) = 256 * be_val s + byte c"
  by (simp add: be_val_def)

lemma length_be_bytes [simp]: "length (be_bytes k n) = k"
  by (induction k arbitrary: n) auto

lemma be_val_be_bytes: "n < 256 ^ k \<Longrightarrow> be_val (be_bytes k n) = n"
proof (induction k arbitrary: n)
  case (Suc k)
  then have "n div 256 < 256 ^ k" by (simp add: div_less_iff_less_mult)
  then show ?case using Suc.IH by (simp add: byte_char_of)
qed simp

lemma be_bytes_be_val: "be_bytes (length s) (be_val s) = s"
  by (induction s rule: rev_induct) (simp_all add: byte_less char_of_byte)

lemma be_val_less: "be_val s < 256 ^ length s"
proof (induction s rule: rev_induct)
  case (snoc c s)
  then have "256 * be_val s + byte c < 256 * (be_val s + 1)" using byte_less [of c] by simp
  also have "\<dots> \<le> 256 * 256 ^ length s" using snoc by (intro mult_le_mono2) simp
  finally show ?case by simp
qed simp

text \<open>One step of the walk, at the remaining bytes \<open>g\<close>.\<close>

lemma read_at [simp]:
  "read_exact (pre @ g) (length pre) n = (if n \<le> length g then Some (take n g) else None)"
  "read_exact (pre @ g) (length pre + m) n = (if m + n \<le> length g then Some (take n (drop m g)) else None)"
  by (simp_all add: read_exact_def)

definition extent :: "string \<Rightarrow> (nat \<times> nat) option" where
  "extent g =
     (if be_val (take 4 g) = 1
      then if 16 \<le> length g then Some (be_val (take 8 (drop 8 g)), 16) else None
      else if be_val (take 4 g) = 0 then Some (length g, 8) else Some (be_val (take 4 g), 8))"

lemma walk_step:
  assumes "length (pre @ g) < 2 ^ 63"
  shows "box_loop (Suc n) at_start (length pre) seen (pre @ g) (length (pre @ g)) =
    (if length g < 8 then Unknown
     else let t = take 4 (drop 4 g) in
       if at_start \<and> t \<noteq> ''ftyp'' then Unknown
       else if \<not> list_all is_ascii_graphic t then Unknown
       else case extent g of
         None \<Rightarrow> Unknown
       | Some (box_size, header_len) \<Rightarrow>
           if box_size < header_len \<or> length g < box_size then Unknown
           else if t = ''moov'' then (if seen then Trailing else Faststart)
           else box_loop n False (length (pre @ take box_size g)) (seen \<or> t = ''mdat'')
                  ((pre @ take box_size g) @ drop box_size g) (length ((pre @ take box_size g) @ drop box_size g)))"
proof -
  have sat: "length pre + length g < u64_sat k \<longleftrightarrow> length pre + length g < k" for k
    using assms by (auto simp: u64_sat_def)
  have step: "length (pre @ take k g) = length pre + k" "(pre @ take k g) @ drop k g = pre @ g" if "k \<le> length g" for k
    using that by simp_all
  show ?thesis
    by (auto simp: sat box_extent_def extent_def Let_def step not_less drop_take min_def le_diff_conv split: option.splits)
qed

lemma be_4: "n < 2 ^ 32 \<Longrightarrow> be_val (be_bytes 4 n) = n"
  by (rule be_val_be_bytes) simp

lemma be_8: "n < 2 ^ 64 \<Longrightarrow> be_val (be_bytes 8 n) = n"
  by (rule be_val_be_bytes) simp

text \<open>The walk at the start of a well-formed box.\<close>

lemma walk_box:
  assumes "box_ok b" "g = box_bytes b @ rest" "bx_form b = ToEnd \<longrightarrow> rest = []"
    and "length (pre @ g) < 2 ^ 63"
  shows "box_loop (Suc n) at_start (length pre) seen (pre @ g) (length (pre @ g)) =
    (if at_start \<and> bx_type b \<noteq> ''ftyp'' then Unknown
     else if bx_type b = ''moov'' then (if seen then Trailing else Faststart)
     else box_loop n False (length (pre @ box_bytes b)) (seen \<or> bx_type b = ''mdat'')
            ((pre @ box_bytes b) @ rest) (length ((pre @ box_bytes b) @ rest)))"
proof -
  have t: "take 4 (drop 4 g) = bx_type b" "length g = length (box_bytes b) + length rest"
    using assms(1,2) by (auto simp: box_ok_def box_bytes_def split: size_form.splits)
  have graphic: "is_ascii_graphic CHR ''m''" "is_ascii_graphic CHR ''o''" "is_ascii_graphic CHR ''v''"
    by (simp_all add: is_ascii_graphic_def byte_def)
  have taken: "take (length (box_bytes b)) g = box_bytes b" "drop (length (box_bytes b)) g = rest"
    using assms(2) by simp_all
  have e: "\<exists>h. extent g = Some (length (box_bytes b), h) \<and> h \<le> length (box_bytes b) \<and> 8 \<le> length (box_bytes b)"
  proof (cases "bx_form b")
    case Short
    then have "be_val (take 4 g) = length (box_bytes b)" "length (box_bytes b) \<ge> 8"
      using assms(1,2) by (auto simp: box_ok_def box_bytes_def be_4)
    then show ?thesis by (auto simp: extent_def)
  next
    case Long
    then have "be_val (take 4 g) = 1" "be_val (take 8 (drop 8 g)) = length (box_bytes b)" "length (box_bytes b) \<ge> 16"
      using assms(1,2) by (auto simp: box_ok_def box_bytes_def be_4 be_8)
    then show ?thesis using t(2) by (simp add: extent_def)
  next
    case ToEnd
    then have "be_val (take 4 g) = 0" "length (box_bytes b) \<ge> 8" "length (box_bytes b) = length g"
      using assms by (auto simp: box_ok_def box_bytes_def be_4)
    then show ?thesis by (simp add: extent_def)
  qed
  then obtain h where h: "extent g = Some (length (box_bytes b), h)" "\<not> length (box_bytes b) < h"
    "\<not> length g < 8" "\<not> length g < length (box_bytes b)"
    using t(2) by auto
  show ?thesis
    unfolding walk_step [OF assms(4)] Let_def t(1) taken h(1) using h(2-4) assms(1)
    by (simp add: box_ok_def graphic) (simp add: assms(2))
qed

lemma take_split: "k \<le> n \<Longrightarrow> take k xs @ drop k (take n xs) = take n xs"
  using append_take_drop_id [of k "take n xs"] by (simp add: min_def)

text \<open>Conversely, a step that does not give up has read a well-formed box.\<close>

lemma read_box:
  assumes "8 \<le> length g" "list_all is_ascii_graphic (take 4 (drop 4 g))"
    and "extent g = Some (box_size, header_len)"
    and "header_len \<le> box_size" "box_size \<le> length g"
  shows "\<exists>b. box_ok b \<and> bx_type b = take 4 (drop 4 g) \<and> box_bytes b = take box_size g
    \<and> (bx_form b = ToEnd \<longrightarrow> box_size = length g)"
proof -
  let ?t = "take 4 (drop 4 g)"
  have half: "take 16 g = take 8 g @ take 8 (drop 8 g)" using take_add [of 8 8 g] by simp
  have head: "take 8 g = take 4 g @ ?t" using take_add [of 4 4 g] by simp
  have be4: "be_bytes 4 (be_val (take 4 g)) = take 4 g"
    using be_bytes_be_val [of "take 4 g"] assms(1) by simp
  consider (long) "be_val (take 4 g) = 1" | (to_end) "be_val (take 4 g) = 0" | (short) "be_val (take 4 g) > 1"
    by linarith
  then show ?thesis
  proof cases
    case long
    then have len: "16 \<le> length g" "box_size = be_val (take 8 (drop 8 g))" "header_len = 16"
      using assms(3) by (auto simp: extent_def split: if_splits)
    have be8: "be_bytes 8 box_size = take 8 (drop 8 g)"
      using be_bytes_be_val [of "take 8 (drop 8 g)"] len by simp
    let ?b = "\<lparr>bx_type = ?t, bx_form = Long, bx_payload = drop 16 (take box_size g)\<rparr>"
    have "16 + length (bx_payload ?b) = box_size" using assms(4,5) len by simp
    then have "box_bytes ?b = take 4 g @ ?t @ take 8 (drop 8 g) @ drop 16 (take box_size g)"
      using be4 long be8 by (simp add: box_bytes_def)
    also have "\<dots> = take 16 g @ drop 16 (take box_size g)"
      unfolding half head by (simp only: append_assoc)
    also have "\<dots> = take box_size g" by (rule take_split) (use assms(4) len in simp)
    finally have bytes: "box_bytes ?b = take box_size g" .
    have "box_size < 2 ^ 64" using be_val_less [of "take 8 (drop 8 g)"] len by simp
    then have "box_ok ?b" using assms(1,2,4,5) len by (simp add: box_ok_def)
    then show ?thesis using bytes by (intro exI [of _ ?b]) simp
  next
    case to_end
    then have len: "box_size = length g" using assms(3) by (simp add: extent_def)
    let ?b = "\<lparr>bx_type = ?t, bx_form = ToEnd, bx_payload = drop 8 g\<rparr>"
    have "box_bytes ?b = take 4 g @ ?t @ drop 8 g" using be4 to_end by (simp add: box_bytes_def)
    also have "\<dots> = take 8 g @ drop 8 g" unfolding head by (simp only: append_assoc)
    finally have "box_bytes ?b = take box_size g" using len by simp
    moreover have "box_ok ?b" using assms(1,2) by (simp add: box_ok_def)
    ultimately show ?thesis using len by (intro exI [of _ ?b]) simp
  next
    case short
    then have len: "box_size = be_val (take 4 g)" "header_len = 8" using assms(3) by (auto simp: extent_def)
    let ?b = "\<lparr>bx_type = ?t, bx_form = Short, bx_payload = drop 8 (take box_size g)\<rparr>"
    have n: "8 + length (bx_payload ?b) = box_size" using assms(4,5) len(2) by simp
    have "box_bytes ?b = take 4 g @ ?t @ drop 8 (take box_size g)"
      using be4 len(1) n by (simp add: box_bytes_def)
    also have "\<dots> = take 8 g @ drop 8 (take box_size g)" unfolding head by (simp only: append_assoc)
    also have "\<dots> = take box_size g" by (rule take_split) (use assms(4) len in simp)
    finally have bytes: "box_bytes ?b = take box_size g" .
    have "box_size < 2 ^ 32" using be_val_less [of "take 4 g"] len assms(1) by simp
    then have "box_ok ?b" using assms(1,2) n by (simp add: box_ok_def)
    then show ?thesis using bytes by (intro exI [of _ ?b]) simp
  qed
qed

lemma walk_chain:
  assumes "list_all box_ok (index # bs)" "bx_type index = ''moov''"
    and "list_all (\<lambda>b. bx_type b \<noteq> ''moov'' \<and> bx_form b \<noteq> ToEnd) bs"
    and "bs \<noteq> [] \<longrightarrow> at_start \<longrightarrow> bx_type (hd bs) = ''ftyp''" "bs = [] \<longrightarrow> \<not> at_start"
    and "length bs < n" "bx_form index = ToEnd \<longrightarrow> rest = []"
    and "g = concat (map box_bytes bs) @ box_bytes index @ rest" "length (pre @ g) < 2 ^ 63"
  shows "box_loop n at_start (length pre) seen (pre @ g) (length (pre @ g)) =
    (if seen \<or> ''mdat'' \<in> set (map bx_type bs) then Trailing else Faststart)"
  using assms
proof (induction bs arbitrary: n at_start pre g seen)
  case Nil
  obtain m where m: "n = Suc m" using Nil.prems(6) by (cases n) auto
  show ?case unfolding m
    by (subst walk_box [where b = index and rest = rest]) (use Nil.prems in auto)
next
  case (Cons b bs)
  obtain m where m: "n = Suc m" using Cons.prems(6) by (cases n) auto
  let ?r = "concat (map box_bytes bs) @ box_bytes index @ rest"
  have g: "g = box_bytes b @ ?r" using Cons.prems(8) by simp
  have step: "box_loop n at_start (length pre) seen (pre @ g) (length (pre @ g)) =
      box_loop m False (length (pre @ box_bytes b)) (seen \<or> bx_type b = ''mdat'')
        ((pre @ box_bytes b) @ ?r) (length ((pre @ box_bytes b) @ ?r))"
    unfolding m using Cons.prems(1,3,4,9) by (subst walk_box [OF _ g]) auto
  show ?case unfolding step
    by (subst Cons.IH) (use Cons.prems m in auto)
qed

lemma walk_reads_chain:
  assumes "box_loop n at_start (length pre) seen (pre @ g) (length (pre @ g)) \<noteq> Unknown"
    and "length (pre @ g) < 2 ^ 63"
  shows "\<exists>bs index rest. g = concat (map box_bytes bs) @ box_bytes index @ rest
    \<and> (bx_form index = ToEnd \<longrightarrow> rest = []) \<and> list_all box_ok (index # bs) \<and> bx_type index = ''moov''
    \<and> list_all (\<lambda>b. bx_type b \<noteq> ''moov'' \<and> bx_form b \<noteq> ToEnd) bs
    \<and> (at_start \<longrightarrow> bs \<noteq> [] \<and> bx_type (hd bs) = ''ftyp'') \<and> length bs < n"
  using assms
proof (induction n arbitrary: at_start pre g seen)
  case (Suc n)
  let ?t = "take 4 (drop 4 g)"
  note step = walk_step [OF Suc.prems(2), of n at_start seen]
  have basic: "8 \<le> length g" "at_start \<longrightarrow> ?t = ''ftyp''" "list_all is_ascii_graphic ?t"
    using Suc.prems(1) unfolding step by (auto simp: Let_def split: if_splits)
  obtain k h where k: "extent g = Some (k, h)" "h \<le> k" "k \<le> length g"
    using Suc.prems(1) unfolding step by (auto simp: Let_def not_less split: if_splits option.splits)
  obtain b where b: "box_ok b" "bx_type b = ?t" "box_bytes b = take k g"
    "bx_form b = ToEnd \<longrightarrow> k = length g"
    using read_box [OF basic(1,3) k] by blast
  have g: "g = box_bytes b @ drop k g" using b(3) by simp
  show ?case
  proof (cases "?t = ''moov''")
    case True
    then have "\<not> at_start" using basic(2) by auto
    then show ?thesis using True b g
      by (intro exI [of _ "[]"] exI [of _ b] exI [of _ "drop k g"]) auto
  next
    case False
    have next_box: "box_loop n False (length (pre @ take k g)) (seen \<or> ?t = ''mdat'')
        ((pre @ take k g) @ drop k g) (length ((pre @ take k g) @ drop k g)) \<noteq> Unknown"
      using Suc.prems(1) k basic False unfolding step
      by (simp add: Let_def not_less split: if_splits)
    have small: "length ((pre @ take k g) @ drop k g) < 2 ^ 63" using Suc.prems(2) by simp
    obtain bs index rest where r: "drop k g = concat (map box_bytes bs) @ box_bytes index @ rest"
      "bx_form index = ToEnd \<longrightarrow> rest = []" "list_all box_ok (index # bs)" "bx_type index = ''moov''"
      "list_all (\<lambda>b. bx_type b \<noteq> ''moov'' \<and> bx_form b \<noteq> ToEnd) bs" "length bs < n"
      using Suc.IH [OF next_box small] by blast
    have "box_bytes index \<noteq> []" using r(3) by (auto simp: box_bytes_def box_ok_def split: size_form.splits)
    then have "bx_form b \<noteq> ToEnd" using b(4) r(1) by auto
    then show ?thesis using r b(1,2) g basic(2) False
      by (intro exI [of _ "b # bs"] exI [of _ index] exI [of _ rest]) auto
  qed
qed simp

lemma inspect_chain:
  assumes "box_chain f bs index" "length f < 2 ^ 63"
  shows "inspect f = (if ''mdat'' \<in> set (map bx_type bs) then Trailing else Faststart)"
proof -
  obtain rest where rest: "f = concat (map box_bytes bs) @ box_bytes index @ rest"
    "bx_form index = ToEnd \<longrightarrow> rest = []" using assms(1) unfolding box_chain_def by blast
  have "box_loop MAX_BOXES True (length ([] :: string)) False ([] @ f) (length ([] @ f))
      = (if False \<or> ''mdat'' \<in> set (map bx_type bs) then Trailing else Faststart)"
    by (rule walk_chain [OF _ _ _ _ _ _ rest(2,1)]) (use assms in \<open>auto simp: box_chain_def\<close>)
  then show ?thesis by (simp add: inspect_def inspect_boxes_def)
qed

text \<open>C23: The walk decides the layout exactly. A file is reported as streaming from its first bytes,
  or as worth converting, exactly when it starts with a file type box and a chain of well-formed
  boxes up to an index box within the limit, with no media data before that index, or with some;
  sizes of 32 and 64 bits and boxes that run to the end of the file included. Any other file is
  left alone.\<close>

theorem inspect_iff:
  assumes "length f < 2 ^ 63"
  shows "(inspect f = Faststart \<longleftrightarrow> (\<exists>bs index. box_chain f bs index \<and> ''mdat'' \<notin> set (map bx_type bs)))
    \<and> (inspect f = Trailing \<longleftrightarrow> (\<exists>bs index. box_chain f bs index \<and> ''mdat'' \<in> set (map bx_type bs)))"
proof -
  have sound: "\<exists>bs index. box_chain f bs index" if "inspect f \<noteq> Unknown"
  proof -
    have "box_loop MAX_BOXES True (length ([] :: string)) False ([] @ f) (length ([] @ f)) \<noteq> Unknown"
      using that by (simp add: inspect_def inspect_boxes_def)
    from walk_reads_chain [OF this] assms show ?thesis by (fastforce simp: box_chain_def)
  qed
  show ?thesis
    using inspect_chain [OF _ assms] sound by (metis layout.distinct(1,3,5))
qed

section \<open>Tools and probing\<close>

record tools =
  ffmpeg :: path
  ffprobe :: "path option"

definition sibling_tool :: "(path \<Rightarrow> bool) \<Rightarrow> path \<Rightarrow> string \<Rightarrow> path option" where
  "sibling_tool is_file tool name =
     (let suffix = (case extension (file_name tool) of
                      Some e \<Rightarrow> if eq_ignore_ascii_case e ''exe'' then ''.exe'' else []
                    | None \<Rightarrow> []);
          p = tool\<lparr>file_name := name @ suffix\<rparr>
      in if is_file p then Some p else None)"

definition first_some :: "'a option \<Rightarrow> 'a option \<Rightarrow> 'a option" where
  "first_some x y = (case x of Some v \<Rightarrow> Some v | None \<Rightarrow> y)"

definition discover_tools ::
  "(path \<Rightarrow> bool) \<Rightarrow> (string list \<Rightarrow> path option) \<Rightarrow> path option \<Rightarrow> path option \<Rightarrow> tools option" where
  "discover_tools is_file find_on_path configured_ffmpeg configured_ffprobe =
     (case first_some (Option.bind configured_ffmpeg (\<lambda>p. if is_file p then Some p else None))
             (find_on_path [''ffmpeg'', ''ffmpeg.exe'']) of
        None \<Rightarrow> None
      | Some tool \<Rightarrow>
          Some \<lparr>ffmpeg = tool,
            ffprobe = first_some (Option.bind configured_ffprobe (\<lambda>p. if is_file p then Some p else None))
              (first_some (sibling_tool is_file tool ''ffprobe'')
                (find_on_path [''ffprobe'', ''ffprobe.exe'']))\<rparr>)"

record media_summary =
  md_duration_seconds :: "f64 option"
  md_audio_streams :: nat
  md_video_streams :: nat
  md_chapters :: nat

definition count_of :: "json list \<Rightarrow> string \<Rightarrow> nat" where
  "count_of streams wanted =
     length (filter (\<lambda>s. Option.bind (json_get ''codec_type'' s) as_str = Some (cps wanted)) streams)"

definition finite_positive :: "f64 \<Rightarrow> f64 option" where
  "finite_positive d = (if f64_is_finite d \<and> f64_gt d f64_zero then Some d else None)"

definition number_of_text :: "ustr \<Rightarrow> f64 option" where
  "number_of_text s =
     (if list_all (\<lambda>c. c < 128) s then parse_f64 (map (\<lambda>c. char_of (unat c)) s) else None)"

definition summary_of_json :: "json \<Rightarrow> media_summary" where
  "summary_of_json j =
     (let streams = (case Option.bind (json_get ''streams'' j) as_array of Some xs \<Rightarrow> xs | None \<Rightarrow> [])
      in \<lparr>md_duration_seconds =
            Option.bind (Option.bind (Option.bind (Option.bind (json_get ''format'' j) (json_get ''duration''))
              as_str) number_of_text) finite_positive,
          md_audio_streams = count_of streams ''audio'',
          md_video_streams = count_of streams ''video'',
          md_chapters = (case Option.bind (json_get ''chapters'' j) as_array of
                           Some xs \<Rightarrow> length xs | None \<Rightarrow> 0)\<rparr>)"

text \<open>
  \<open>run\<close> is the exit of ffprobe on a file, \<open>None\<close> when it could not be started: whether it
  succeeded and its output; \<open>parse\<close> reads JSON.
\<close>

definition probe ::
  "(string \<Rightarrow> (bool \<times> string) option) \<Rightarrow> (string \<Rightarrow> json option) \<Rightarrow> tools \<Rightarrow> string \<Rightarrow> media_summary option" where
  "probe run parse t content =
     (if ffprobe t = None then None
      else case run content of
        None \<Rightarrow> None
      | Some (success, out) \<Rightarrow>
          if \<not> success then None else map_option summary_of_json (parse out))"

section \<open>Verification of a copy\<close>

datatype conversion_error =
    NotEnoughSpace nat nat
  | Remux ustr
  | Verification ustr
  | Io string

text \<open>\<open>{:.1}\<close>: the exact value rounded to one decimal, ties to even.\<close>

fun one_decimal :: "f64 \<Rightarrow> string" where
  "one_decimal NaN = ''NaN''"
| "one_decimal PInf = ''inf''"
| "one_decimal NInf = ''-inf''"
| "one_decimal (Fin x) =
     (let n = nat \<bar>round_half_even (10 * x)\<bar>
      in (if x < 0 then ''-'' else []) @ dec (n div 10) @ ''.'' @ dec (n mod 10))"

fun conversion_message :: "conversion_error \<Rightarrow> ustr" where
  "conversion_message (NotEnoughSpace needed available) =
     cps (''not enough free space: needs '' @ dec (needed div (1024 * 1024)) @ '' MiB with ''
       @ dec (available div (1024 * 1024)) @ '' MiB available'')"
| "conversion_message (Remux m) = cps ''ffmpeg failed: '' @ m"
| "conversion_message (Verification m) = cps ''conversion rejected: '' @ m"
| "conversion_message (Io m) = cps m"

definition reject :: "string \<Rightarrow> conversion_error + unit" where
  "reject m = Inl (Verification (cps m))"

definition duration_close :: "f64 \<Rightarrow> f64 \<Rightarrow> bool" where
  "duration_close before after \<longleftrightarrow>
     \<not> f64_gt (f64_abs (f64_sub before after))
         (f64_max DURATION_TOLERANCE_SECONDS (f64_mul before (f64_of_rat (5 / 1000))))"

definition verify_summaries :: "media_summary \<Rightarrow> media_summary \<Rightarrow> conversion_error + unit" where
  "verify_summaries before after =
     (if md_audio_streams after \<noteq> md_audio_streams before
      then reject (''audio stream count changed from '' @ dec (md_audio_streams before) @ '' to ''
             @ dec (md_audio_streams after))
      else if md_video_streams after < md_video_streams before
      then reject (''cover art or video streams dropped from '' @ dec (md_video_streams before) @ '' to ''
             @ dec (md_video_streams after))
      else if md_chapters after < md_chapters before
      then reject (''chapter count dropped from '' @ dec (md_chapters before) @ '' to '' @ dec (md_chapters after))
      else case (md_duration_seconds before, md_duration_seconds after) of
        (Some b, Some a) \<Rightarrow>
          if duration_close b a then Inr ()
          else reject (''duration changed from '' @ one_decimal b @ ''s to '' @ one_decimal a @ ''s'')
      | (Some b, None) \<Rightarrow> reject ''the converted file reported no duration''
      | (None, _) \<Rightarrow> Inr ())"

definition verify ::
  "nat \<Rightarrow> nat \<Rightarrow> media_summary option \<Rightarrow> media_summary option \<Rightarrow> conversion_error + unit" where
  "verify before_bytes after_bytes before after =
     (if after_bytes = 0 then reject ''the converted file was empty''
      else if after_bytes < before_bytes div 2
      then reject (''the converted file is '' @ dec after_bytes @ '' bytes against '' @ dec before_bytes
             @ '' in the original'')
      else case (before, after) of
        (Some b, Some a) \<Rightarrow> verify_summaries b a
      | _ \<Rightarrow> Inr ())"

section \<open>The conversion\<close>

record stored_file =
  fl_bytes :: string
  fl_mode :: nat

type_synonym fs = "path \<Rightarrow> stored_file option"

text \<open>
  What ffmpeg did with a file: whether it exited with success, what it left at the temporary
  path, and its last words.
\<close>

record remux_run =
  rr_success :: bool
  rr_written :: "string option"
  rr_stderr :: ustr
  rr_status :: ustr

text \<open>A rename that fails leaves both names alone, or has already taken the destination away.\<close>

datatype rename_outcome = Renamed | NotRenamed | Lost

record conversion_env =
  ev_available :: "nat option"
  ev_token :: string
  ev_ffmpeg :: "string \<Rightarrow> remux_run option"
  ev_ffprobe :: "string \<Rightarrow> (bool \<times> string) option"
  ev_json :: "string \<Rightarrow> json option"
  ev_new_mode :: nat
  ev_chmod_ok :: bool
  ev_link_ok :: bool
  ev_rename :: rename_outcome
  ev_restore_ok :: bool
  ev_clean_temp_ok :: bool
  ev_clean_backup_ok :: bool
  ev_io :: string

record converted =
  cv_before_bytes :: nat
  cv_after_bytes :: nat
  cv_duration_verified :: bool

text \<open>\<open>str::lines\<close> of a text without a line break at its end.\<close>

definition last_line :: "ustr \<Rightarrow> ustr" where
  "last_line s =
     (let l = rev (takeWhile (\<lambda>c. c \<noteq> 10) (rev s))
      in if l \<noteq> [] \<and> last l = 13 then butlast l else l)"

definition command_message :: "remux_run \<Rightarrow> ustr" where
  "command_message r =
     (let shown = trim (rr_stderr r)
      in if shown = [] then cps ''exit status '' @ rr_status r else last_line shown)"

fun layout_name :: "layout \<Rightarrow> string" where
  "layout_name Faststart = ''Faststart''"
| "layout_name Trailing = ''Trailing''"
| "layout_name Unknown = ''Unknown''"

definition duration_known :: "media_summary option \<Rightarrow> bool" where
  "duration_known s \<longleftrightarrow> Option.bind s md_duration_seconds \<noteq> None"

text \<open>The swap of a verified copy: the states it goes through and its result.\<close>

definition swap_in ::
  "conversion_env \<Rightarrow> path \<Rightarrow> path \<Rightarrow> path \<Rightarrow> stored_file \<Rightarrow> stored_file \<Rightarrow> converted \<Rightarrow> fs
   \<Rightarrow> fs list \<times> (conversion_error + converted)" where
  "swap_in env p temp backup original copy outcome s =
     (let s2 = (if ev_chmod_ok env then s(temp \<mapsto> copy\<lparr>fl_mode := fl_mode original\<rparr>) else s);
          s3 = (if ev_link_ok env then s2(backup := s2 p) else s2);
          s4 = s3(p := None)
      in case ev_rename env of
           Renamed \<Rightarrow> ([s2, s3, s3(p := s3 temp, temp := None)], Inr outcome)
         | NotRenamed \<Rightarrow> ([s2, s3], Inl (Io (ev_io env)))
         | Lost \<Rightarrow>
             ([s2, s3, s4, if ev_link_ok env \<and> ev_restore_ok env then s4(p := s4 backup, backup := None) else s4],
              Inl (Io (ev_io env))))"

definition remux_and_swap ::
  "conversion_env \<Rightarrow> tools \<Rightarrow> path \<Rightarrow> path \<Rightarrow> path \<Rightarrow> nat \<Rightarrow> media_summary option \<Rightarrow> fs
   \<Rightarrow> fs list \<times> (conversion_error + converted)" where
  "remux_and_swap env t p temp backup before_bytes before s =
     (case s p of
        None \<Rightarrow> ([], Inl (Io (ev_io env)))
      | Some original \<Rightarrow>
          (case ev_ffmpeg env (fl_bytes original) of
             None \<Rightarrow> ([], Inl (Io (ev_io env)))
           | Some run \<Rightarrow>
               (let s1 = (case rr_written run of
                            None \<Rightarrow> s | Some c \<Rightarrow> s(temp \<mapsto> \<lparr>fl_bytes = c, fl_mode = ev_new_mode env\<rparr>)) in
                if \<not> rr_success run then ([s1], Inl (Remux (command_message run)))
                else case s1 temp of
                  None \<Rightarrow> ([s1], Inl (Io (ev_io env)))
                | Some copy \<Rightarrow>
                    if inspect (fl_bytes copy) \<noteq> Faststart
                    then ([s1], Inl (Verification (cps (''the converted file is not faststart (''
                           @ layout_name (inspect (fl_bytes copy)) @ '')''))))
                    else
                      (let after = probe (ev_ffprobe env) (ev_json env) t (fl_bytes copy) in
                       case verify before_bytes (length (fl_bytes copy)) before after of
                         Inl e \<Rightarrow> ([s1], Inl e)
                       | Inr _ \<Rightarrow>
                           (let (states, r) = swap_in env p temp backup original copy
                                  \<lparr>cv_before_bytes = before_bytes, cv_after_bytes = length (fl_bytes copy),
                                   cv_duration_verified = duration_known before \<and> duration_known after\<rparr> s1
                            in (s1 # states, r))))))"

definition temp_path :: "path \<Rightarrow> string \<Rightarrow> path" where
  "temp_path p token =
     p\<lparr>file_name := TEMP_PREFIX @ token @ ''.''
         @ (case extension (file_name p) of Some e \<Rightarrow> e | None \<Rightarrow> ''mp4'')\<rparr>"

definition backup_path :: "path \<Rightarrow> string \<Rightarrow> path" where
  "backup_path p token = p\<lparr>file_name := TEMP_PREFIX @ ''backup-'' @ token\<rparr>"

definition convert_in_place ::
  "conversion_env \<Rightarrow> tools \<Rightarrow> path \<Rightarrow> nat \<Rightarrow> fs \<Rightarrow> fs list \<times> (conversion_error + converted)" where
  "convert_in_place env t p min_free_bytes s =
     (case (s p, ev_available env) of
        (Some original, Some available) \<Rightarrow>
          (let before_bytes = length (fl_bytes original);
               needed = u64_sat (before_bytes + min_free_bytes);
               temp = temp_path p (ev_token env); backup = backup_path p (ev_token env)
           in if available < needed then ([s], Inl (NotEnoughSpace needed available))
              else
                (let (states, r) = remux_and_swap env t p temp backup before_bytes
                       (probe (ev_ffprobe env) (ev_json env) t (fl_bytes original)) s;
                     s6 = (if isl r \<and> ev_clean_temp_ok env then (last (s # states))(temp := None)
                           else last (s # states));
                     s7 = (if ev_clean_backup_ok env then s6(backup := None) else s6)
                 in (s # states @ [s6, s7], r)))
      | _ \<Rightarrow> ([s], Inl (Io (ev_io env))))"

text \<open>The leftovers of a crashed run in one directory; \<open>removable\<close> says which removals succeed.\<close>

definition sweep_work_files :: "(path \<Rightarrow> bool) \<Rightarrow> string \<Rightarrow> path list \<Rightarrow> fs \<Rightarrow> fs \<times> nat" where
  "sweep_work_files removable directory entries s =
     fold (\<lambda>p (s, removed).
        if in_dir p = directory \<and> s p \<noteq> None \<and> is_work_file p \<and> removable p
        then (s(p := None), removed + 1) else (s, removed)) entries (s, 0)"

section \<open>A conversion never loses a book\<close>

text \<open>What a file must be to take the place of another.\<close>

definition replaceable :: "conversion_env \<Rightarrow> tools \<Rightarrow> stored_file \<Rightarrow> stored_file \<Rightarrow> bool" where
  "replaceable env t original copy \<longleftrightarrow>
     inspect (fl_bytes copy) = Faststart \<and> fl_bytes copy \<noteq> []
     \<and> length (fl_bytes original) div 2 \<le> length (fl_bytes copy)
     \<and> (case (probe (ev_ffprobe env) (ev_json env) t (fl_bytes original),
              probe (ev_ffprobe env) (ev_json env) t (fl_bytes copy)) of
          (Some b, Some a) \<Rightarrow>
            md_audio_streams a = md_audio_streams b \<and> md_video_streams b \<le> md_video_streams a
            \<and> md_chapters b \<le> md_chapters a
            \<and> (case (md_duration_seconds b, md_duration_seconds a) of
                 (Some x, Some y) \<Rightarrow> duration_close x y | (Some x, None) \<Rightarrow> False | (None, _) \<Rightarrow> True)
        | _ \<Rightarrow> True)"

lemma verified_replaceable:
  assumes "verify (length (fl_bytes original)) (length (fl_bytes copy))
      (probe (ev_ffprobe env) (ev_json env) t (fl_bytes original))
      (probe (ev_ffprobe env) (ev_json env) t (fl_bytes copy)) = Inr u"
    and "inspect (fl_bytes copy) = Faststart"
  shows "replaceable env t original copy" "replaceable env t original (copy\<lparr>fl_mode := m\<rparr>)"
  using assms
  by (auto simp: replaceable_def verify_def verify_summaries_def reject_def
      split: if_splits option.splits)

lemma work_paths:
  assumes "\<not> is_work_file p" "length token = 32" "list_all is_ascii_hexdigit token"
  shows "temp_path p token \<noteq> p" "backup_path p token \<noteq> p" "temp_path p token \<noteq> backup_path p token"
proof -
  have "is_work_file (temp_path p token)" "is_work_file (backup_path p token)"
    by (simp_all add: temp_path_def backup_path_def is_work_file_def)
  then show "temp_path p token \<noteq> p" "backup_path p token \<noteq> p" using assms(1) by metis+
  show "temp_path p token \<noteq> backup_path p token"
  proof
    assume "temp_path p token = backup_path p token"
    then have "file_name (temp_path p token) = file_name (backup_path p token)" by (rule arg_cong)
    then have "token @ ''.'' @ (case extension (file_name p) of Some e \<Rightarrow> e | None \<Rightarrow> ''mp4'') = ''backup-'' @ token"
      by (simp add: temp_path_def backup_path_def)
    then have "(token @ ''.'' @ (case extension (file_name p) of Some e \<Rightarrow> e | None \<Rightarrow> ''mp4'')) ! 3 = CHR ''k''"
      by (simp only:) simp
    then have "token ! 3 = CHR ''k''" using assms(2) by (simp add: nth_append)
    moreover have "is_ascii_hexdigit (token ! 3)" using assms(2,3) by (simp add: list_all_length)
    ultimately show False by (simp add: is_ascii_hexdigit_def is_ascii_digit_def byte_def list_all_iff)
  qed
qed

text \<open>
  A state in which the book can still be read: its path holds the original or a verified copy, or
  the original can be fetched from its backup link; and no other file was touched.
\<close>

definition readable ::
  "conversion_env \<Rightarrow> tools \<Rightarrow> path \<Rightarrow> path \<Rightarrow> path \<Rightarrow> stored_file \<Rightarrow> fs \<Rightarrow> fs \<Rightarrow> bool" where
  "readable env t p temp backup original s0 s \<longleftrightarrow>
     (s p = Some original \<or> (\<exists>c. s p = Some c \<and> replaceable env t original c)
      \<or> (s p = None \<and> s backup = Some original))
     \<and> (\<forall>q. q \<noteq> p \<and> q \<noteq> temp \<and> q \<noteq> backup \<longrightarrow> s q = s0 q)"

text \<open>A rename either happens, or fails and leaves something to go back to.\<close>

definition recoverable :: "conversion_env \<Rightarrow> bool" where
  "recoverable env \<longleftrightarrow> ev_rename env = Lost \<longrightarrow> ev_link_ok env \<and> ev_restore_ok env"

lemma swap_in_readable:
  assumes "swap_in env p temp backup original copy out s = (states, r)"
    and "s p = Some original" "s temp = Some copy" "readable env t p temp backup original s0 s"
    and "replaceable env t original copy" "replaceable env t original (copy\<lparr>fl_mode := fl_mode original\<rparr>)"
    and "p \<noteq> temp" "p \<noteq> backup" "temp \<noteq> backup" "recoverable env"
  shows "list_all (readable env t p temp backup original s0) states" "states \<noteq> []"
    and "case r of Inl e \<Rightarrow> last states p = Some original
      | Inr c \<Rightarrow> c = out \<and> (\<exists>f. last states p = Some f \<and> fl_bytes f = fl_bytes copy \<and> replaceable env t original f)"
  using assms
  by (auto simp: swap_in_def readable_def recoverable_def Let_def split: if_splits rename_outcome.splits)

lemma remux_and_swap_readable:
  assumes "remux_and_swap env t p temp backup (length (fl_bytes original))
      (probe (ev_ffprobe env) (ev_json env) t (fl_bytes original)) s = (states, r)"
    and "s p = Some original" "p \<noteq> temp" "p \<noteq> backup" "temp \<noteq> backup" "recoverable env"
  shows "list_all (readable env t p temp backup original s) states"
    and "case r of Inl e \<Rightarrow> last (s # states) p = Some original
      | Inr c \<Rightarrow> \<exists>f. last (s # states) p = Some f \<and> replaceable env t original f
          \<and> c = \<lparr>cv_before_bytes = length (fl_bytes original), cv_after_bytes = length (fl_bytes f),
                 cv_duration_verified =
                   duration_known (probe (ev_ffprobe env) (ev_json env) t (fl_bytes original))
                   \<and> duration_known (probe (ev_ffprobe env) (ev_json env) t (fl_bytes f))\<rparr>"
proof -
  have start: "readable env t p temp backup original s s" using assms(2) by (simp add: readable_def)
  define run where "run = the (ev_ffmpeg env (fl_bytes original))"
  let ?s1 = "case rr_written run of None \<Rightarrow> s | Some c \<Rightarrow> s(temp \<mapsto> \<lparr>fl_bytes = c, fl_mode = ev_new_mode env\<rparr>)"
  have s1: "readable env t p temp backup original s ?s1" "?s1 p = Some original"
    using assms(2,3) by (auto simp: readable_def split: option.splits)
  consider (quit) "states = []" "isl r" | (stop) "states = [?s1]" "isl r"
    | (swap) copy out states' where "?s1 temp = Some copy" "inspect (fl_bytes copy) = Faststart"
        "verify (length (fl_bytes original)) (length (fl_bytes copy))
          (probe (ev_ffprobe env) (ev_json env) t (fl_bytes original))
          (probe (ev_ffprobe env) (ev_json env) t (fl_bytes copy)) = Inr ()"
        "swap_in env p temp backup original copy out ?s1 = (states', r)" "states = ?s1 # states'"
        "out = \<lparr>cv_before_bytes = length (fl_bytes original), cv_after_bytes = length (fl_bytes copy),
                 cv_duration_verified =
                   duration_known (probe (ev_ffprobe env) (ev_json env) t (fl_bytes original))
                   \<and> duration_known (probe (ev_ffprobe env) (ev_json env) t (fl_bytes copy))\<rparr>"
    using assms(1,2)
    by (cases "ev_ffmpeg env (fl_bytes original)")
      (auto simp: remux_and_swap_def run_def Let_def split: if_splits option.splits sum.splits prod.splits)
  note cases = this
  show "list_all (readable env t p temp backup original s) states"
    using cases
  proof cases
    case (swap copy out states')
    note ok = verified_replaceable [OF swap(3,2)]
    show ?thesis using swap_in_readable(1) [OF swap(4) s1(2) swap(1) s1(1) ok assms(3-6)] s1(1) swap(5) by simp
  qed (use s1 in simp_all)
  show "case r of Inl e \<Rightarrow> last (s # states) p = Some original
      | Inr c \<Rightarrow> \<exists>f. last (s # states) p = Some f \<and> replaceable env t original f
          \<and> c = \<lparr>cv_before_bytes = length (fl_bytes original), cv_after_bytes = length (fl_bytes f),
                 cv_duration_verified =
                   duration_known (probe (ev_ffprobe env) (ev_json env) t (fl_bytes original))
                   \<and> duration_known (probe (ev_ffprobe env) (ev_json env) t (fl_bytes f))\<rparr>"
    using cases
  proof cases
    case (swap copy out states')
    note ok = verified_replaceable [OF swap(3,2)]
    show ?thesis
      using swap_in_readable(2,3) [OF swap(4) s1(2) swap(1) s1(1) ok assms(3-6)] swap(5,6)
      by (auto split: sum.splits)
  qed (use s1 assms(2) in \<open>auto split: sum.splits\<close>)
qed


section \<open>Examples\<close>

definition ex_box :: "string \<Rightarrow> mp4_box" where
  "ex_box t = \<lparr>bx_type = t, bx_form = Short, bx_payload = ''....''\<rparr>"

definition ex_mp4 :: "string list \<Rightarrow> string" where
  "ex_mp4 ts = concat (map (box_bytes \<circ> ex_box) ts)"

lemma ex_chains:
  "box_chain (ex_mp4 [''ftyp'', ''mdat'', ''moov'']) [ex_box ''ftyp'', ex_box ''mdat''] (ex_box ''moov'')"
  "box_chain (ex_mp4 [''ftyp'', ''moov'', ''mdat'']) [ex_box ''ftyp''] (ex_box ''moov'')"
  by (auto simp: box_chain_def ex_mp4_def ex_box_def box_ok_def MAX_BOXES_def is_ascii_graphic_def byte_def)

lemma ex_sizes:
  "length (ex_mp4 [''ftyp'', ''mdat'', ''moov'']) = 36" "length (ex_mp4 [''ftyp'', ''moov'', ''mdat'']) = 36"
  by (simp_all add: ex_mp4_def ex_box_def box_bytes_def)

theorem inspect_iff_witness:
  "inspect (ex_mp4 [''ftyp'', ''mdat'', ''moov'']) = Trailing"
proof -
  have "length (ex_mp4 [''ftyp'', ''mdat'', ''moov'']) < 2 ^ 63" by (simp add: ex_sizes)
  moreover have "''mdat'' \<in> set (map bx_type [ex_box ''ftyp'', ex_box ''mdat''])" by (simp add: ex_box_def)
  ultimately show ?thesis using inspect_iff ex_chains(1) by blast
qed

definition ex_m4b :: path where
  "ex_m4b = \<lparr>in_dir = ''d'', file_name = ''a.m4b''\<rparr>"

definition ex_original :: stored_file where
  "ex_original = \<lparr>fl_bytes = ex_mp4 [''ftyp'', ''mdat'', ''moov''], fl_mode = 420\<rparr>"

definition ex_env :: conversion_env where
  "ex_env = \<lparr>ev_available = Some 1000, ev_token = replicate 32 (CHR ''0''),
     ev_ffmpeg = (\<lambda>c. Some \<lparr>rr_success = True, rr_written = Some (ex_mp4 [''ftyp'', ''moov'', ''mdat'']),
        rr_stderr = [], rr_status = []\<rparr>),
     ev_ffprobe = (\<lambda>c. None), ev_json = (\<lambda>c. None), ev_new_mode = 384, ev_chmod_ok = True,
     ev_link_ok = True, ev_rename = Renamed, ev_restore_ok = True, ev_clean_temp_ok = True,
     ev_clean_backup_ok = True, ev_io = ''io''\<rparr>"

definition ex_tools :: tools where
  "ex_tools = \<lparr>ffmpeg = ex_m4b, ffprobe = None\<rparr>"

lemma ex_converts:
  "\<exists>states c. convert_in_place ex_env ex_tools ex_m4b 100 [ex_m4b \<mapsto> ex_original] = (states, Inr c)"
proof -
  have layout: "inspect (ex_mp4 [''ftyp'', ''moov'', ''mdat'']) = Faststart"
    using inspect_chain [OF ex_chains(2)] by (simp add: ex_sizes ex_box_def)
  have fresh: "temp_path ex_m4b (ev_token ex_env) \<noteq> ex_m4b"
    by (rule work_paths)
      (simp_all add: ex_m4b_def ex_env_def is_work_file_def TEMP_PREFIX_def is_ascii_hexdigit_def is_ascii_digit_def byte_def list_all_iff)
  show ?thesis
    using layout fresh
    by (simp add: convert_in_place_def remux_and_swap_def swap_in_def ex_original_def ex_sizes u64_sat_def
        verify_def probe_def ex_tools_def ex_env_def Let_def split: prod.splits)
qed


end
