(* ===== verification/Jobs.thy ===== *)
theory Jobs
  imports Accounts Table "HOL-Library.List_Lexorder" "HOL-Library.Char_ord"
    "HOL-Library.Product_Lexorder"
begin

text \<open>
  The background job table (\<open>jobs.rs\<close>) and what the read-along queue of \<open>sync.rs\<close> and
  \<open>sync_report.rs\<close> adds to it: creation with deduplication, progress, output and results, the
  diagnosis of a failed alignment, and the two ways old results leave the table. Every function
  below runs under the table's lock; the clock and random identifiers are arguments. Output and
  messages are UTF-8 bytes.
\<close>

section \<open>Data\<close>

datatype cause =
    RuntimeCrash | NoisyAudio | ChapterMismatch | LanguageMismatch | EditionMismatch
  | RuntimeMissing | AudioUnreadable | Timeout | LanguageGuess | UnknownCause

record job_chapter =
  jc_index :: nat
  jc_label :: string
  jc_cause :: "cause option"

record job_progress =
  jp_step :: string
  jp_fraction :: "f64 option"
  jp_completed :: "nat option"
  jp_total :: "nat option"

record job_status =
  j_resume_pending :: bool
  j_queue_position :: "u64 option"
  j_pause_requested :: bool
  j_id :: string
  j_kind :: string
  j_target_id :: "string option"
  j_status :: string
  j_started_at :: string
  j_running_at :: "string option"
  j_finished_at :: "string option"
  j_exit_code :: "int option"
  j_output :: string
  j_error :: "string option"
  j_progress :: "job_progress option"
  j_chapters :: "job_chapter list"
  j_failed_chapters :: "job_chapter list"
  j_cause :: "cause option"
  j_heard_language :: "string option"

type_synonym jobs = "(string, job_status) table"

definition progress_new :: "string \<Rightarrow> job_progress" where
  "progress_new step = \<lparr>jp_step = step, jp_fraction = None, jp_completed = None, jp_total = None\<rparr>"

definition progress_fraction :: "f64 \<Rightarrow> job_progress \<Rightarrow> job_progress" where
  "progress_fraction x p = p\<lparr>jp_fraction := Some (f64_clamp x f64_zero (Fin 1))\<rparr>"

definition progress_steps :: "nat \<Rightarrow> nat \<Rightarrow> job_progress \<Rightarrow> job_progress" where
  "progress_steps done_units all_units p = p\<lparr>jp_completed := Some done_units, jp_total := Some all_units\<rparr>"

section \<open>Reading the table\<close>

text \<open>\<open>Iterator::max_by_key\<close> keeps the last of equal elements, \<open>min_by_key\<close> the first.\<close>

fun max_by_key :: "('a \<Rightarrow> 'k::linorder) \<Rightarrow> 'a list \<Rightarrow> 'a option" where
  "max_by_key f [] = None"
| "max_by_key f (x # xs) =
     (case max_by_key f xs of None \<Rightarrow> Some x | Some y \<Rightarrow> if f x \<le> f y then Some y else Some x)"

definition values_of :: "('k, 'v) table \<Rightarrow> 'v list" where
  "values_of m = map snd m"

definition job_started_timestamp :: "job_status \<Rightarrow> u64" where
  "job_started_timestamp j = (case parse_u64 (j_started_at j) of Some n \<Rightarrow> n | None \<Rightarrow> 0)"

definition is_active_job :: "job_status \<Rightarrow> bool" where
  "is_active_job j \<longleftrightarrow> j_status j = ''queued'' \<or> j_status j = ''running''"

definition is_unfinished_job :: "job_status \<Rightarrow> bool" where
  "is_unfinished_job j \<longleftrightarrow> is_active_job j \<or> j_status j = ''paused''"

definition is_finished_job :: "job_status \<Rightarrow> bool" where
  "is_finished_job j \<longleftrightarrow> j_status j = ''completed'' \<or> j_status j = ''failed'' \<or> j_status j = ''cancelled''"

definition active_job_id :: "jobs \<Rightarrow> string \<Rightarrow> string option" where
  "active_job_id m kind =
     map_option j_id (max_by_key job_started_timestamp
       (filter (\<lambda>j. j_kind j = kind \<and> is_active_job j) (values_of m)))"

definition next_job_timestamp :: "jobs \<Rightarrow> u64 \<Rightarrow> u64" where
  "next_job_timestamp m now =
     max now (sat_add (foldl max 0 (map job_started_timestamp (values_of m))) 1)"

text \<open>The last bytes of a text, from a character boundary on.\<close>

definition char_boundary :: "string \<Rightarrow> bool" where
  "char_boundary s \<longleftrightarrow> s = [] \<or> \<not> (128 \<le> byte (hd s) \<and> byte (hd s) < 192)"

fun skip_to_boundary :: "string \<Rightarrow> string" where
  "skip_to_boundary [] = []"
| "skip_to_boundary (c # s) = (if char_boundary (c # s) then c # s else skip_to_boundary s)"

definition text_tail :: "string \<Rightarrow> nat \<Rightarrow> string" where
  "text_tail v max_bytes =
     (if length v \<le> max_bytes then v else skip_to_boundary (drop (length v - max_bytes) v))"

definition MAX_TRACKED_JOBS :: nat where
  "MAX_TRACKED_JOBS = 50"

definition MAX_JOB_OUTPUT_BYTES :: nat where
  "MAX_JOB_OUTPUT_BYTES = 64 * 1024"

definition JOB_LIST_OUTPUT_BYTES :: nat where
  "JOB_LIST_OUTPUT_BYTES = 4 * 1024"

definition job_for_list :: "job_status \<Rightarrow> job_status" where
  "job_for_list j =
     j\<lparr>j_output := text_tail (j_output j) JOB_LIST_OUTPUT_BYTES,
       j_error := map_option (\<lambda>e. text_tail e JOB_LIST_OUTPUT_BYTES) (j_error j)\<rparr>"

text \<open>The newest first; \<open>sort_by_key\<close> is stable.\<close>

definition list_jobs :: "string option \<Rightarrow> jobs \<Rightarrow> job_status list" where
  "list_jobs kind m =
     sort_key (\<lambda>j. - int (unat (job_started_timestamp j)))
       (map job_for_list (filter (\<lambda>j. case kind of None \<Rightarrow> True | Some k \<Rightarrow> j_kind j = k) (values_of m)))"

definition get_job :: "auth_user \<Rightarrow> string \<Rightarrow> jobs \<Rightarrow> job_status result" where
  "get_job auth job_id m =
     (case tget m job_id of
        None \<Rightarrow> Inl (not_found ''Job not found'')
      | Some j \<Rightarrow>
          if a_is_admin auth then Inr j
          else Inr (j\<lparr>j_output := [],
                      j_error := map_option (\<lambda>_. ''The background operation failed.'') (j_error j)\<rparr>))"

section \<open>Writing the table\<close>

text \<open>Finished jobs leave, the oldest first, while the table exceeds the cap.\<close>

fun drop_oldest :: "(string \<times> u64) list \<Rightarrow> jobs \<Rightarrow> jobs" where
  "drop_oldest [] m = m"
| "drop_oldest (e # es) m =
     (if length m \<le> MAX_TRACKED_JOBS then m else drop_oldest es (tremove (fst e) m))"

definition prune_finished_jobs :: "jobs \<Rightarrow> jobs" where
  "prune_finished_jobs m =
     (if length m \<le> MAX_TRACKED_JOBS then m
      else drop_oldest (sort_key snd
             (map (\<lambda>j. (j_id j, job_started_timestamp j)) (filter is_finished_job (values_of m)))) m)"

definition new_job :: "string \<Rightarrow> string \<Rightarrow> string option \<Rightarrow> string \<Rightarrow> string \<Rightarrow> job_status" where
  "new_job i kind target_id s started_at =
     \<lparr>j_resume_pending = False, j_queue_position = None, j_pause_requested = False, j_id = i,
      j_kind = kind, j_target_id = target_id, j_status = s, j_started_at = started_at,
      j_running_at = (if s = ''running'' then Some started_at else None), j_finished_at = None,
      j_exit_code = None, j_output = [], j_error = None, j_progress = None, j_chapters = [],
      j_failed_chapters = [], j_cause = None, j_heard_language = None\<rparr>"

definition pending_twin :: "jobs \<Rightarrow> string \<Rightarrow> string option \<Rightarrow> job_status option" where
  "pending_twin m kind target_id =
     max_by_key job_started_timestamp
       (filter (\<lambda>j. j_kind j = kind \<and> j_target_id j = target_id \<and> is_unfinished_job j) (values_of m))"

definition create_job_with_state ::
  "string \<Rightarrow> u64 \<Rightarrow> string \<Rightarrow> string option \<Rightarrow> string \<Rightarrow> bool \<Rightarrow> jobs \<Rightarrow> jobs \<times> string \<times> bool" where
  "create_job_with_state fresh now kind target_id s deduplicate_pending m =
     (case (if deduplicate_pending then pending_twin m kind target_id else None) of
        Some existing \<Rightarrow> (m, j_id existing, False)
      | None \<Rightarrow>
          (prune_finished_jobs
             (tinsert fresh (new_job fresh kind target_id s (dec (unat (next_job_timestamp m now)))) m),
           fresh, True))"

definition create_queued_job ::
  "string \<Rightarrow> u64 \<Rightarrow> string \<Rightarrow> string option \<Rightarrow> jobs \<Rightarrow> jobs \<times> string \<times> bool" where
  "create_queued_job fresh now kind target_id m =
     create_job_with_state fresh now kind target_id ''queued'' True m"

definition update_job_running :: "u64 \<Rightarrow> string \<Rightarrow> jobs \<Rightarrow> jobs" where
  "update_job_running now job_id =
     tmodify job_id (\<lambda>j. j\<lparr>j_status := ''running'', j_running_at := Some (dec (unat now))\<rparr>)"

definition update_job_progress :: "string \<Rightarrow> job_progress \<Rightarrow> jobs \<Rightarrow> jobs" where
  "update_job_progress job_id p = tmodify job_id (\<lambda>j. j\<lparr>j_progress := Some p\<rparr>)"

definition update_job_output :: "string \<Rightarrow> string \<Rightarrow> jobs \<Rightarrow> jobs" where
  "update_job_output job_id extra =
     tmodify job_id (\<lambda>j.
       let out = j_output j @ extra in
       j\<lparr>j_output := (if length out > MAX_JOB_OUTPUT_BYTES then text_tail out MAX_JOB_OUTPUT_BYTES else out)\<rparr>)"

section \<open>Results\<close>

text \<open>\<open>str::contains\<close> and \<open>str::split_once\<close> by a text.\<close>

fun contains :: "string \<Rightarrow> string \<Rightarrow> bool" where
  "contains p [] = (p = [])"
| "contains p (c # s) = (take (length p) (c # s) = p \<or> contains p s)"

fun after_first :: "string \<Rightarrow> string \<Rightarrow> string option" where
  "after_first p [] = (if p = [] then Some [] else None)"
| "after_first p (c # s) =
     (if take (length p) (c # s) = p then Some (drop (length p) (c # s)) else after_first p s)"

definition killed_by_signal :: "string \<Rightarrow> bool" where
  "killed_by_signal e =
     (case after_first ''failed with status '' e of
        None \<Rightarrow> False
      | Some s \<Rightarrow>
          take 6 s = ''signal''
          \<or> map_option (takeWhile is_ascii_digit) (strip_prefix ''exit status: '' s)
              \<in> {Some ''134'', Some ''137'', Some ''139''})"

definition classify_error :: "string \<Rightarrow> cause" where
  "classify_error e =
     (if contains ''Failed to run alignment CLI'' e \<or> contains ''Failed to run ffmpeg'' e then RuntimeMissing
      else if contains ''command timeout'' e \<or> contains ''timed out'' e then Timeout
      else if contains ''ffmpeg failed to extract'' e then AudioUnreadable
      else if contains ''language identifier'' e then LanguageGuess
      else if contains ''stopped without writing a result'' e \<or> killed_by_signal e then RuntimeCrash
      else if contains ''stalled at'' e \<or> contains ''produced no usable sentence fragments'' e then NoisyAudio
      else UnknownCause)"

definition SYNC_GENERATE_JOB_KIND :: string where
  "SYNC_GENERATE_JOB_KIND = ''sync-generate''"

definition is_sync_job :: "job_status \<Rightarrow> bool" where
  "is_sync_job j \<longleftrightarrow> j_kind j = SYNC_GENERATE_JOB_KIND"

definition finished_sync_result :: "job_status \<Rightarrow> bool" where
  "finished_sync_result j \<longleftrightarrow> is_sync_job j \<and> is_finished_job j"

text \<open>A book keeps its latest result.\<close>

definition result_order :: "job_status \<Rightarrow> u64 \<times> string" where
  "result_order j = (job_started_timestamp j, j_id j)"

definition latest_result :: "jobs \<Rightarrow> string \<Rightarrow> string option" where
  "latest_result m book_id =
     map_option j_id (max_by_key result_order
       (filter (\<lambda>j. finished_sync_result j \<and> j_target_id j = Some book_id) (values_of m)))"

definition prune_sync_results :: "jobs \<Rightarrow> jobs" where
  "prune_sync_results m =
     tretain (\<lambda>i j. \<not> finished_sync_result j
         \<or> (case j_target_id j of None \<Rightarrow> True | Some book_id \<Rightarrow> latest_result m book_id = Some i)) m"

text \<open>The queue rank, and the order the queue runs in.\<close>

definition sync_queue_order :: "job_status \<Rightarrow> u64" where
  "sync_queue_order j = (case j_queue_position j of Some n \<Rightarrow> n | None \<Rightarrow> job_started_timestamp j)"

section \<open>What pruning keeps\<close>

definition jobs_ok :: "jobs \<Rightarrow> bool" where
  "jobs_ok m \<longleftrightarrow> tvalid m \<and> (\<forall>i j. tget m i = Some j \<longrightarrow> j_id j = i)"

lemma jobs_okD: "jobs_ok m \<Longrightarrow> tget m i = Some j \<Longrightarrow> j_id j = i"
  by (simp add: jobs_ok_def)

lemma jobs_ok_Nil [simp]: "jobs_ok []"
  by (simp add: jobs_ok_def)

lemma jobs_ok_insert: "jobs_ok m \<Longrightarrow> j_id j = i \<Longrightarrow> jobs_ok (tinsert i j m)"
  by (auto simp: jobs_ok_def tbl.lookup_insert intro: tbl.valid_insert)

lemma jobs_ok_remove: "jobs_ok m \<Longrightarrow> jobs_ok (tremove i m)"
  by (auto simp: jobs_ok_def tbl.lookup_remove intro: tbl.valid_remove)

lemma jobs_ok_modify: "jobs_ok m \<Longrightarrow> (\<And>j. j_id (f j) = j_id j) \<Longrightarrow> jobs_ok (tmodify i f m)"
  by (auto simp: jobs_ok_def tget_modify intro: tvalid_modify split: if_splits)

lemma jobs_ok_retain: "jobs_ok m \<Longrightarrow> jobs_ok (tretain P m)"
  by (auto simp: jobs_ok_def tget_retain intro: tvalid_retain split: option.splits if_splits)

lemma in_values_of: "tvalid m \<Longrightarrow> j \<in> set (values_of m) \<longleftrightarrow> (\<exists>i. tget m i = Some j)"
  by (force simp: values_of_def dest: in_tget tget_in)

lemma max_by_key_in: "max_by_key f xs = Some x \<Longrightarrow> x \<in> set xs"
  by (induction xs arbitrary: x) (auto split: option.splits if_splits)

lemma max_by_key_None [simp]: "max_by_key f xs = None \<longleftrightarrow> xs = []"
  by (cases xs) (auto split: option.splits)

lemma max_by_key_max: "max_by_key f xs = Some x \<Longrightarrow> y \<in> set xs \<Longrightarrow> f y \<le> f x"
  by (induction xs arbitrary: x) (auto split: option.splits if_splits)

text \<open>Pruning only takes finished jobs away, and only old ones.\<close>

lemma drop_oldest_valid: "tvalid m \<Longrightarrow> tvalid (drop_oldest es m)"
  by (induction es arbitrary: m) (simp_all add: tbl.valid_remove)

lemma drop_oldest_tget:
  "tvalid m \<Longrightarrow> tget (drop_oldest es m) i = tget m i
     \<or> tget (drop_oldest es m) i = None \<and> i \<in> fst ` set es"
proof (induction es arbitrary: m)
  case (Cons e es)
  have "tget (drop_oldest es (tremove (fst e) m)) i = tget (tremove (fst e) m) i
      \<or> tget (drop_oldest es (tremove (fst e) m)) i = None \<and> i \<in> fst ` set es"
    by (rule Cons.IH) (rule tbl.valid_remove [OF Cons.prems])
  then show ?case by (auto simp: tbl.lookup_remove [OF Cons.prems])
qed simp

lemma prune_tget:
  assumes "jobs_ok m"
  shows "tget (prune_finished_jobs m) i = tget m i
    \<or> (tget (prune_finished_jobs m) i = None \<and> (\<exists>j. tget m i = Some j \<and> is_finished_job j))"
proof (cases "length m \<le> MAX_TRACKED_JOBS")
  case False
  let ?es = "sort_key snd (map (\<lambda>j. (j_id j, job_started_timestamp j)) (filter is_finished_job (values_of m)))"
  have v: "tvalid m" using assms by (simp add: jobs_ok_def)
  have "\<exists>j. tget m i = Some j \<and> is_finished_job j" if "i \<in> fst ` set ?es"
    using that assms in_values_of [OF v] by (auto dest: jobs_okD)
  then show ?thesis using drop_oldest_tget [OF v, of ?es i] False by (auto simp: prune_finished_jobs_def)
qed (simp add: prune_finished_jobs_def)

lemma prune_ok: "jobs_ok m \<Longrightarrow> jobs_ok (prune_finished_jobs m)"
proof -
  assume ok: "jobs_ok m"
  have "tvalid (prune_finished_jobs m)"
    using ok drop_oldest_valid by (simp add: prune_finished_jobs_def jobs_ok_def)
  moreover have "tget (prune_finished_jobs m) i = Some j \<Longrightarrow> tget m i = Some j" for i j
    using prune_tget [OF ok, of i] by auto
  ultimately show ?thesis using ok by (auto simp: jobs_ok_def)
qed

lemma finished_not_unfinished: "is_finished_job j \<Longrightarrow> \<not> is_unfinished_job j"
  by (auto simp: is_finished_job_def is_unfinished_job_def is_active_job_def)

lemma prune_keeps_unfinished:
  "jobs_ok m \<Longrightarrow> tget m i = Some j \<Longrightarrow> is_unfinished_job j \<Longrightarrow> tget (prune_finished_jobs m) i = Some j"
  using prune_tget [of m i] finished_not_unfinished by fastforce

lemma prune_sub: "jobs_ok m \<Longrightarrow> tget (prune_finished_jobs m) i = Some j \<Longrightarrow> tget m i = Some j"
  using prune_tget [of m i] by auto
end
