(* ===== verification/SyncQueue.thy ===== *)
theory SyncQueue
  imports Jobs
begin

text \<open>
  The durable read-along queue (\<open>sync.rs\<close>) with the schedule entries that follow its jobs
  (\<open>sync_schedule.rs\<close>). The job table lives in memory; \<open>sync-jobs.json\<close> holds the last
  published snapshot of its sync jobs and \<open>sync-schedules.json\<close> the entries. A request to queue a
  book takes the table's lock twice, so it is two steps between which other steps run; every
  other operation is one step. What a write of a file came to, the clock, fresh identifiers and
  what the library says about a book are arguments.
\<close>

section \<open>State\<close>

record schedule_entry =
  sx_book_id :: string
  sx_run_at :: u64
  sx_status :: string
  sx_job_id :: "string option"
  sx_error :: "string option"

datatype queue_file = NoFile | Unreadable | Snapshot "job_status list"

text \<open>
  A write is published, or fails before it is published, or is published although an error is
  reported, when only the directory could not be flushed.
\<close>

datatype write_outcome = Written | NotWritten | WrittenWithError

text \<open>A request between its two steps.\<close>

record enqueueing =
  eq_job :: string
  eq_created :: bool
  eq_chapters :: "nat list option"
  eq_rerun :: "job_chapter list"
  eq_resuming :: bool
  eq_persisted :: bool

record sync_state =
  ss_jobs :: jobs
  ss_queue :: queue_file
  ss_schedules :: "schedule_entry list"
  ss_update_pause :: u64
  ss_inflight :: "enqueueing list"

definition write_error :: api_error where
  "write_error = internal ''write failed''"

definition snapshot :: "jobs \<Rightarrow> job_status list" where
  "snapshot m = map (\<lambda>j. j\<lparr>j_resume_pending := False\<rparr>) (filter is_sync_job (values_of m))"

definition save_queue :: "write_outcome \<Rightarrow> jobs \<Rightarrow> queue_file \<Rightarrow> queue_file \<times> unit result" where
  "save_queue w m q =
     (if w = NotWritten then q else Snapshot (snapshot m),
      if w = Written then Inr () else Inl write_error)"

section \<open>Schedule entries follow their jobs\<close>

definition record_finished_result :: "schedule_entry \<Rightarrow> job_status \<Rightarrow> schedule_entry \<times> bool" where
  "record_finished_result e j =
     (if sx_status e \<noteq> ''submitted'' then (e, False)
      else if j_status j = ''completed'' \<or> j_status j = ''cancelled''
      then (e\<lparr>sx_status := j_status j, sx_error := None\<rparr>, True)
      else if j_status j = ''failed''
      then (e\<lparr>sx_status := ''failed'',
              sx_error := Some ''Scheduled sync failed. See sync activity, then retry.''\<rparr>, True)
      else (e, False))"

definition followed :: "jobs \<Rightarrow> schedule_entry \<Rightarrow> schedule_entry" where
  "followed m e =
     (case Option.bind (sx_job_id e) (tget m) of
        None \<Rightarrow> e | Some j \<Rightarrow> fst (record_finished_result e j))"

definition changed_by :: "jobs \<Rightarrow> schedule_entry \<Rightarrow> bool" where
  "changed_by m e =
     (case Option.bind (sx_job_id e) (tget m) of
        None \<Rightarrow> False | Some j \<Rightarrow> snd (record_finished_result e j))"

text \<open>\<open>readable\<close>: whether the schedule file could be read.\<close>

definition save_finished_results ::
  "bool \<Rightarrow> write_outcome \<Rightarrow> jobs \<Rightarrow> schedule_entry list \<Rightarrow> schedule_entry list \<times> unit result" where
  "save_finished_results readable w m es =
     (if \<not> readable then (es, Inl write_error)
      else if list_ex (changed_by m) es
      then (if w = NotWritten then es else map (followed m) es,
            if w = Written then Inr () else Inl write_error)
      else (es, Inr ()))"

section \<open>Queueing\<close>

text \<open>What a request finds when it looks at the server.\<close>

record enqueue_env =
  ee_lifecycle :: bool
  ee_runtime :: bool
  ee_tracks :: "nat result"
  ee_rerun :: "job_chapter list result"

definition enqueue_guards :: "enqueue_env \<Rightarrow> sync_state \<Rightarrow> unit result" where
  "enqueue_guards env s =
     (if ss_update_pause s \<noteq> 0
      then Inl (conflict ''Sync generation is paused for a server update.'')
      else if \<not> ee_lifecycle env
      then Inl (conflict ''The sync add-on is being changed. Try again when it finishes.'')
      else if \<not> ee_runtime env
      then Inl (bad_request (''Follow-along sync generation is not enabled. An owner can install and enable it under Administration ''
              @ [CHR 0xE2, CHR 0x86, CHR 0x92] @ '' Experimental features.''))
      else bind (ee_tracks env) (\<lambda>n.
        if n = 0 then Inl (bad_request ''This book has no audio tracks.'') else Inr ()))"

text \<open>The first step of a request of a user, and of the recovery of a saved job.\<close>

definition enqueue_start ::
  "enqueue_env \<Rightarrow> string \<Rightarrow> u64 \<Rightarrow> string \<Rightarrow> nat list option \<Rightarrow> sync_state \<Rightarrow> sync_state \<times> unit result" where
  "enqueue_start env fresh now book_id chapters s =
     (let wanted = map_option (\<lambda>c. remdups_adj (sort c)) chapters in
      case bind (enqueue_guards env s) (\<lambda>_. if wanted = None then Inr [] else ee_rerun env) of
        Inl e \<Rightarrow> (s, Inl e)
      | Inr rerun \<Rightarrow>
          (let (m, job_id, created) =
                 create_queued_job fresh now SYNC_GENERATE_JOB_KIND (Some book_id) (ss_jobs s)
           in (s\<lparr>ss_jobs := m,
                 ss_inflight := ss_inflight s @
                   [\<lparr>eq_job = job_id, eq_created = created, eq_chapters = wanted, eq_rerun = rerun,
                     eq_resuming = False, eq_persisted = False\<rparr>]\<rparr>, Inr ())))"

definition enqueue_resume ::
  "enqueue_env \<Rightarrow> string \<Rightarrow> nat list option \<Rightarrow> bool \<Rightarrow> sync_state \<Rightarrow> sync_state \<times> unit result" where
  "enqueue_resume env resume_id chapters already_persisted s =
     (case enqueue_guards env s of
        Inl e \<Rightarrow> (s, Inl e)
      | Inr _ \<Rightarrow>
          (s\<lparr>ss_inflight := ss_inflight s @
               [\<lparr>eq_job = resume_id, eq_created = True,
                 eq_chapters = map_option (\<lambda>c. remdups_adj (sort c)) chapters, eq_rerun = [],
                 eq_resuming = True, eq_persisted = already_persisted\<rparr>]\<rparr>, Inr ()))"

definition generate_sync_map ::
  "enqueue_env \<Rightarrow> string \<Rightarrow> u64 \<Rightarrow> string \<Rightarrow> nat list option \<Rightarrow> sync_state \<Rightarrow> sync_state \<times> unit result" where
  "generate_sync_map env fresh now book_id chapters s =
     (if chapters = Some [] then (s, Inl (bad_request ''Choose at least one chapter to re-run.''))
      else enqueue_start env fresh now book_id chapters s)"

definition covered :: "nat list option \<Rightarrow> job_status \<Rightarrow> bool" where
  "covered chapters j \<longleftrightarrow>
     j_chapters j = []
     \<or> (case chapters of
          None \<Rightarrow> False
        | Some wanted \<Rightarrow> list_all (\<lambda>i. list_ex (\<lambda>c. jc_index c = i) (j_chapters j)) wanted)"

definition last_rank :: "jobs \<Rightarrow> u64" where
  "last_rank m = sat_add (foldl max 0 (map sync_queue_order (values_of m))) 1"

definition queued_entry :: "enqueueing \<Rightarrow> u64 \<Rightarrow> job_status \<Rightarrow> job_status" where
  "queued_entry q rank j =
     (let j' = (if eq_resuming q then j
                else j\<lparr>j_queue_position := Some rank, j_chapters := eq_rerun q\<rparr>)
      in j'\<lparr>j_resume_pending := (j_status j = ''queued''),
            j_progress := Some (progress_new ''Waiting for the sync queue'')\<rparr>)"

text \<open>The second step; a success hands the job to a worker, unless another request queued it.\<close>

definition enqueue_commit :: "write_outcome \<Rightarrow> enqueueing \<Rightarrow> sync_state \<Rightarrow> sync_state \<times> string result" where
  "enqueue_commit w q s =
     (let m = ss_jobs s; i = eq_job q in
      if \<not> eq_created q \<and> (case tget m i of None \<Rightarrow> False | Some j \<Rightarrow> \<not> covered (eq_chapters q) j)
      then (s, Inl (conflict ''This book already has chapters waiting to re-run. Let them finish, or remove them from the queue, first.''))
      else
        (let m1 = (if eq_created q then tmodify i (queued_entry q (last_rank m)) m else m);
             (file, r) = (if eq_persisted q then (ss_queue s, Inr ()) else save_queue w m1 (ss_queue s))
         in case r of
              Inl e \<Rightarrow>
                (s\<lparr>ss_jobs := (if eq_created q \<and> \<not> eq_resuming q then tremove i m1 else m1),
                   ss_queue := file\<rparr>, Inl e)
            | Inr _ \<Rightarrow>
                (s\<lparr>ss_jobs := (if eq_created q then tmodify i (\<lambda>j. j\<lparr>j_resume_pending := False\<rparr>) m1 else m1),
                   ss_queue := file\<rparr>, Inr i)))"

text \<open>
  A nightly batch. Each book comes with the identifier its loop ends with; books that are
  already queued are passed over.
\<close>

definition batch_job :: "string \<Rightarrow> string \<Rightarrow> u64 \<Rightarrow> job_status" where
  "batch_job i book_id ts =
     (new_job i SYNC_GENERATE_JOB_KIND (Some book_id) ''queued'' (dec (unat ts)))
       \<lparr>j_resume_pending := True, j_progress := Some (progress_new ''Waiting for the sync queue'')\<rparr>"

fun batch_insert ::
  "(string \<times> string) list \<Rightarrow> string list \<Rightarrow> u64 \<Rightarrow> jobs \<Rightarrow> jobs \<times> (string \<times> string) list" where
  "batch_insert [] active ts m = (m, [])"
| "batch_insert ((book_id, i) # r) active ts m =
     (if book_id \<in> set active then batch_insert r active ts m
      else
        (let (m', created) = batch_insert r (book_id # active) (sat_add ts 1) (tinsert i (batch_job i book_id ts) m)
         in (m', (book_id, i) # created)))"

definition active_books :: "jobs \<Rightarrow> string list" where
  "active_books m =
     List.map_filter j_target_id (filter (\<lambda>j. is_sync_job j \<and> is_unfinished_job j) (values_of m))"

definition enqueue_sync_batch ::
  "enqueue_env \<Rightarrow> u64 \<Rightarrow> write_outcome \<Rightarrow> (string \<times> string) list \<Rightarrow> sync_state
   \<Rightarrow> sync_state \<times> ((string \<times> string) list \<times> nat) result" where
  "enqueue_sync_batch env now w requests s =
     (if requests = [] then (s, Inr ([], 0))
      else if ss_update_pause s \<noteq> 0
      then (s, Inl (conflict ''Sync generation is paused for a server update.''))
      else if \<not> ee_lifecycle env
      then (s, Inl (conflict ''The sync add-on is being changed. Try again when it finishes.''))
      else if \<not> ee_runtime env
      then (s, Inl (bad_request ''Follow-along sync generation is not enabled.''))
      else
        (let m = ss_jobs s;
             (m1, created) = batch_insert requests (active_books m) (next_job_timestamp m now) m;
             m2 = prune_finished_jobs m1;
             (file, r) = save_queue w m2 (ss_queue s)
         in case r of
              Inl e \<Rightarrow> (s\<lparr>ss_jobs := fold tremove (map snd created) m2, ss_queue := file\<rparr>, Inl e)
            | Inr _ \<Rightarrow>
                (s\<lparr>ss_jobs := fold (\<lambda>i. tmodify i (\<lambda>j. j\<lparr>j_resume_pending := False\<rparr>)) (map snd created) m2,
                   ss_queue := file\<rparr>,
                 Inr (created, length requests - length created))))"

text \<open>A batch whose dispatch meets an update keeps its job for the recovery.\<close>

definition batch_dispatch_refused :: "string \<Rightarrow> sync_state \<Rightarrow> sync_state" where
  "batch_dispatch_refused i s =
     s\<lparr>ss_jobs := tmodify i (\<lambda>j. j\<lparr>j_resume_pending := (j_status j = ''queued'')\<rparr>) (ss_jobs s)\<rparr>"

section \<open>Workers\<close>

fun min_by_key :: "('a \<Rightarrow> 'k::linorder) \<Rightarrow> 'a list \<Rightarrow> 'a option" where
  "min_by_key f [] = None"
| "min_by_key f (x # xs) =
     (case min_by_key f xs of None \<Rightarrow> Some x | Some y \<Rightarrow> if f x \<le> f y then Some x else Some y)"

definition queue_key :: "job_status \<Rightarrow> u64 \<times> string" where
  "queue_key j = (sync_queue_order j, j_id j)"

definition queued_jobs :: "jobs \<Rightarrow> job_status list" where
  "queued_jobs m = filter (\<lambda>j. is_sync_job j \<and> j_status j = ''queued'') (values_of m)"

definition first_in_queue :: "jobs \<Rightarrow> string option" where
  "first_in_queue m = map_option j_id (min_by_key queue_key (queued_jobs m))"

text \<open>What a waiting worker does next.\<close>

datatype wait = Leave | WaitForChange | TakeSlot

definition wait_for_turn :: "string \<Rightarrow> jobs \<Rightarrow> wait" where
  "wait_for_turn i m =
     (if (case tget m i of None \<Rightarrow> True | Some j \<Rightarrow> j_status j \<noteq> ''queued'') then Leave
      else if first_in_queue m \<noteq> Some i then WaitForChange else TakeSlot)"

text \<open>With the slot in hand: whether the worker starts.\<close>

definition claim_sync_slot :: "u64 \<Rightarrow> string \<Rightarrow> sync_state \<Rightarrow> sync_state \<times> bool" where
  "claim_sync_slot now i s =
     (if first_in_queue (ss_jobs s) = Some i
      then (s\<lparr>ss_jobs := tmodify i (\<lambda>j. j\<lparr>j_status := ''running'', j_running_at := Some (dec (unat now))\<rparr>)
                           (ss_jobs s)\<rparr>, True)
      else (s, False))"

definition pause_at_checkpoint :: "write_outcome \<Rightarrow> string \<Rightarrow> sync_state \<Rightarrow> sync_state \<times> bool" where
  "pause_at_checkpoint w i s =
     (case tget (ss_jobs s) i of
        None \<Rightarrow> (s, False)
      | Some j \<Rightarrow>
          if \<not> j_pause_requested j then (s, False)
          else
            (let m = tmodify i (\<lambda>j. j\<lparr>j_status := ''paused'', j_resume_pending := False,
                       j_progress := map_option (\<lambda>p. p\<lparr>jp_step := ''Paused; completed sections saved''\<rparr>) (j_progress j)\<rparr>)
                       (ss_jobs s);
                 (file, r) = save_queue w m (ss_queue s)
             in case r of
                  Inl e \<Rightarrow> (s\<lparr>ss_jobs := tinsert i j m, ss_queue := file\<rparr>, False)
                | Inr _ \<Rightarrow> (s\<lparr>ss_jobs := m, ss_queue := file\<rparr>, True)))"

text \<open>
  \<open>update_job_finished\<close>, which reads the kind of the job before it takes the two locks (a kind never
  changes). The environment: whether the schedule file could be read, what became
  of writing it and of writing the queue.
\<close>

record finish_env =
  fe_readable :: bool
  fe_schedules :: write_outcome
  fe_queue :: write_outcome

definition finished_job :: "u64 \<Rightarrow> string \<Rightarrow> int option \<Rightarrow> string option \<Rightarrow> job_status \<Rightarrow> job_status" where
  "finished_job now new_status exit_code e j =
     j\<lparr>j_status := new_status, j_resume_pending := False, j_finished_at := Some (dec (unat now)),
       j_exit_code := exit_code,
       j_cause := (if is_sync_job j \<and> new_status = ''failed'' \<and> j_cause j = None
                   then map_option classify_error e else j_cause j),
       j_error := e, j_progress := None\<rparr>"

definition update_job_finished ::
  "finish_env \<Rightarrow> u64 \<Rightarrow> string \<Rightarrow> string \<Rightarrow> int option \<Rightarrow> string option \<Rightarrow> sync_state \<Rightarrow> sync_state" where
  "update_job_finished env now i new_status exit_code e s =
     (let sync_job = (case tget (ss_jobs s) i of None \<Rightarrow> False | Some j \<Rightarrow> is_sync_job j);
          m = tmodify i (finished_job now new_status exit_code e) (ss_jobs s);
          (schedules, r) = (if sync_job
            then save_finished_results (fe_readable env) (fe_schedules env) m (ss_schedules s)
            else (ss_schedules s, Inr ()));
          m1 = (if sync_job \<and> \<not> isl r then prune_sync_results m else m);
          m2 = (if isl r then m1 else prune_finished_jobs m1);
          file = (if sync_job then fst (save_queue (fe_queue env) m2 (ss_queue s)) else ss_queue s)
      in s\<lparr>ss_jobs := m2, ss_schedules := schedules, ss_queue := file\<rparr>)"

text \<open>The guard of a job whose task ended without a result.\<close>

definition interrupted :: "u64 \<Rightarrow> string \<Rightarrow> job_status \<Rightarrow> job_status" where
  "interrupted now e j =
     (if \<not> is_active_job j then j
      else if is_sync_job j
      then j\<lparr>j_status := ''queued'', j_resume_pending := True, j_running_at := None,
             j_progress := Some (progress_new ''Interrupted; waiting to restart'')\<rparr>
      else j\<lparr>j_status := ''failed'', j_finished_at := Some (dec (unat now)), j_error := Some e, j_progress := None\<rparr>)"

definition fail_if_still_active :: "write_outcome \<Rightarrow> u64 \<Rightarrow> string \<Rightarrow> string \<Rightarrow> sync_state \<Rightarrow> sync_state" where
  "fail_if_still_active w now i e s =
     (let m = tmodify i (interrupted now e) (ss_jobs s);
          file = (if (case tget m i of None \<Rightarrow> False | Some j \<Rightarrow> is_sync_job j)
                  then fst (save_queue w m (ss_queue s)) else ss_queue s)
      in s\<lparr>ss_jobs := prune_finished_jobs m, ss_queue := file\<rparr>)"

section \<open>Control\<close>

definition sync_job_at :: "jobs \<Rightarrow> string \<Rightarrow> job_status result" where
  "sync_job_at m i =
     (case tget m i of
        None \<Rightarrow> Inl (not_found ''Sync job not found'')
      | Some j \<Rightarrow> if is_sync_job j then Inr j else Inl (not_found ''Sync job not found''))"

definition remove_sync_job ::
  "finish_env \<Rightarrow> string \<Rightarrow> sync_state \<Rightarrow> sync_state \<times> unit result" where
  "remove_sync_job env i s =
     (case sync_job_at (ss_jobs s) i of
        Inl e \<Rightarrow> (s, Inl e)
      | Inr j \<Rightarrow>
          if j_status j \<noteq> ''queued'' \<and> j_status j \<noteq> ''paused'' \<and> \<not> finished_sync_result j
          then (s, Inl (conflict ''Only queued, paused, or finished syncs can be removed.''))
          else
            (let (schedules, r) = save_finished_results (fe_readable env) (fe_schedules env) (ss_jobs s) (ss_schedules s)
             in case r of
                  Inl e \<Rightarrow> (s\<lparr>ss_schedules := schedules\<rparr>, Inl e)
                | Inr _ \<Rightarrow>
                    (let m = tremove i (ss_jobs s);
                         (file, r) = save_queue (fe_queue env) m (ss_queue s)
                     in case r of
                          Inl e \<Rightarrow> (s\<lparr>ss_jobs := tinsert i j m, ss_schedules := schedules, ss_queue := file\<rparr>, Inl e)
                        | Inr _ \<Rightarrow> (s\<lparr>ss_jobs := m, ss_schedules := schedules, ss_queue := file\<rparr>, Inr ()))))"

definition swap :: "nat \<Rightarrow> nat \<Rightarrow> 'a list \<Rightarrow> 'a list" where
  "swap a b xs = xs[a := xs ! b, b := xs ! a]"

text \<open>Moving a queued job one place: the queued jobs in order, with two neighbours exchanged.\<close>

definition moved_order :: "bool \<Rightarrow> string \<Rightarrow> jobs \<Rightarrow> string list" where
  "moved_order up i m =
     (let ordered = map snd (sort (map queue_key (queued_jobs m))) in
      case position (\<lambda>k. k = i) ordered of
        None \<Rightarrow> ordered
      | Some index \<Rightarrow>
          (case (if up then (if index = 0 then None else Some (index - 1))
                 else if index + 1 < length ordered then Some (index + 1) else None) of
             None \<Rightarrow> ordered
           | Some other \<Rightarrow> swap index other ordered))"

definition assign_ranks :: "string list \<Rightarrow> jobs \<Rightarrow> jobs" where
  "assign_ranks ids m =
     fold (\<lambda>(rank, i). tmodify i (\<lambda>j. j\<lparr>j_queue_position := Some (of_nat rank)\<rparr>)) (enumerate 0 ids) m"

definition paused_by_request :: "job_status \<Rightarrow> job_status" where
  "paused_by_request j =
     (if j_status j = ''queued''
      then j\<lparr>j_pause_requested := True, j_status := ''paused'', j_resume_pending := False\<rparr>
      else j\<lparr>j_pause_requested := True\<rparr>)"

definition resumed_by_request :: "u64 \<Rightarrow> job_status \<Rightarrow> job_status" where
  "resumed_by_request rank j =
     j\<lparr>j_pause_requested := False, j_status := ''queued'', j_queue_position := Some rank,
       j_resume_pending := True, j_progress := Some (progress_new ''Waiting to resume from saved progress'')\<rparr>"

definition controlled :: "string \<Rightarrow> string \<Rightarrow> job_status \<Rightarrow> jobs \<Rightarrow> jobs result" where
  "controlled action i j m =
     (if action \<in> {''up'', ''down''} \<and> j_status j = ''queued''
      then Inr (assign_ranks (moved_order (action = ''up'') i m) m)
      else if action = ''pause'' \<and> (j_status j = ''queued'' \<or> j_status j = ''running'')
      then Inr (tmodify i paused_by_request m)
      else if action = ''resume'' \<and> j_status j = ''paused''
      then Inr (tmodify i (resumed_by_request (last_rank m)) m)
      else if action \<in> {''up'', ''down'', ''pause'', ''resume''}
      then Inl (conflict ''The sync has changed state. Refresh and try again.'')
      else Inl (bad_request ''Unknown sync queue action.''))"

definition control_sync_job ::
  "write_outcome \<Rightarrow> string \<Rightarrow> string \<Rightarrow> sync_state \<Rightarrow> sync_state \<times> job_status option result" where
  "control_sync_job w action i s =
     (case bind (sync_job_at (ss_jobs s) i) (\<lambda>j. controlled action i j (ss_jobs s)) of
        Inl e \<Rightarrow> (s, Inl e)
      | Inr m \<Rightarrow>
          (let (file, r) = save_queue w m (ss_queue s)
           in case r of
                Inl e \<Rightarrow> (s\<lparr>ss_queue := file\<rparr>, Inl e)
              | Inr _ \<Rightarrow> (s\<lparr>ss_jobs := m, ss_queue := file\<rparr>, Inr (tget m i))))"

section \<open>Updates and restarts\<close>

definition saved_for_update :: "job_status \<Rightarrow> job_status" where
  "saved_for_update j =
     (if is_sync_job j \<and> is_active_job j
      then
        (let j' = (if j_pause_requested j then j\<lparr>j_status := ''paused'', j_resume_pending := False\<rparr>
                   else j\<lparr>j_status := ''queued'', j_resume_pending := True\<rparr>)
         in j'\<lparr>j_running_at := None,
               j_progress := map_option (\<lambda>p. p\<lparr>jp_step :=
                 (if j_status j' = ''paused'' then ''Paused; saved sections available''
                  else ''Saved for server update; resumes after restart'')\<rparr>) (j_progress j)\<rparr>)
      else j)"

definition map_values :: "('v \<Rightarrow> 'v) \<Rightarrow> ('k, 'v) table \<Rightarrow> ('k, 'v) table" where
  "map_values f m = map (\<lambda>(k, v). (k, f v)) m"

definition save_update_queue :: "write_outcome \<Rightarrow> sync_state \<Rightarrow> sync_state \<times> unit result" where
  "save_update_queue w s =
     (let m = map_values saved_for_update (ss_jobs s);
          (file, r) = save_queue w m (ss_queue s)
      in (s\<lparr>ss_jobs := m, ss_queue := file\<rparr>, r))"

definition recovered :: "job_status \<Rightarrow> job_status" where
  "recovered j =
     (if is_active_job j
      then
        (let s = (if j_pause_requested j then ''paused'' else ''queued'')
         in j\<lparr>j_status := s, j_running_at := None, j_resume_pending := (s = ''queued''),
              j_progress := Some (progress_new
                (if s = ''paused'' then ''Paused; saved sections available after restart''
                 else ''Recovered after restart; waiting to resume''))\<rparr>)
      else j)"

definition recovered_jobs :: "job_status list \<Rightarrow> jobs \<Rightarrow> jobs" where
  "recovered_jobs es m = fold (\<lambda>j. tinsert (j_id j) (recovered j)) (filter is_sync_job es) m"

text \<open>A queue that cannot be read is set aside and the server starts without one.\<close>

definition restore_queue :: "finish_env \<Rightarrow> sync_state \<Rightarrow> sync_state" where
  "restore_queue env s =
     (case ss_queue s of
        NoFile \<Rightarrow> s
      | Unreadable \<Rightarrow> s\<lparr>ss_queue := NoFile\<rparr>
      | Snapshot es \<Rightarrow>
          (let m = recovered_jobs es (ss_jobs s);
               (schedules, r) = save_finished_results (fe_readable env) (fe_schedules env) m (ss_schedules s)
           in s\<lparr>ss_jobs := (if isl r then m else prune_finished_jobs (prune_sync_results m)),
                ss_schedules := schedules\<rparr>))"

text \<open>A crash forgets what is only in memory; then the server starts.\<close>

definition crash :: "sync_state \<Rightarrow> sync_state" where
  "crash s = s\<lparr>ss_jobs := [], ss_update_pause := 0, ss_inflight := []\<rparr>"

definition resume_candidates :: "bool \<Rightarrow> bool \<Rightarrow> sync_state \<Rightarrow> job_status list" where
  "resume_candidates catalogue_ready runtime s =
     (if ss_update_pause s \<noteq> 0 \<or> \<not> catalogue_ready \<or> \<not> runtime then []
      else sort_key sync_queue_order (filter j_resume_pending (values_of (ss_jobs s))))"

definition saved_chapters :: "job_status \<Rightarrow> nat list option" where
  "saved_chapters j = (if j_chapters j = [] then None else Some (map jc_index (j_chapters j)))"

text \<open>One candidate: queued again, retried later, or failed for good.\<close>

definition resume_job ::
  "enqueue_env \<Rightarrow> write_outcome \<Rightarrow> finish_env \<Rightarrow> u64 \<Rightarrow> job_status \<Rightarrow> sync_state \<Rightarrow> sync_state" where
  "resume_job env w fenv now j s =
     (if j_target_id j = None then s
      else
        (let (s1, r) = enqueue_resume env (j_id j) (saved_chapters j) False s;
             (s2, r2) = (case r of
                Inl e \<Rightarrow> (s1, Inl e)
              | Inr _ \<Rightarrow>
                  enqueue_commit w (last (ss_inflight s1)) (s1\<lparr>ss_inflight := butlast (ss_inflight s1)\<rparr>))
         in case r2 of
              Inr _ \<Rightarrow> s2
            | Inl e \<Rightarrow>
                if status e = 409 \<or> 500 \<le> status e then s2
                else update_job_finished fenv now (j_id j) ''failed'' None (Some (message e)) s2))"

end
