(* ===== verification/SyncSafety.thy ===== *)
theory SyncSafety
  imports SyncQueue
begin

text \<open>
  What the read-along queue promises. Its abstract state is a relation between jobs and the books
  they will still sync; every operation of \<open>SyncQueue\<close> is a small update of it, in memory and on
  disk. Over all interleavings of requests, workers, controls, updates and crashes a book is
  queued at most once, and a sync the server accepted is not lost.
\<close>

section \<open>The books a table still owes\<close>

definition owed :: "job_status \<Rightarrow> string \<Rightarrow> bool" where
  "owed j book_id \<longleftrightarrow> is_sync_job j \<and> is_unfinished_job j \<and> j_target_id j = Some book_id"

definition pending :: "jobs \<Rightarrow> (string \<times> string) set" where
  "pending m = {(i, b). \<exists>j. tget m i = Some j \<and> owed j b}"

definition pending_saved :: "job_status list \<Rightarrow> (string \<times> string) set" where
  "pending_saved es = {(i, b). \<exists>j \<in> set es. j_id j = i \<and> owed j b}"

definition pending_file :: "queue_file \<Rightarrow> (string \<times> string) set" where
  "pending_file q = (case q of Snapshot es \<Rightarrow> pending_saved es | _ \<Rightarrow> {})"

definition once_per_book :: "(string \<times> string) set \<Rightarrow> bool" where
  "once_per_book P \<longleftrightarrow> (\<forall>i k b. (i, b) \<in> P \<longrightarrow> (k, b) \<in> P \<longrightarrow> i = k)"

definition file_ok :: "queue_file \<Rightarrow> bool" where
  "file_ok q \<longleftrightarrow>
     (case q of
        Snapshot es \<Rightarrow> distinct (map j_id es) \<and> list_all is_sync_job es \<and> once_per_book (pending_saved es)
      | _ \<Rightarrow> True)"

lemma once_per_book_mono: "once_per_book P \<Longrightarrow> Q \<subseteq> P \<Longrightarrow> once_per_book Q"
  unfolding once_per_book_def by blast

text \<open>Updates that leave a job as owed as it was.\<close>

definition same_owed :: "(job_status \<Rightarrow> job_status) \<Rightarrow> job_status \<Rightarrow> bool" where
  "same_owed f j \<longleftrightarrow> j_id (f j) = j_id j \<and> owed (f j) = owed j"

lemma pending_modify:
  "(\<And>j. tget m i = Some j \<Longrightarrow> same_owed f j) \<Longrightarrow> pending (tmodify i f m) = pending m"
  by (auto simp: pending_def tget_modify same_owed_def split: if_splits)

lemma jobs_ok_same: "jobs_ok m \<Longrightarrow> (\<And>j. tget m i = Some j \<Longrightarrow> same_owed f j) \<Longrightarrow> jobs_ok (tmodify i f m)"
  by (auto simp: jobs_ok_def tget_modify same_owed_def intro: tvalid_modify split: if_splits)

lemma pending_remove: "jobs_ok m \<Longrightarrow> pending (tremove i m) = pending m - {i} \<times> UNIV"
  by (auto simp: pending_def jobs_ok_def tbl.lookup_remove split: if_splits)

lemma pending_insert: "pending (tinsert i j m) = (pending m - {i} \<times> UNIV) \<union> {(i, b) | b. owed j b}"
  by (auto simp: pending_def tbl.lookup_insert split: if_splits)

lemma finished_not_owed: "is_finished_job j \<Longrightarrow> \<not> owed j b"
  using finished_not_unfinished by (auto simp: owed_def)

lemma pending_drop:
  assumes "\<And>i. tget m' i = tget m i \<or> tget m' i = None \<and> (\<exists>j. tget m i = Some j \<and> is_finished_job j)"
  shows "pending m' = pending m"
proof -
  have "(\<exists>j. tget m' i = Some j \<and> owed j b) \<longleftrightarrow> (\<exists>j. tget m i = Some j \<and> owed j b)" for i b
    using assms [of i] by (elim disjE conjE exE) (simp_all add: finished_not_owed)
  then show ?thesis by (simp add: pending_def)
qed

lemma pending_prune: "jobs_ok m \<Longrightarrow> pending (prune_finished_jobs m) = pending m"
  by (rule pending_drop) (rule prune_tget)

lemma pending_prune_results:
  assumes "jobs_ok m"
  shows "pending (prune_sync_results m) = pending m"
proof (rule pending_drop)
  fix i
  show "tget (prune_sync_results m) i = tget m i
      \<or> tget (prune_sync_results m) i = None \<and> (\<exists>j. tget m i = Some j \<and> is_finished_job j)"
    using assms
    by (cases "tget m i")
      (simp_all add: prune_sync_results_def jobs_ok_def tget_retain finished_sync_result_def)
qed

lemma prune_results_ok: "jobs_ok m \<Longrightarrow> jobs_ok (prune_sync_results m)"
  unfolding prune_sync_results_def by (rule jobs_ok_retain)

text \<open>A published snapshot owes what the table owes.\<close>

lemma owed_reset [simp]: "owed (j\<lparr>j_resume_pending := x\<rparr>) = owed j"
  by (simp add: owed_def fun_eq_iff is_sync_job_def is_unfinished_job_def is_active_job_def)

lemma pending_snapshot:
  assumes "jobs_ok m"
  shows "pending_saved (snapshot m) = pending m"
proof -
  have "j \<in> set (values_of m) \<longleftrightarrow> (\<exists>i. tget m i = Some j)" for j
    by (rule in_values_of) (use assms in \<open>simp add: jobs_ok_def\<close>)
  moreover have "owed j b \<Longrightarrow> is_sync_job j" for j b by (simp add: owed_def)
  ultimately show ?thesis
    using assms by (force simp: pending_saved_def pending_def snapshot_def dest: jobs_okD)
qed

lemma values_ids: "jobs_ok m \<Longrightarrow> map j_id (values_of m) = map fst m"
  by (auto simp: values_of_def jobs_ok_def dest: in_tget)

lemma snapshot_ok:
  assumes "jobs_ok m" "once_per_book (pending m)"
  shows "file_ok (Snapshot (snapshot m))"
proof -
  have "distinct (map j_id (values_of m))"
    using assms(1) values_ids by (simp add: jobs_ok_def tvalid_def)
  then have "distinct (map j_id (snapshot m))"
    by (simp add: snapshot_def o_def distinct_map_filter)
  moreover have "list_all is_sync_job (snapshot m)"
    by (auto simp: snapshot_def list_all_iff is_sync_job_def)
  ultimately show ?thesis using assms pending_snapshot by (simp add: file_ok_def)
qed

lemma save_queue_cases:
  assumes "save_queue w m q = (file, r)" "jobs_ok m"
  obtains "file = q" "isl r" | "file = Snapshot (snapshot m)" "pending_file file = pending m"
  using assms pending_snapshot by (auto simp: save_queue_def pending_file_def split: if_splits)

lemma save_queue_ok:
  "save_queue w m q = (file, r) \<Longrightarrow> jobs_ok m \<Longrightarrow> once_per_book (pending m) \<Longrightarrow> file_ok q \<Longrightarrow> file_ok file"
  using snapshot_ok by (auto simp: save_queue_def split: if_splits)

lemma save_queue_Inr:
  "save_queue w m q = (file, Inr u) \<Longrightarrow> jobs_ok m \<Longrightarrow> pending_file file = pending m"
  using pending_snapshot by (auto simp: save_queue_def pending_file_def split: if_splits)

lemma save_queue_sub:
  "save_queue w m q = (file, r) \<Longrightarrow> jobs_ok m \<Longrightarrow> A \<subseteq> pending_file q \<Longrightarrow> A \<subseteq> pending m \<Longrightarrow> A \<subseteq> pending_file file"
  by (erule (1) save_queue_cases) auto

section \<open>Every operation as an update of what is owed\<close>

lemmas owed_defs = same_owed_def owed_def is_sync_job_def is_unfinished_job_def is_active_job_def fun_eq_iff

lemma same_owed_simps [simp]:
  "same_owed (queued_entry q rank) j"
  "same_owed (\<lambda>j. j\<lparr>j_resume_pending := x\<rparr>) j"
  "same_owed (\<lambda>j. j\<lparr>j_resume_pending := (j_status j = s)\<rparr>) j"
  "same_owed (\<lambda>j. j\<lparr>j_progress := Some p\<rparr>) j"
  "same_owed (\<lambda>j. j\<lparr>j_queue_position := Some rank\<rparr>) j"
  "same_owed saved_for_update j"
  "same_owed recovered j"
  by (auto simp: owed_defs queued_entry_def saved_for_update_def recovered_def Let_def)

lemma same_owed_started:
  "j_status j = ''queued'' \<Longrightarrow> same_owed (\<lambda>j. j\<lparr>j_status := ''running'', j_running_at := x\<rparr>) j"
  by (auto simp: owed_defs)

lemma same_owed_output: "same_owed (\<lambda>j. j\<lparr>j_output := f j\<rparr>) j"
  by (auto simp: owed_defs)

lemma same_owed_paused:
  "is_unfinished_job j \<Longrightarrow> same_owed paused_by_request j"
  "is_unfinished_job j \<Longrightarrow> same_owed (\<lambda>j. j\<lparr>j_status := ''paused'', j_resume_pending := False, j_progress := g j\<rparr>) j"
  "j_status j = ''paused'' \<Longrightarrow> same_owed (resumed_by_request rank) j"
  by (auto simp: owed_defs paused_by_request_def resumed_by_request_def)

lemma interrupted_owed: "same_owed (interrupted now e) j"
  by (auto simp: owed_defs interrupted_def SYNC_GENERATE_JOB_KIND_def)

section \<open>Events\<close>

text \<open>
  Everything that happens to the queue. A fresh identifier is one nothing knows yet; a worker
  reports only for a job that runs. Beside the state goes what the server has accepted: the
  jobs it created and answered for, less those that reached a result or were removed. A removal
  that is refused, or whose write fails before it replaces the file, removes nothing.
\<close>

definition known_ids :: "sync_state \<Rightarrow> string set" where
  "known_ids s =
     {i. tget (ss_jobs s) i \<noteq> None} \<union> eq_job ` set (ss_inflight s)
     \<union> (case ss_queue s of Snapshot es \<Rightarrow> j_id ` set es | _ \<Rightarrow> {})"

definition accepted_now :: "enqueueing \<Rightarrow> string result \<Rightarrow> sync_state \<Rightarrow> (string \<times> string) set" where
  "accepted_now q r s =
     (if isl r \<or> \<not> eq_created q \<or> eq_resuming q then {}
      else {(i, b). i = eq_job q \<and> (i, b) \<in> pending (ss_jobs s)})"

definition without_nth :: "nat \<Rightarrow> 'a list \<Rightarrow> 'a list" where
  "without_nth n xs = take n xs @ drop (Suc n) xs"

type_synonym ledger = "(string \<times> string) set"

inductive sync_step :: "sync_state \<times> ledger \<Rightarrow> sync_state \<times> ledger \<Rightarrow> bool" where
  request: "fresh \<notin> known_ids s \<union> fst ` A \<Longrightarrow>
    sync_step (s, A) (fst (generate_sync_map env fresh now book_id chapters s), A)"
| commit: "n < length (ss_inflight s) \<Longrightarrow>
    enqueue_commit w (ss_inflight s ! n) (s\<lparr>ss_inflight := without_nth n (ss_inflight s)\<rparr>) = (s', r) \<Longrightarrow>
    sync_step (s, A) (s', A \<union> accepted_now (ss_inflight s ! n) r s')"
| recover: "sync_step (s, A) (fst (enqueue_resume env i chapters persisted s), A)"
| batch: "distinct (map snd requests) \<Longrightarrow> snd ` set requests \<inter> (known_ids s \<union> fst ` A) = {} \<Longrightarrow>
    enqueue_sync_batch env now w requests s = (s', r) \<Longrightarrow>
    sync_step (s, A) (s', A \<union> (case r of Inl _ \<Rightarrow> {} | Inr (created, _) \<Rightarrow> {(i, b). (b, i) \<in> set created}))"
| batch_refused: "sync_step (s, A) (batch_dispatch_refused i s, A)"
| claim: "sync_step (s, A) (fst (claim_sync_slot now i s), A)"
| checkpoint: "tget (ss_jobs s) i = Some j \<Longrightarrow> j_status j = ''running'' \<Longrightarrow>
    sync_step (s, A) (fst (pause_at_checkpoint w i s), A)"
| report_progress: "sync_step (s, A) (s\<lparr>ss_jobs := update_job_progress i p (ss_jobs s)\<rparr>, A)"
| report_output: "sync_step (s, A) (s\<lparr>ss_jobs := update_job_output i out (ss_jobs s)\<rparr>, A)"
| result_reached: "new_status \<in> {''completed'', ''failed'', ''cancelled''} \<Longrightarrow>
    sync_step (s, A) (update_job_finished fenv now i new_status code e s, A - {i} \<times> UNIV)"
| interrupt: "sync_step (s, A) (fail_if_still_active w now i e s, A)"
| removal: "remove_sync_job fenv i s = (s', r) \<Longrightarrow>
    sync_step (s, A) (s', if isl r \<and> ss_queue s' = ss_queue s then A else A - {i} \<times> UNIV)"
| control: "sync_step (s, A) (fst (control_sync_job w action i s), A)"
| update_signal: "sync_step (s, A) (s\<lparr>ss_update_pause := token\<rparr>, A)"
| update_saved: "sync_step (s, A) (fst (save_update_queue w s), A)"
| other_job: "fresh \<notin> known_ids s \<union> fst ` A \<Longrightarrow> kind \<noteq> SYNC_GENERATE_JOB_KIND \<Longrightarrow>
    sync_step (s, A) (s\<lparr>ss_jobs := fst (create_job_with_state fresh now kind target_id st dedup (ss_jobs s))\<rparr>, A)"
| schedules_written: "sync_step (s, A) (s\<lparr>ss_schedules := entries\<rparr>, A)"
| restart: "sync_step (s, A) (restore_queue fenv (crash s), A)"

definition sync_inv :: "sync_state \<Rightarrow> ledger \<Rightarrow> bool" where
  "sync_inv s A \<longleftrightarrow>
     jobs_ok (ss_jobs s) \<and> once_per_book (pending (ss_jobs s)) \<and> file_ok (ss_queue s)
     \<and> A \<subseteq> pending (ss_jobs s) \<and> A \<subseteq> pending_file (ss_queue s)
     \<and> distinct (map eq_job (filter (\<lambda>q. eq_created q \<and> \<not> eq_resuming q) (ss_inflight s)))
     \<and> (\<forall>q \<in> set (ss_inflight s). eq_created q \<longrightarrow> \<not> eq_resuming q \<longrightarrow> eq_job q \<notin> fst ` A)
     \<and> (\<forall>q \<in> set (ss_inflight s). eq_persisted q \<longrightarrow> eq_resuming q)"

lemma sync_invI:
  assumes "jobs_ok m" "once_per_book (pending m)" "file_ok q" "A \<subseteq> pending m" "A \<subseteq> pending_file q"
    and "distinct (map eq_job (filter (\<lambda>q. eq_created q \<and> \<not> eq_resuming q) (ss_inflight s)))"
    and "\<forall>q \<in> set (ss_inflight s). eq_created q \<longrightarrow> \<not> eq_resuming q \<longrightarrow> eq_job q \<notin> fst ` A"
    and "\<forall>q \<in> set (ss_inflight s). eq_persisted q \<longrightarrow> eq_resuming q"
    and "ss_jobs s = m" "ss_queue s = q"
  shows "sync_inv s A"
  using assms by (simp add: sync_inv_def)

lemma sync_invD:
  assumes "sync_inv s A"
  shows "jobs_ok (ss_jobs s)" "once_per_book (pending (ss_jobs s))" "file_ok (ss_queue s)"
    "A \<subseteq> pending (ss_jobs s)" "A \<subseteq> pending_file (ss_queue s)"
    "distinct (map eq_job (filter (\<lambda>q. eq_created q \<and> \<not> eq_resuming q) (ss_inflight s)))"
    "\<forall>q \<in> set (ss_inflight s). eq_created q \<longrightarrow> \<not> eq_resuming q \<longrightarrow> eq_job q \<notin> fst ` A"
    "\<forall>q \<in> set (ss_inflight s). eq_persisted q \<longrightarrow> eq_resuming q"
  using assms by (simp_all add: sync_inv_def)

text \<open>Saving the table, with whatever outcome.\<close>

lemma saved_keeps:
  assumes "q' = q \<or> (\<exists>w r. save_queue w m q = (q', r))" "jobs_ok m" "once_per_book (pending m)"
    and "A \<subseteq> pending m" "file_ok q" "A \<subseteq> pending_file q"
  shows "file_ok q'" "A \<subseteq> pending_file q'"
  using assms(1) save_queue_ok [OF _ assms(2,3,5)] save_queue_sub [OF _ assms(2,6,4)] assms(5,6) by blast+

text \<open>Operations that only rewrite jobs without changing what is owed, and may then save.\<close>

lemma rewrite_step:
  assumes "sync_inv s A" "jobs_ok m" "pending m = pending (ss_jobs s)"
    and "file = ss_queue s \<or> (\<exists>w r. save_queue w m (ss_queue s) = (file, r))"
  shows "sync_inv (s\<lparr>ss_jobs := m, ss_queue := file\<rparr>) A" "sync_inv (s\<lparr>ss_queue := file\<rparr>) A"
proof -
  note inv = sync_invD [OF assms(1)]
  have saved: "file_ok file" "A \<subseteq> pending_file file"
    using saved_keeps [OF assms(4,2)] inv(2-5) unfolding assms(3) by blast+
  show "sync_inv (s\<lparr>ss_jobs := m, ss_queue := file\<rparr>) A" "sync_inv (s\<lparr>ss_queue := file\<rparr>) A"
    using inv saved assms(2,3) by (simp_all add: sync_inv_def)
qed

section \<open>Preservation\<close>

lemma new_job_owed: "owed (new_job i SYNC_GENERATE_JOB_KIND (Some b) ''queued'' t) c \<longleftrightarrow> c = b"
  by (auto simp: owed_defs new_job_def)

lemma new_job_id [simp]: "j_id (new_job i k t st d) = i"
  by (simp add: new_job_def)

lemma fresh_insert:
  assumes "jobs_ok m" "tget m i = None" "j_id j = i"
  shows "pending (tinsert i j m) = pending m \<union> {(i, b) | b. owed j b}"
    "jobs_ok (tinsert i j m)"
  unfolding pending_insert using assms by (auto simp: pending_def intro: jobs_ok_insert)

lemma no_twin:
  assumes "jobs_ok m" "pending_twin m SYNC_GENERATE_JOB_KIND (Some b) = None"
  shows "(k, b) \<notin> pending m"
proof
  assume "(k, b) \<in> pending m"
  then obtain j where j: "tget m k = Some j" "owed j b" by (auto simp: pending_def)
  moreover have "tvalid m" using assms(1) by (simp add: jobs_ok_def)
  ultimately have "j \<in> set (values_of m)" using in_values_of [of m j] by auto
  then show False using assms(2) j(2) by (auto simp: pending_twin_def filter_empty_conv owed_def is_sync_job_def)
qed

lemma twin_known: "jobs_ok m \<Longrightarrow> pending_twin m kind t = Some j \<Longrightarrow> tget m (j_id j) = Some j"
  by (auto simp: pending_twin_def jobs_ok_def in_values_of dest!: max_by_key_in)

lemma create_sync:
  assumes "jobs_ok m" "once_per_book (pending m)" "tget m fresh = None"
    and "create_queued_job fresh now SYNC_GENERATE_JOB_KIND (Some b) m = (m', i, created)"
  shows "jobs_ok m'" "once_per_book (pending m')" "pending m \<subseteq> pending m'" "created \<Longrightarrow> i = fresh"
proof -
  have "jobs_ok m' \<and> once_per_book (pending m') \<and> pending m \<subseteq> pending m' \<and> (created \<longrightarrow> i = fresh)"
  proof (cases "pending_twin m SYNC_GENERATE_JOB_KIND (Some b)")
    case None
    let ?j = "new_job fresh SYNC_GENERATE_JOB_KIND (Some b) ''queued'' (dec (unat (next_job_timestamp m now)))"
    have m': "m' = prune_finished_jobs (tinsert fresh ?j m)" "i = fresh"
      using assms(4) None by (auto simp: create_queued_job_def create_job_with_state_def)
    have ins: "pending (tinsert fresh ?j m) = pending m \<union> {(fresh, b)}" "jobs_ok (tinsert fresh ?j m)"
      using fresh_insert [OF assms(1,3), of ?j] by (auto simp: new_job_owed)
    have "once_per_book (pending m \<union> {(fresh, b)})"
      using assms(2) no_twin [OF assms(1) None] unfolding once_per_book_def by blast
    then show ?thesis using m' ins pending_prune [OF ins(2)] prune_ok [OF ins(2)] by auto
  next
    case (Some j)
    then have "m' = m" "\<not> created" using assms(4) by (auto simp: create_queued_job_def create_job_with_state_def)
    then show ?thesis using assms(1,2) by simp
  qed
  then show "jobs_ok m'" "once_per_book (pending m')" "pending m \<subseteq> pending m'" "created \<Longrightarrow> i = fresh" by auto
qed

lemma request_inv:
  assumes "sync_inv s A" "fresh \<notin> known_ids s \<union> fst ` A"
  shows "sync_inv (fst (generate_sync_map env fresh now book_id chapters s)) A"
proof (cases "fst (generate_sync_map env fresh now book_id chapters s) = s")
  case True
  then show ?thesis using assms(1) by simp
next
  case False
  obtain m i created q where q: "create_queued_job fresh now SYNC_GENERATE_JOB_KIND (Some book_id) (ss_jobs s) = (m, i, created)"
    "fst (generate_sync_map env fresh now book_id chapters s) =
       s\<lparr>ss_jobs := m, ss_inflight := ss_inflight s @ [q]\<rparr>"
    "eq_job q = i" "eq_created q = created" "\<not> eq_resuming q" "\<not> eq_persisted q"
    using False
    by (cases "create_queued_job fresh now SYNC_GENERATE_JOB_KIND (Some book_id) (ss_jobs s)")
      (auto simp: generate_sync_map_def enqueue_start_def Let_def split: if_splits sum.splits)
  note inv = sync_invD [OF assms(1)]
  have new: "tget (ss_jobs s) fresh = None" "fresh \<notin> eq_job ` set (ss_inflight s)" "fresh \<notin> fst ` A"
    using assms(2) by (auto simp: known_ids_def)
  note c = create_sync [OF inv(1,2) new(1) q(1)]
  show ?thesis unfolding q(2)
    by (rule sync_invI [where m = m and q = "ss_queue s"]) (use inv c new q(3-6) in \<open>auto dest: subsetD\<close>)
qed

lemma without_nth_facts:
  assumes "n < length xs"
  shows "set (without_nth n xs) \<subseteq> set xs"
    "distinct (map f (filter P xs)) \<Longrightarrow> distinct (map f (filter P (without_nth n xs)))"
    "distinct (map f (filter P xs)) \<Longrightarrow> P (xs ! n) \<Longrightarrow> q \<in> set (without_nth n xs) \<Longrightarrow> P q \<Longrightarrow> f q \<noteq> f (xs ! n)"
proof -
  have xs: "xs = take n xs @ xs ! n # drop (Suc n) xs" using assms by (simp add: id_take_nth_drop)
  show "set (without_nth n xs) \<subseteq> set xs" by (auto simp: without_nth_def dest: in_set_takeD in_set_dropD)
  show "distinct (map f (filter P (without_nth n xs)))" if "distinct (map f (filter P xs))"
    using that by (subst (asm) xs) (auto simp: without_nth_def split: if_splits)
  show "f q \<noteq> f (xs ! n)" if "distinct (map f (filter P xs))" "P (xs ! n)" "q \<in> set (without_nth n xs)" "P q"
  proof -
    have "f (xs ! n) \<notin> f ` {x \<in> set (take n xs). P x}" "f (xs ! n) \<notin> f ` {x \<in> set (drop (Suc n) xs). P x}"
      using that(1,2) by (subst (asm) (1) xs, auto)+
    moreover have "q \<in> set (take n xs) \<or> q \<in> set (drop (Suc n) xs)" using that(3) by (auto simp: without_nth_def)
    ultimately show ?thesis using that(4) by (metis (mono_tags, lifting) image_eqI mem_Collect_eq)
  qed
qed

lemma commit_inv:
  assumes "sync_inv s A" "n < length (ss_inflight s)"
    and "enqueue_commit w (ss_inflight s ! n) (s\<lparr>ss_inflight := without_nth n (ss_inflight s)\<rparr>) = (s', r)"
  shows "sync_inv s' (A \<union> accepted_now (ss_inflight s ! n) r s')"
proof -
  note inv = sync_invD [OF assms(1)]
  let ?q = "ss_inflight s ! n" and ?in = "without_nth n (ss_inflight s)"
  let ?P = "\<lambda>q. eq_created q \<and> \<not> eq_resuming q"
  note rest = without_nth_facts(1) [OF assms(2)] without_nth_facts(2) [OF assms(2), of eq_job ?P]
    without_nth_facts(3) [OF assms(2), of eq_job ?P]
  have q: "?q \<in> set (ss_inflight s)" using assms(2) by simp
  define m1 where "m1 = (if eq_created ?q then tmodify (eq_job ?q) (queued_entry ?q (last_rank (ss_jobs s))) (ss_jobs s)
    else ss_jobs s)"
  have m1: "jobs_ok m1" "pending m1 = pending (ss_jobs s)"
    using inv(1) by (auto simp: m1_def pending_modify jobs_ok_same)
  have later: "distinct (map eq_job (filter ?P ?in))"
    "\<forall>q \<in> set ?in. eq_created q \<longrightarrow> \<not> eq_resuming q \<longrightarrow> eq_job q \<notin> fst ` A"
    "\<forall>q \<in> set ?in. eq_persisted q \<longrightarrow> eq_resuming q"
    using rest(1) rest(2) [OF inv(6)] inv(7,8) by auto
  consider (same) "s' = s\<lparr>ss_inflight := ?in\<rparr>" "isl r"
    | (failed) fl u where "s' = s\<lparr>ss_inflight := ?in,
           ss_jobs := (if ?P ?q then tremove (eq_job ?q) m1 else m1), ss_queue := fl\<rparr>" "isl r"
        "save_queue w m1 (ss_queue s) = (fl, u)"
    | (queued) fl where "s' = s\<lparr>ss_inflight := ?in, ss_jobs := (if eq_created ?q
           then tmodify (eq_job ?q) (\<lambda>j. j\<lparr>j_resume_pending := False\<rparr>) m1 else m1), ss_queue := fl\<rparr>" "\<not> isl r"
        "eq_persisted ?q \<and> fl = ss_queue s \<or> save_queue w m1 (ss_queue s) = (fl, Inr ())"
  proof -
    show thesis
    proof (cases "\<not> eq_created ?q \<and> (case tget (ss_jobs s) (eq_job ?q) of None \<Rightarrow> False | Some j \<Rightarrow> \<not> covered (eq_chapters ?q) j)")
      case True
      then show thesis using assms(3) by (intro same) (auto simp: enqueue_commit_def Let_def)
    next
      case False
      show thesis
      proof (cases "eq_persisted ?q")
        case True
        then show thesis using assms(3) False m1_def
          by (intro queued [of "ss_queue s"]) (auto simp: enqueue_commit_def Let_def)
      next
        case notp: False
        obtain fl u where save: "save_queue w m1 (ss_queue s) = (fl, u)" by fastforce
        show thesis
        proof (cases u)
          case (Inl e)
          then show thesis using assms(3) False notp save m1_def
            by (intro failed [of fl u]) (auto simp: enqueue_commit_def Let_def)
        next
          case (Inr x)
          then show thesis using assms(3) False notp save m1_def
            by (intro queued [of fl]) (auto simp: enqueue_commit_def Let_def)
        qed
      qed
    qed
  qed
  then show ?thesis
  proof cases
    case same
    then show ?thesis using inv later by (simp add: sync_inv_def accepted_now_def)
  next
    case (failed fl u)
    have saved: "file_ok fl" "A \<subseteq> pending_file fl"
      using save_queue_ok [OF failed(3) m1(1)] save_queue_sub [OF failed(3) m1(1) inv(5)] inv m1 by simp_all
    have removed: "A \<subseteq> pending (tremove (eq_job ?q) m1)" if "?P ?q"
    proof -
      have "eq_job ?q \<notin> fst ` A" using inv(7) q that by blast
      then show ?thesis using inv(4) m1 by (auto simp: pending_remove image_iff)
    qed
    have once: "once_per_book (pending (tremove (eq_job ?q) m1))"
      by (rule once_per_book_mono [OF inv(2)]) (use m1 in \<open>auto simp: pending_remove\<close>)
    show ?thesis unfolding failed(1)
      using inv later saved removed once m1 failed(2) jobs_ok_remove [OF m1(1)]
      by (auto simp: sync_inv_def accepted_now_def)
  next
    case (queued fl)
    let ?m2 = "if eq_created ?q then tmodify (eq_job ?q) (\<lambda>j. j\<lparr>j_resume_pending := False\<rparr>) m1 else m1"
    have m2: "jobs_ok ?m2" "pending ?m2 = pending (ss_jobs s)"
      using m1 by (auto simp: pending_modify jobs_ok_same)
    let ?new = "accepted_now ?q r s'"
    have new: "?new \<subseteq> {(i, b). i = eq_job ?q \<and> (i, b) \<in> pending (ss_jobs s)}" "?new \<noteq> {} \<Longrightarrow> ?P ?q"
      using queued(1) m2(2) by (auto simp: accepted_now_def split: if_splits)
    have "fl = ss_queue s \<or> (\<exists>w r. save_queue w m1 (ss_queue s) = (fl, r))" using queued(3) by blast
    from saved_keeps [OF this m1(1)] have saved: "file_ok fl" "A \<subseteq> pending_file fl"
      using inv(2-5) unfolding m1(2) by blast+
    have durable: "?new \<subseteq> pending_file fl"
    proof (cases "?new = {}")
      case False
      then have "\<not> eq_persisted ?q" using new(2) inv(8) q by blast
      then have "pending_file fl = pending m1" using queued(3) save_queue_Inr [OF _ m1(1)] by blast
      then show ?thesis using new(1) m1(2) by auto
    qed simp
    have apart: "\<forall>q \<in> set ?in. eq_created q \<longrightarrow> \<not> eq_resuming q \<longrightarrow> eq_job q \<notin> fst ` (A \<union> ?new)"
    proof (intro ballI impI)
      fix q' assume q': "q' \<in> set ?in" "eq_created q'" "\<not> eq_resuming q'"
      have "eq_job q' \<notin> fst ` ?new"
      proof
        assume "eq_job q' \<in> fst ` ?new"
        then have "eq_job q' = eq_job ?q" "?P ?q" using new by auto
        then show False using rest(3) [OF inv(6) _ q'(1)] q'(2,3) by blast
      qed
      then show "eq_job q' \<notin> fst ` (A \<union> ?new)" using later(2) q' by (simp add: image_Un)
    qed
    show ?thesis unfolding queued(1)
      by (rule sync_invI [where m = ?m2 and q = fl])
        (use inv later m2 saved durable apart new(1) queued(1) in auto)
  qed
qed

lemma pending_remove_all:
  "jobs_ok m \<Longrightarrow> jobs_ok (fold tremove ids m) \<and> pending (fold tremove ids m) = pending m - set ids \<times> UNIV"
  by (induction ids arbitrary: m) (auto simp: pending_remove jobs_ok_remove)

lemma pending_modify_all:
  assumes "\<And>j. same_owed f j"
  shows "jobs_ok m \<Longrightarrow> jobs_ok (fold (\<lambda>i. tmodify i f) ids m) \<and> pending (fold (\<lambda>i. tmodify i f) ids m) = pending m"
  using assms by (induction ids arbitrary: m) (auto simp: pending_modify jobs_ok_same)

lemma batch_job_owed: "owed (batch_job i b ts) c \<longleftrightarrow> c = b" "j_id (batch_job i b ts) = i"
  by (auto simp: owed_defs batch_job_def new_job_def)

lemma batch_insert_facts:
  assumes "batch_insert requests active ts m = (m', created)" "jobs_ok m" "once_per_book (pending m)"
    and "\<forall>k b. (k, b) \<in> pending m \<longrightarrow> b \<in> set active"
    and "distinct (map snd requests)" "\<forall>i \<in> snd ` set requests. tget m i = None"
  shows "jobs_ok m' \<and> once_per_book (pending m') \<and> pending m' = pending m \<union> {(i, b). (b, i) \<in> set created}
    \<and> set created \<subseteq> set requests"
  using assms
proof (induction requests active ts m arbitrary: m' created rule: batch_insert.induct)
  case (2 book_id i r active ts m)
  show ?case
  proof (cases "book_id \<in> set active")
    case True
    then have run: "batch_insert r active ts m = (m', created)" using 2(3) by simp
    have "distinct (map snd r)" "\<forall>k \<in> snd ` set r. tget m k = None" using 2(7,8) by simp_all
    from 2(1) [OF True run 2(4-6) this] show ?thesis by auto
  next
    case False
    let ?m = "tinsert i (batch_job i book_id ts) m"
    obtain created' where rest: "batch_insert r (book_id # active) (sat_add ts 1) ?m = (m', created')"
      "created = (book_id, i) # created'"
      using 2(3) False by (auto split: prod.splits)
    have ins: "pending ?m = pending m \<union> {(i, book_id)}" "jobs_ok ?m"
      using fresh_insert [OF 2(4), of i "batch_job i book_id ts"] 2(8) by (auto simp: batch_job_owed)
    have once: "once_per_book (pending ?m)"
      using 2(5,6) False unfolding ins(1) once_per_book_def by blast
    have "\<forall>k b. (k, b) \<in> pending ?m \<longrightarrow> b \<in> set (book_id # active)" using 2(6) unfolding ins(1) by auto
    moreover have "\<forall>k \<in> snd ` set r. tget ?m k = None" using 2(7,8) by (auto simp: tbl.lookup_insert)
    ultimately show ?thesis
      using 2(2) [OF False rest(1) ins(2) once] 2(7) ins(1) rest(2) by auto
  qed
qed simp

lemma active_books_pending: "jobs_ok m \<Longrightarrow> (k, b) \<in> pending m \<Longrightarrow> b \<in> set (active_books m)"
proof -
  assume m: "jobs_ok m" "(k, b) \<in> pending m"
  then obtain j where j: "tget m k = Some j" "owed j b" by (auto simp: pending_def)
  have "tvalid m" using m(1) by (simp add: jobs_ok_def)
  then have "j \<in> set (values_of m)" using j(1) in_values_of [of m j] by auto
  then show ?thesis using j(2) by (auto simp: active_books_def set_map_filter_eq owed_def)
qed

lemma batch_inv:
  assumes "sync_inv s A" "distinct (map snd requests)" "snd ` set requests \<inter> (known_ids s \<union> fst ` A) = {}"
    and "enqueue_sync_batch env now w requests s = (s', r)"
  shows "sync_inv s' (A \<union> (case r of Inl _ \<Rightarrow> {} | Inr (created, _) \<Rightarrow> {(i, b). (b, i) \<in> set created}))"
proof -
  note inv = sync_invD [OF assms(1)]
  obtain m1 created where batch: "batch_insert requests (active_books (ss_jobs s))
      (next_job_timestamp (ss_jobs s) now) (ss_jobs s) = (m1, created)" by fastforce
  have unknown: "\<forall>i \<in> snd ` set requests. tget (ss_jobs s) i = None"
    using assms(3) by (auto simp: known_ids_def)
  have active: "\<forall>k b. (k, b) \<in> pending (ss_jobs s) \<longrightarrow> b \<in> set (active_books (ss_jobs s))"
    using active_books_pending [OF inv(1)] by blast
  have facts: "jobs_ok m1" "once_per_book (pending m1)"
    "pending m1 = pending (ss_jobs s) \<union> {(i, b). (b, i) \<in> set created}" "set created \<subseteq> set requests"
    using batch_insert_facts [OF batch inv(1,2) active assms(2) unknown] by blast+
  define m2 where "m2 = prune_finished_jobs m1"
  have m2: "jobs_ok m2" "pending m2 = pending m1"
    using facts(1) by (simp_all add: m2_def prune_ok pending_prune)
  obtain fl u where save: "save_queue w m2 (ss_queue s) = (fl, u)" by fastforce
  have A: "A \<subseteq> pending m2" using inv(4) facts(3) m2(2) by auto
  have saved: "file_ok fl" "A \<subseteq> pending_file fl"
    using saved_keeps [OF _ m2(1) _ A inv(3,5)] save facts(2) m2(2) by metis+
  let ?new = "{(i, b). (b, i) \<in> set created}"
  have apart: "snd ` set created \<inter> (known_ids s \<union> fst ` A) = {}" using facts(4) assms(3) by blast
  consider (same) "s' = s" "case r of Inl _ \<Rightarrow> True | Inr (c, _) \<Rightarrow> c = []"
    | (failed) "s' = s\<lparr>ss_jobs := fold tremove (map snd created) m2, ss_queue := fl\<rparr>" "isl r"
    | (queued) n where "s' = s\<lparr>ss_jobs := fold (\<lambda>i. tmodify i (\<lambda>j. j\<lparr>j_resume_pending := False\<rparr>)) (map snd created) m2,
        ss_queue := fl\<rparr>" "r = Inr (created, n)" "u = Inr ()"
    using assms(4) batch save m2_def
    by (cases u) (auto simp: enqueue_sync_batch_def Let_def split: if_splits)
  then show ?thesis
  proof cases
    case same
    then show ?thesis using assms(1) by (auto split: sum.splits)
  next
    case failed
    let ?m = "fold tremove (map snd created) m2"
    have m: "jobs_ok ?m" "pending ?m = pending m2 - snd ` set created \<times> UNIV"
      using pending_remove_all [OF m2(1), of "map snd created"] by simp_all
    have "A \<subseteq> pending ?m" using A apart unfolding m(2) by force
    moreover have "once_per_book (pending ?m)"
      by (rule once_per_book_mono [OF facts(2)]) (use m m2 in auto)
    ultimately show ?thesis using failed inv saved m(1) by (auto simp: sync_inv_def split: sum.splits)
  next
    case queued
    let ?m = "fold (\<lambda>i. tmodify i (\<lambda>j. j\<lparr>j_resume_pending := False\<rparr>)) (map snd created) m2"
    have m: "jobs_ok ?m" "pending ?m = pending m1"
      using pending_modify_all [OF _ m2(1), of "\<lambda>j. j\<lparr>j_resume_pending := False\<rparr>" "map snd created"] m2(2) by simp_all
    have durable: "?new \<subseteq> pending_file fl"
      using save_queue_Inr [OF _ m2(1)] save queued(3) m2(2) facts(3) by auto
    have late: "\<forall>q \<in> set (ss_inflight s). eq_created q \<longrightarrow> \<not> eq_resuming q \<longrightarrow> eq_job q \<notin> fst ` (A \<union> ?new)"
    proof (intro ballI impI)
      fix q assume q: "q \<in> set (ss_inflight s)" "eq_created q" "\<not> eq_resuming q"
      have "eq_job q \<notin> snd ` set created" using apart q(1) by (auto simp: known_ids_def)
      then have "eq_job q \<notin> fst ` ?new" by force
      then show "eq_job q \<notin> fst ` (A \<union> ?new)" using inv(7) q by (simp add: image_Un)
    qed
    have "sync_inv s' (A \<union> ?new)" unfolding queued(1)
      by (rule sync_invI [where m = ?m and q = fl])
        (use inv m saved durable late facts in auto)
    then show ?thesis using queued(2) by simp
  qed
qed

lemma saved_same:
  assumes "sync_inv s A" "save_queue w m (ss_queue s) = (fl, u)" "jobs_ok m" "pending m = pending (ss_jobs s)"
  shows "file_ok fl" "A \<subseteq> pending_file fl"
proof -
  note inv = sync_invD [OF assms(1)]
  have save: "fl = ss_queue s \<or> (\<exists>w r. save_queue w m (ss_queue s) = (fl, r))" using assms(2) by blast
  show "file_ok fl" "A \<subseteq> pending_file fl"
    using saved_keeps [OF save assms(3) _ _ inv(3,5)] inv(2,4) unfolding assms(4) by blast+
qed

text \<open>Steps that rewrite one job and leave what is owed alone.\<close>

lemma modify_inv:
  assumes "sync_inv s A" "\<And>j. tget (ss_jobs s) i = Some j \<Longrightarrow> same_owed f j"
  shows "sync_inv (s\<lparr>ss_jobs := tmodify i f (ss_jobs s)\<rparr>) A"
proof -
  note inv = sync_invD [OF assms(1)]
  have "jobs_ok (tmodify i f (ss_jobs s))" "pending (tmodify i f (ss_jobs s)) = pending (ss_jobs s)"
    using jobs_ok_same [OF inv(1) assms(2)] pending_modify [OF assms(2)] by simp_all
  then show ?thesis using inv by (simp add: sync_inv_def)
qed

lemma first_queued:
  assumes "first_in_queue m = Some i" "jobs_ok m"
  shows "\<exists>j. tget m i = Some j \<and> is_sync_job j \<and> j_status j = ''queued''"
proof -
  have mem: "min_by_key f xs = Some x \<Longrightarrow> x \<in> set xs" for f :: "job_status \<Rightarrow> u64 \<times> string" and xs x
    by (induction xs arbitrary: x) (auto split: option.splits if_splits)
  obtain j where j: "min_by_key queue_key (queued_jobs m) = Some j" "j_id j = i"
    using assms(1) by (auto simp: first_in_queue_def)
  then have "j \<in> set (values_of m)" "is_sync_job j" "j_status j = ''queued''"
    using mem [OF j(1)] by (auto simp: queued_jobs_def)
  moreover have "tvalid m" using assms(2) by (simp add: jobs_ok_def)
  ultimately show ?thesis using in_values_of [of m j] jobs_okD [OF assms(2)] j(2) by auto
qed

lemma claim_inv: "sync_inv s A \<Longrightarrow> sync_inv (fst (claim_sync_slot now i s)) A"
  using first_queued [of "ss_jobs s" i]
  by (auto simp: claim_sync_slot_def sync_inv_def [of s] same_owed_started intro!: modify_inv)

lemma checkpoint_inv:
  assumes "sync_inv s A" "tget (ss_jobs s) i = Some j" "j_status j = ''running''"
  shows "sync_inv (fst (pause_at_checkpoint w i s)) A"
proof (cases "j_pause_requested j")
  case True
  note inv = sync_invD [OF assms(1)]
  let ?f = "\<lambda>j. j\<lparr>j_status := ''paused'', j_resume_pending := False,
     j_progress := map_option (\<lambda>p. p\<lparr>jp_step := ''Paused; completed sections saved''\<rparr>) (j_progress j)\<rparr>"
  let ?m = "tmodify i ?f (ss_jobs s)"
  have "same_owed ?f k" if "tget (ss_jobs s) i = Some k" for k
    using assms(2,3) that by (intro same_owed_paused(2)) (simp add: is_unfinished_job_def is_active_job_def)
  then have m: "jobs_ok ?m" "pending ?m = pending (ss_jobs s)"
    using jobs_ok_same [OF inv(1)] pending_modify by blast+
  obtain fl u where save: "save_queue w ?m (ss_queue s) = (fl, u)" by fastforce
  have back_ok: "jobs_ok (tinsert i j ?m)" "pending (tinsert i j ?m) = pending (ss_jobs s)"
  proof -
    show "jobs_ok (tinsert i j ?m)" using m(1) inv(1) assms(2) by (intro jobs_ok_insert) (auto dest: jobs_okD)
    have "tget (tinsert i j ?m) k = tget (ss_jobs s) k" for k
      using assms(2) by (simp add: tbl.lookup_insert tget_modify)
    then show "pending (tinsert i j ?m) = pending (ss_jobs s)" by (simp add: pending_def)
  qed
  note saved = saved_same [OF assms(1) save m]
  show ?thesis
    using assms(2) True save saved inv m back_ok
    by (cases u) (auto simp: pause_at_checkpoint_def Let_def sync_inv_def)
qed (use assms in \<open>simp add: pause_at_checkpoint_def\<close>)

lemma output_inv: "sync_inv s A \<Longrightarrow> sync_inv (s\<lparr>ss_jobs := update_job_output i out (ss_jobs s)\<rparr>) A"
  unfolding update_job_output_def Let_def by (rule modify_inv) (auto intro: same_owed_output)

lemma progress_inv: "sync_inv s A \<Longrightarrow> sync_inv (s\<lparr>ss_jobs := update_job_progress i p (ss_jobs s)\<rparr>) A"
  unfolding update_job_progress_def by (rule modify_inv) auto

text \<open>A result: the job leaves what is owed.\<close>

lemma ledger_less:
  assumes "sync_inv s A"
  shows "sync_inv s (A - X)"
  using assms unfolding sync_inv_def by blast

lemma finished_job_id [simp]: "j_id (finished_job now st code e j) = j_id j"
  by (simp add: finished_job_def)

lemma finish_inv:
  assumes "sync_inv s A" "new_status \<in> {''completed'', ''failed'', ''cancelled''}"
  shows "sync_inv (update_job_finished fenv now i new_status code e s) (A - {i} \<times> UNIV)"
proof -
  note inv = sync_invD [OF ledger_less [OF assms(1), of "{i} \<times> UNIV"]]
  define m where "m = tmodify i (finished_job now new_status code e) (ss_jobs s)"
  have "\<not> owed (finished_job now new_status code e j) b" for j b
    using assms(2) by (auto simp: owed_def finished_job_def is_unfinished_job_def is_active_job_def)
  then have m: "jobs_ok m" "pending m \<subseteq> pending (ss_jobs s)" "A - {i} \<times> UNIV \<subseteq> pending m"
    using inv(1,4) jobs_ok_modify [OF inv(1), of "finished_job now new_status code e" i]
    by (auto simp: m_def pending_def tget_modify split: if_splits)
  have pruned: "jobs_ok (prune_finished_jobs m)" "pending (prune_finished_jobs m) = pending m"
    "jobs_ok (prune_sync_results m)" "pending (prune_sync_results m) = pending m"
    "jobs_ok (prune_finished_jobs (prune_sync_results m))"
    "pending (prune_finished_jobs (prune_sync_results m)) = pending m"
    using m(1) by (simp_all add: prune_ok pending_prune prune_results_ok pending_prune_results)
  define s' where "s' = update_job_finished fenv now i new_status code e s"
  have s': "ss_jobs s' \<in> {m, prune_finished_jobs m, prune_finished_jobs (prune_sync_results m)}"
    "ss_inflight s' = ss_inflight s"
    "ss_queue s' = ss_queue s \<or> ss_queue s' = fst (save_queue (fe_queue fenv) (ss_jobs s') (ss_queue s))"
    by (auto simp: s'_def m_def update_job_finished_def Let_def split: prod.splits)
  have jobs: "jobs_ok (ss_jobs s')" "pending (ss_jobs s') = pending m" using s'(1) pruned m(1) by auto
  have once: "once_per_book (pending (ss_jobs s'))" using inv(2) m(2) jobs(2) once_per_book_mono by metis
  have "ss_queue s' = ss_queue s \<or> (\<exists>w r. save_queue w (ss_jobs s') (ss_queue s) = (ss_queue s', r))"
    using s'(3) by (metis prod.collapse)
  from saved_keeps [OF this jobs(1) once _ inv(3,5)] m(3) jobs(2)
  have "file_ok (ss_queue s')" "A - {i} \<times> UNIV \<subseteq> pending_file (ss_queue s')" by simp_all
  then show ?thesis using inv jobs once m(3) s'(2) unfolding s'_def [symmetric] by (simp add: sync_inv_def)
qed

lemma interrupt_inv:
  assumes "sync_inv s A"
  shows "sync_inv (fail_if_still_active w now i e s) A"
proof -
  note inv = sync_invD [OF assms]
  let ?m = "tmodify i (interrupted now e) (ss_jobs s)"
  have m: "jobs_ok ?m" "pending ?m = pending (ss_jobs s)"
    using jobs_ok_same [OF inv(1) interrupted_owed] pending_modify [OF interrupted_owed] by simp_all
  define s' where "s' = fail_if_still_active w now i e s"
  have s': "ss_jobs s' = prune_finished_jobs ?m" "ss_inflight s' = ss_inflight s"
    "ss_queue s' = ss_queue s \<or> ss_queue s' = fst (save_queue w ?m (ss_queue s))"
    by (auto simp: s'_def fail_if_still_active_def Let_def)
  have "ss_queue s' = ss_queue s \<or> (\<exists>w r. save_queue w ?m (ss_queue s) = (ss_queue s', r))"
    using s'(3) by (metis prod.collapse)
  from saved_keeps [OF this m(1) _ _ inv(3,5)] inv(2,4) m(2)
  have "file_ok (ss_queue s')" "A \<subseteq> pending_file (ss_queue s')" by simp_all
  then show ?thesis using inv m s'(1,2) prune_ok [OF m(1)] pending_prune [OF m(1)] unfolding s'_def [symmetric]
    by (simp add: sync_inv_def)
qed

lemma removal_outcomes:
  assumes "remove_sync_job fenv i s = (s', r)"
  obtains (kept) es where "s' = s\<lparr>ss_schedules := es\<rparr>"
  | (undone) j es fl w u where "tget (ss_jobs s) i = Some j" "isl r"
      "save_queue w (tremove i (ss_jobs s)) (ss_queue s) = (fl, u)"
      "s' = s\<lparr>ss_jobs := tinsert i j (tremove i (ss_jobs s)), ss_schedules := es, ss_queue := fl\<rparr>"
  | (removed) es fl w u where "\<not> isl r"
      "save_queue w (tremove i (ss_jobs s)) (ss_queue s) = (fl, u)"
      "s' = s\<lparr>ss_jobs := tremove i (ss_jobs s), ss_schedules := es, ss_queue := fl\<rparr>"
proof -
  obtain es v where results:
      "save_finished_results (fe_readable fenv) (fe_schedules fenv) (ss_jobs s) (ss_schedules s) = (es, v)"
    by fastforce
  obtain fl u where save: "save_queue (fe_queue fenv) (tremove i (ss_jobs s)) (ss_queue s) = (fl, u)"
    by fastforce
  have same: "s = s\<lparr>ss_schedules := ss_schedules s\<rparr>" by simp
  show thesis
  proof (cases "sync_job_at (ss_jobs s) i")
    case (Inl e)
    then have "s' = s" using assms by (simp add: remove_sync_job_def)
    then show thesis using kept [of "ss_schedules s"] by simp
  next
    case (Inr j)
    then have at: "tget (ss_jobs s) i = Some j" by (auto simp: sync_job_at_def split: option.splits if_splits)
    show thesis
    proof (cases "j_status j \<noteq> ''queued'' \<and> j_status j \<noteq> ''paused'' \<and> \<not> finished_sync_result j \<or> isl v")
      case True
      have "\<exists>es. s' = s\<lparr>ss_schedules := es\<rparr>"
      proof (cases "j_status j \<noteq> ''queued'' \<and> j_status j \<noteq> ''paused'' \<and> \<not> finished_sync_result j")
        case True
        then have "s' = s" using assms Inr by (simp add: remove_sync_job_def)
        then show ?thesis using same by blast
      next
        case False
        then have "isl v" using True by blast
        then show ?thesis using False assms Inr results by (cases v) (auto simp: remove_sync_job_def)
      qed
      then show thesis using kept by blast
    next
      case False
      then show thesis
        using assms Inr results save undone [OF at _ save] removed [OF _ save]
        by (cases u; cases v) (auto simp: remove_sync_job_def)
    qed
  qed
qed

lemma removal_inv:
  assumes "sync_inv s A" "remove_sync_job fenv i s = (s', r)"
  shows "sync_inv s' (if isl r \<and> ss_queue s' = ss_queue s then A else A - {i} \<times> UNIV)"
proof -
  let ?A = "A - {i} \<times> UNIV" and ?m = "tremove i (ss_jobs s)"
  note full = sync_invD [OF assms(1)]
  note less = ledger_less [OF assms(1), of "{i} \<times> UNIV"]
  note inv = sync_invD [OF less]
  have m: "jobs_ok ?m" "pending ?m = pending (ss_jobs s) - {i} \<times> UNIV"
    using inv(1) by (simp_all add: jobs_ok_remove pending_remove)
  have sub: "?A \<subseteq> pending ?m" "once_per_book (pending ?m)"
    using inv(4) once_per_book_mono [OF inv(2)] unfolding m(2) by blast+
  have saved: "file_ok fl" "?A \<subseteq> pending_file fl" if "save_queue w ?m (ss_queue s) = (fl, u)" for w fl u
    using saved_keeps [OF _ m(1) sub(2,1) inv(3,5)] that by blast+
  show ?thesis
    using assms(2)
  proof (cases rule: removal_outcomes)
    case (kept es)
    then have "sync_inv s' A" "sync_inv s' ?A" using assms(1) less by (simp_all add: sync_inv_def)
    then show ?thesis by simp
  next
    case (removed es fl w u)
    then show ?thesis using saved [OF removed(2)] m sub inv(6-8) by (simp add: sync_inv_def)
  next
    case (undone j es fl w u)
    let ?undo = "tinsert i j ?m"
    have ok: "tvalid (ss_jobs s)" using inv(1) by (simp add: jobs_ok_def)
    have "tget ?undo k = tget (ss_jobs s) k" for k
      using undone(1) by (simp add: tbl.lookup_insert tbl.lookup_remove [OF ok])
    then have same: "pending ?undo = pending (ss_jobs s)" by (simp add: pending_def)
    have back_ok: "jobs_ok ?undo" using m(1) inv(1) undone(1) by (intro jobs_ok_insert) (auto dest: jobs_okD)
    have kept: "sync_inv s' ?A"
      using saved [OF undone(3)] back_ok same inv by (simp add: undone(4) sync_inv_def)
    have "sync_inv s' A" if "ss_queue s' = ss_queue s"
      using that back_ok same full by (simp add: undone(4) sync_inv_def)
    then show ?thesis using kept by simp
  qed
qed

lemma assign_ranks_same:
  assumes "jobs_ok m"
  shows "jobs_ok (assign_ranks ids m) \<and> pending (assign_ranks ids m) = pending m"
proof -
  have "jobs_ok (fold (\<lambda>(rank, i). tmodify i (\<lambda>j. j\<lparr>j_queue_position := Some (of_nat rank)\<rparr>)) es m)
      \<and> pending (fold (\<lambda>(rank, i). tmodify i (\<lambda>j. j\<lparr>j_queue_position := Some (of_nat rank)\<rparr>)) es m) = pending m" for es
    using assms by (induction es arbitrary: m) (auto simp: pending_modify jobs_ok_same)
  then show ?thesis by (simp add: assign_ranks_def)
qed

lemma controlled_same:
  assumes "jobs_ok m" "tget m i = Some j" "controlled action i j m = Inr m'"
  shows "jobs_ok m' \<and> pending m' = pending m"
proof -
  consider (move) ids where "m' = assign_ranks ids m"
    | (pause) "m' = tmodify i paused_by_request m" "is_unfinished_job j"
    | (resume) rank where "m' = tmodify i (resumed_by_request rank) m" "j_status j = ''paused''"
    using assms(3) by (auto simp: controlled_def is_unfinished_job_def is_active_job_def split: if_splits)
  then show ?thesis
  proof cases
    case move
    then show ?thesis using assign_ranks_same [OF assms(1)] by simp
  next
    case pause
    have "same_owed paused_by_request k" if "tget m i = Some k" for k
      using that assms(2) pause(2) same_owed_paused(1) by simp
    then show ?thesis using jobs_ok_same [OF assms(1)] pending_modify pause(1) by blast
  next
    case (resume rank)
    have "same_owed (resumed_by_request rank) k" if "tget m i = Some k" for k
      using that assms(2) resume(2) same_owed_paused(3) by simp
    then show ?thesis using jobs_ok_same [OF assms(1)] pending_modify resume(1) by blast
  qed
qed

lemma control_inv:
  assumes "sync_inv s A"
  shows "sync_inv (fst (control_sync_job w action i s)) A"
proof (cases "bind (sync_job_at (ss_jobs s) i) (\<lambda>j. controlled action i j (ss_jobs s))")
  case (Inl e)
  then show ?thesis using assms by (simp add: control_sync_job_def)
next
  case (Inr m)
  then obtain j where "tget (ss_jobs s) i = Some j" "controlled action i j (ss_jobs s) = Inr m"
    by (auto dest!: bind_InrD simp: sync_job_at_def split: option.splits if_splits)
  then have m: "jobs_ok m" "pending m = pending (ss_jobs s)"
    using controlled_same assms by (auto simp: sync_inv_def)
  obtain fl u where save: "save_queue w m (ss_queue s) = (fl, u)" by fastforce
  note saved = saved_same [OF assms save m]
  show ?thesis
    using sync_invD [OF assms] m saved Inr save
    by (cases u) (auto simp: control_sync_job_def sync_inv_def)
qed

lemma map_values_same:
  assumes "jobs_ok m" "\<And>j. same_owed f j"
  shows "jobs_ok (map_values f m)" "pending (map_values f m) = pending m"
proof -
  have get: "tget (map_values f m) i = map_option f (tget m i)" for i
    by (simp add: map_values_def tget_def map_of_map)
  have "tvalid (map_values f m)" using assms(1) by (simp add: jobs_ok_def tvalid_def map_values_def o_def case_prod_unfold)
  then show "jobs_ok (map_values f m)"
    using assms by (auto simp: jobs_ok_def get same_owed_def)
  show "pending (map_values f m) = pending m"
    using assms(2) by (auto simp: pending_def get same_owed_def)
qed

lemma update_saved_inv:
  assumes "sync_inv s A"
  shows "sync_inv (fst (save_update_queue w s)) A"
proof -
  let ?m = "map_values saved_for_update (ss_jobs s)"
  have m: "jobs_ok ?m" "pending ?m = pending (ss_jobs s)"
    using map_values_same [of "ss_jobs s" saved_for_update] assms by (simp_all add: sync_inv_def)
  obtain fl u where save: "save_queue w ?m (ss_queue s) = (fl, u)" by fastforce
  show ?thesis
    using sync_invD [OF assms] m saved_same [OF assms save m] save
    by (auto simp: save_update_queue_def Let_def sync_inv_def)
qed

lemma other_job_inv:
  assumes "sync_inv s A" "fresh \<notin> known_ids s \<union> fst ` A" "kind \<noteq> SYNC_GENERATE_JOB_KIND"
  shows "sync_inv (s\<lparr>ss_jobs := fst (create_job_with_state fresh now kind target_id st dedup (ss_jobs s))\<rparr>) A"
proof -
  note inv = sync_invD [OF assms(1)]
  let ?j = "new_job fresh kind target_id st (dec (unat (next_job_timestamp (ss_jobs s) now)))"
  let ?m = "prune_finished_jobs (tinsert fresh ?j (ss_jobs s))"
  have new: "tget (ss_jobs s) fresh = None" using assms(2) by (auto simp: known_ids_def)
  have "\<not> owed ?j b" for b using assms(3) by (simp add: owed_def is_sync_job_def new_job_def)
  then have ins: "jobs_ok (tinsert fresh ?j (ss_jobs s))" "pending (tinsert fresh ?j (ss_jobs s)) = pending (ss_jobs s)"
    using fresh_insert [OF inv(1) new, of ?j] by simp_all
  have "fst (create_job_with_state fresh now kind target_id st dedup (ss_jobs s)) \<in> {ss_jobs s, ?m}"
    by (auto simp: create_job_with_state_def split: option.splits)
  then show ?thesis
    using inv assms(1) prune_ok [OF ins(1)] pending_prune [OF ins(1)] ins(2) by (auto simp: sync_inv_def)
qed

lemma recovered_jobs_facts:
  assumes "jobs_ok m" "distinct (map j_id es)" "\<forall>j \<in> set es. tget m (j_id j) = None"
  shows "jobs_ok (fold (\<lambda>j. tinsert (j_id j) (recovered j)) es m)
    \<and> pending (fold (\<lambda>j. tinsert (j_id j) (recovered j)) es m) = pending m \<union> pending_saved es"
  using assms
proof (induction es arbitrary: m)
  case (Cons j es)
  let ?m = "tinsert (j_id j) (recovered j) m"
  have same: "j_id (recovered j) = j_id j" "owed (recovered j) = owed j"
    using same_owed_simps(7) [of j] by (simp_all only: same_owed_def)
  have ins: "jobs_ok ?m" "pending ?m = pending m \<union> {(j_id j, b) | b. owed j b}"
    using fresh_insert [OF Cons.prems(1), of "j_id j" "recovered j"] Cons.prems(3) same by auto
  have "\<forall>k \<in> set es. tget ?m (j_id k) = None"
    using Cons.prems(2,3) by (auto simp: tbl.lookup_insert image_iff)
  then show ?case
    using Cons.IH [OF ins(1)] Cons.prems(2) ins(2) by (auto simp: pending_saved_def)
qed (simp add: pending_saved_def)

lemma restored_pending:
  assumes "file_ok (ss_queue s)"
  shows "jobs_ok (ss_jobs (restore_queue fenv (crash s)))"
    "pending (ss_jobs (restore_queue fenv (crash s))) = pending_file (ss_queue s)"
proof -
  have "jobs_ok (ss_jobs (restore_queue fenv (crash s)))
    \<and> pending (ss_jobs (restore_queue fenv (crash s))) = pending_file (ss_queue s)"
  proof (cases "ss_queue s")
    case (Snapshot es)
    let ?m = "recovered_jobs es []"
    have "distinct (map j_id (filter is_sync_job es))"
      using assms Snapshot by (simp add: file_ok_def distinct_map_filter)
    then have m: "jobs_ok ?m" "pending ?m = pending_saved (filter is_sync_job es)"
      using recovered_jobs_facts [of "[]" "filter is_sync_job es"]
      by (simp_all add: recovered_jobs_def pending_def)
    have "pending_saved (filter is_sync_job es) = pending_saved es"
      by (auto simp: pending_saved_def owed_def)
    then have "pending ?m = pending_saved es" using m(2) by simp
    then show ?thesis
      using m(1) Snapshot prune_results_ok [OF m(1)]
      by (auto simp: restore_queue_def crash_def Let_def pending_file_def pending_prune pending_prune_results
          prune_ok split: prod.splits)
  qed (simp_all add: restore_queue_def crash_def pending_file_def pending_def)
  then show "jobs_ok (ss_jobs (restore_queue fenv (crash s)))"
    "pending (ss_jobs (restore_queue fenv (crash s))) = pending_file (ss_queue s)" by auto
qed

lemma restart_inv:
  assumes "sync_inv s A"
  shows "sync_inv (restore_queue fenv (crash s)) A"
proof -
  note inv = sync_invD [OF assms]
  note restored = restored_pending [OF inv(3), of fenv]
  have "once_per_book (pending_file (ss_queue s))"
    using inv(3) by (auto simp: file_ok_def pending_file_def once_per_book_def split: queue_file.splits)
  moreover have "ss_queue (restore_queue fenv (crash s)) = (if ss_queue s = Unreadable then NoFile else ss_queue s)"
    "ss_inflight (restore_queue fenv (crash s)) = []"
    by (auto simp: restore_queue_def crash_def Let_def split: queue_file.splits prod.splits)
  ultimately show ?thesis using inv restored
    by (auto simp: sync_inv_def file_ok_def pending_file_def)
qed

lemma recover_inv: "sync_inv s A \<Longrightarrow> sync_inv (fst (enqueue_resume env i chapters persisted s)) A"
  by (auto simp: enqueue_resume_def sync_inv_def split: sum.splits)

lemma batch_refused_inv: "sync_inv s A \<Longrightarrow> sync_inv (batch_dispatch_refused i s) A"
  unfolding batch_dispatch_refused_def by (rule modify_inv) auto

theorem sync_step_inv: "sync_step p p' \<Longrightarrow> sync_inv (fst p) (snd p) \<Longrightarrow> sync_inv (fst p') (snd p')"
proof (induction rule: sync_step.induct)
  case (update_signal s A token)
  then show ?case by (simp add: sync_inv_def)
next
  case (schedules_written s A entries)
  then show ?case by (simp add: sync_inv_def)
next
  case (removal fenv i s s' r A)
  then show ?case using removal_inv [of s A fenv i s' r] by simp
qed (auto intro: request_inv commit_inv recover_inv batch_inv batch_refused_inv claim_inv checkpoint_inv
      progress_inv output_inv finish_inv interrupt_inv control_inv update_saved_inv other_job_inv
      restart_inv)

section \<open>The promises\<close>

definition started :: "sync_state \<Rightarrow> bool" where
  "started s \<longleftrightarrow> ss_jobs s = [] \<and> ss_inflight s = [] \<and> (ss_queue s = NoFile \<or> ss_queue s = Unreadable)"

lemma reached_inv:
  assumes "sync_step\<^sup>*\<^sup>* p p'" "sync_inv (fst p) (snd p)"
  shows "sync_inv (fst p') (snd p')"
  using assms by (induction rule: rtranclp_induct) (auto intro: sync_step_inv)

lemma started_inv: "started s \<Longrightarrow> sync_inv s {}"
  by (auto simp: started_def sync_inv_def pending_def once_per_book_def file_ok_def)


text \<open>C16: A book is queued at most once. However requests for one book interleave with batches,
  controls and restarts, two jobs of the read-along queue that have not finished are never for
  the same book.\<close>

theorem book_queued_once:
  assumes "started s0" "sync_step\<^sup>*\<^sup>* (s0, {}) (s, accepted)"
    and "tget (ss_jobs s) i = Some j" "is_sync_job j" "is_unfinished_job j" "j_target_id j = Some book_id"
    and "tget (ss_jobs s) k = Some l" "is_sync_job l" "is_unfinished_job l" "j_target_id l = Some book_id"
  shows "i = k"
proof -
  have "sync_inv s accepted" using reached_inv [OF assms(2)] started_inv [OF assms(1)] by simp
  then have "once_per_book (pending (ss_jobs s))" by (simp add: sync_inv_def)
  moreover have "(i, book_id) \<in> pending (ss_jobs s)" "(k, book_id) \<in> pending (ss_jobs s)"
    using assms(3-10) by (auto simp: pending_def owed_def)
  ultimately show ?thesis unfolding once_per_book_def by blast
qed

section \<open>Examples\<close>

definition ex_sync_start :: sync_state where
  "ex_sync_start = \<lparr>ss_jobs = [], ss_queue = NoFile, ss_schedules = [], ss_update_pause = 0, ss_inflight = []\<rparr>"

definition ex_enqueue_env :: enqueue_env where
  "ex_enqueue_env = \<lparr>ee_lifecycle = True, ee_runtime = True, ee_tracks = Inr 3, ee_rerun = Inr []\<rparr>"

definition ex_requested :: sync_state where
  "ex_requested = fst (generate_sync_map ex_enqueue_env ''j1'' 5 ''b'' None ex_sync_start)"

definition ex_committed :: "sync_state \<times> string result" where
  "ex_committed = enqueue_commit Written (ss_inflight ex_requested ! 0)
     (ex_requested\<lparr>ss_inflight := without_nth 0 (ss_inflight ex_requested)\<rparr>)"

lemma ex_committed_facts:
  "ss_inflight ex_requested \<noteq> [] \<and> snd ex_committed = Inr ''j1''
   \<and> (case ss_inflight ex_requested of [] \<Rightarrow> False | q # _ \<Rightarrow> eq_created q \<and> \<not> eq_resuming q \<and> eq_job q = ''j1'')
   \<and> (case tget (ss_jobs (fst ex_committed)) ''j1'' of None \<Rightarrow> False | Some j \<Rightarrow> owed j ''b'')"
  by code_simp

lemma ex_sync_run:
  "started ex_sync_start"
  "\<exists>accepted. sync_step\<^sup>*\<^sup>* (ex_sync_start, {}) (fst ex_committed, accepted) \<and> (''j1'', ''b'') \<in> accepted"
proof -
  show "started ex_sync_start" by (simp add: started_def ex_sync_start_def)
  obtain q r where q: "ss_inflight ex_requested = q # r" "eq_created q" "\<not> eq_resuming q" "eq_job q = ''j1''"
    using ex_committed_facts by (auto split: list.splits)
  have "sync_step (ex_sync_start, {}) (ex_requested, {})"
    unfolding ex_requested_def by (rule sync_step.request) (simp add: known_ids_def ex_sync_start_def)
  moreover have "sync_step (ex_requested, {})
      (fst ex_committed, {} \<union> accepted_now (ss_inflight ex_requested ! 0) (snd ex_committed) (fst ex_committed))"
    by (rule sync_step.commit) (simp_all add: q ex_committed_def)
  moreover have "(''j1'', ''b'') \<in> accepted_now (ss_inflight ex_requested ! 0) (snd ex_committed) (fst ex_committed)"
    using q ex_committed_facts by (auto simp: accepted_now_def pending_def split: option.splits)
  ultimately show "\<exists>accepted. sync_step\<^sup>*\<^sup>* (ex_sync_start, {}) (fst ex_committed, accepted) \<and> (''j1'', ''b'') \<in> accepted"
    by (intro exI conjI) (erule (1) converse_rtranclp_into_rtranclp [OF _ r_into_rtranclp], simp)
qed

text \<open>
  The promise covers the request that created the job. One that finds the job of another request
  is answered when its own write succeeds, yet the job leaves the table when the write of the
  creator then fails.
\<close>

definition ex_two_requests :: sync_state where
  "ex_two_requests = fst (generate_sync_map ex_enqueue_env ''j2'' 6 ''b'' None ex_requested)"

theorem joined_request_lost:
  "(let (s, r) = enqueue_commit Written (ss_inflight ex_two_requests ! 1)
       (ex_two_requests\<lparr>ss_inflight := without_nth 1 (ss_inflight ex_two_requests)\<rparr>);
     (s', r') = enqueue_commit NotWritten (ss_inflight s ! 0) (s\<lparr>ss_inflight := without_nth 0 (ss_inflight s)\<rparr>)
    in r = Inr ''j1'' \<and> isl r' \<and> tget (ss_jobs s') ''j1'' = None)"
  by code_simp


theorem book_queued_once_witness:
  "\<exists>j. tget (ss_jobs (fst ex_committed)) ''j1'' = Some j \<and> is_unfinished_job j
     \<and> (\<nexists>k l. k \<noteq> ''j1'' \<and> tget (ss_jobs (fst ex_committed)) k = Some l \<and> is_sync_job l
            \<and> is_unfinished_job l \<and> j_target_id l = Some ''b'')"
proof -
  obtain j where j: "tget (ss_jobs (fst ex_committed)) ''j1'' = Some j" "owed j ''b''"
    using ex_committed_facts by (auto split: option.splits)
  obtain accepted where run: "sync_step\<^sup>*\<^sup>* (ex_sync_start, {}) (fst ex_committed, accepted)"
    using ex_sync_run(2) by blast
  show ?thesis
    using j book_queued_once [OF ex_sync_run(1) run] by (auto simp: owed_def)
qed

end
