(* ===== verification/SyncSchedule.thy ===== *)
theory SyncSchedule
  imports SyncSafety
begin

text \<open>
  One-time schedule entries and the nightly sweep (\<open>sync_schedule.rs\<close>). Every operation here runs
  under the schedule lock, so the two files change only in the order of the operations; the job
  table may change whenever an operation gives its lock up, which is the argument \<open>others\<close>. The time
  zone database and the calendar of the \<open>chrono\<close> crates are the argument \<open>zones\<close>.
\<close>

section \<open>Wall-clock time\<close>

text \<open>
  Days are numbered, a local time is a number of minutes, an instant a number of milliseconds.
  \<open>zn_time\<close> reads \<open>HH:MM\<close> as a minute of the day, \<open>zn_zone\<close> looks a zone up, the three predicates
  are the ranges of dates, local times and instants, \<open>zn_local\<close> tells which instants show a local
  time and \<open>zn_day\<close> the local day of an instant.
\<close>

datatype local_result = NoInstant | Single int | Ambiguous int int

record zones =
  zn_time :: "string \<Rightarrow> nat option"
  zn_zone :: "string \<Rightarrow> nat option"
  zn_date_ok :: "int \<Rightarrow> bool"
  zn_local_ok :: "int \<Rightarrow> bool"
  zn_instant_ok :: "int \<Rightarrow> bool"
  zn_local :: "nat \<Rightarrow> int \<Rightarrow> local_result"
  zn_day :: "nat \<Rightarrow> int \<Rightarrow> int"

definition MAX_LATENESS_MS :: u64 where
  "MAX_LATENESS_MS = 15 * 60 * 1000"

definition DAY_MS :: u64 where
  "DAY_MS = 24 * 60 * 60 * 1000"

definition YEAR_MS :: u64 where
  "YEAR_MS = 366 * DAY_MS"

definition parse_sweep_rule :: "zones \<Rightarrow> string \<Rightarrow> string \<Rightarrow> (nat \<times> nat) result" where
  "parse_sweep_rule zn local_time time_zone =
     (case zn_time zn local_time of
        None \<Rightarrow> Inl (bad_request ''Choose a valid time of day.'')
      | Some time \<Rightarrow>
          (case zn_zone zn time_zone of
             None \<Rightarrow> Inl (bad_request ''Choose a valid IANA time zone.'')
           | Some zone \<Rightarrow> Inr (time, zone)))"

fun first_instant :: "zones \<Rightarrow> nat \<Rightarrow> int list \<Rightarrow> int option" where
  "first_instant zn zone [] = None"
| "first_instant zn zone (candidate # r) =
     (if \<not> zn_local_ok zn candidate then None
      else case zn_local zn zone candidate of
             Single t \<Rightarrow> Some t
           | Ambiguous a b \<Rightarrow> Some (min a b)
           | NoInstant \<Rightarrow> first_instant zn zone r)"

definition occurrence_on :: "zones \<Rightarrow> int \<Rightarrow> nat \<Rightarrow> nat \<Rightarrow> int option" where
  "occurrence_on zn date time zone =
     first_instant zn zone (map (\<lambda>minute. date * 1440 + int time + minute) [0..180])"

definition timestamp_millis :: "int \<Rightarrow> u64 result" where
  "timestamp_millis t =
     (if 0 \<le> t then Inr (word_of_int t)
      else Inl (bad_request ''The nightly sync time is outside the supported range.''))"

definition utc_at :: "zones \<Rightarrow> u64 \<Rightarrow> int result" where
  "utc_at zn now =
     (if uint now < 2 ^ 63 \<and> zn_instant_ok zn (uint now) then Inr (uint now)
      else Inl (bad_request ''The current time is outside the supported range.''))"

definition checked_add_days :: "zones \<Rightarrow> int \<Rightarrow> int \<Rightarrow> int option" where
  "checked_add_days zn date n = (if zn_date_ok zn (date + n) then Some (date + n) else None)"

definition no_next :: api_error where
  "no_next = bad_request ''Could not calculate the next nightly sync.''"

text \<open>The first occurrence after now on one of the given days; a day outside the calendar is skipped.\<close>

fun next_on :: "zones \<Rightarrow> nat \<Rightarrow> nat \<Rightarrow> u64 \<Rightarrow> int option list \<Rightarrow> u64 result" where
  "next_on zn time zone now [] = Inl no_next"
| "next_on zn time zone now (d # r) =
     (case Option.bind d (\<lambda>date. occurrence_on zn date time zone) of
        None \<Rightarrow> next_on zn time zone now r
      | Some t \<Rightarrow>
          bind (timestamp_millis t) (\<lambda>instant.
            if now < instant then Inr instant else next_on zn time zone now r))"

definition next_occurrence :: "zones \<Rightarrow> string \<Rightarrow> string \<Rightarrow> u64 \<Rightarrow> u64 result" where
  "next_occurrence zn local_time time_zone now =
     bind (parse_sweep_rule zn local_time time_zone) (\<lambda>(time, zone).
       bind (utc_at zn now) (\<lambda>t.
         next_on zn time zone now (map (checked_add_days zn (zn_day zn zone t)) [0, 1, 2])))"

fun advance_on :: "zones \<Rightarrow> nat \<Rightarrow> nat \<Rightarrow> u64 \<Rightarrow> nat \<Rightarrow> int \<Rightarrow> u64 result" where
  "advance_on zn time zone now 0 date = Inl no_next"
| "advance_on zn time zone now (Suc n) date =
     (let further = (case checked_add_days zn date 1 of
                       None \<Rightarrow> Inl no_next | Some d \<Rightarrow> advance_on zn time zone now n d) in
      case occurrence_on zn date time zone of
        None \<Rightarrow> further
      | Some t \<Rightarrow>
          bind (timestamp_millis t) (\<lambda>instant. if now < instant then Inr instant else further))"

definition advance_occurrence :: "zones \<Rightarrow> string \<Rightarrow> string \<Rightarrow> u64 \<Rightarrow> u64 \<Rightarrow> u64 result" where
  "advance_occurrence zn local_time time_zone scheduled now =
     bind (parse_sweep_rule zn local_time time_zone) (\<lambda>(time, zone).
       bind (utc_at zn scheduled) (\<lambda>t.
         case checked_add_days zn (zn_day zn zone t) 1 of
           None \<Rightarrow> Inl no_next
         | Some first_new_date \<Rightarrow>
             bind (utc_at zn now) (\<lambda>u.
               advance_on zn time zone now 2 (max first_new_date (zn_day zn zone u)))))"

text \<open>A rule is only ever advanced, and to a later local day.\<close>

definition zones_ok :: "zones \<Rightarrow> bool" where
  "zones_ok zn \<longleftrightarrow>
     (\<forall>zone l.
        case zn_local zn zone l of
          NoInstant \<Rightarrow> True
        | Single t \<Rightarrow> zn_day zn zone t = l div 1440 \<and> t < 2 ^ 63
        | Ambiguous a b \<Rightarrow> zn_day zn zone a = l div 1440 \<and> zn_day zn zone b = l div 1440 \<and> a < 2 ^ 63 \<and> b < 2 ^ 63)"

lemma first_instantD:
  assumes "zones_ok zn" "first_instant zn zone ls = Some t"
  shows "\<exists>l \<in> set ls. zn_day zn zone t = l div 1440 \<and> t < 2 ^ 63"
  using assms(2)
proof (induction ls)
  case (Cons l ls)
  have "case zn_local zn zone l of
          NoInstant \<Rightarrow> True
        | Single t \<Rightarrow> zn_day zn zone t = l div 1440 \<and> t < 2 ^ 63
        | Ambiguous a b \<Rightarrow> zn_day zn zone a = l div 1440 \<and> zn_day zn zone b = l div 1440 \<and> a < 2 ^ 63 \<and> b < 2 ^ 63"
    using assms(1) unfolding zones_ok_def by blast
  then show ?case using Cons
    by (auto simp: min_def split: if_splits local_result.splits)
qed simp

lemma occurrence_onD:
  assumes "zones_ok zn" "occurrence_on zn date time zone = Some t"
  shows "date \<le> zn_day zn zone t" "t < 2 ^ 63"
proof -
  obtain minute where m: "zn_day zn zone t = (date * 1440 + int time + minute) div 1440" "t < 2 ^ 63" "0 \<le> minute"
    using first_instantD [OF assms(1) assms(2) [unfolded occurrence_on_def]] unfolding set_map
    by (elim bexE imageE conjE) (auto simp: add.assoc)
  have "date * 1440 div 1440 \<le> (date * 1440 + int time + minute) div 1440"
    using m(3) by (intro zdiv_mono1) simp_all
  then show "date \<le> zn_day zn zone t" "t < 2 ^ 63" using m by simp_all
qed

lemma timestamp_millisD: "timestamp_millis t = Inr w \<Longrightarrow> t < 2 ^ 63 \<Longrightarrow> uint w = t"
  by (auto simp: timestamp_millis_def uint_word_of_int split: if_splits)

lemma advance_onD:
  assumes "zones_ok zn" "advance_on zn time zone now n date = Inr w"
  shows "now < w \<and> date \<le> zn_day zn zone (uint w)"
  using assms(2)
proof (induction n arbitrary: date)
  case (Suc n)
  let ?further = "case checked_add_days zn date 1 of None \<Rightarrow> Inl no_next | Some d \<Rightarrow> advance_on zn time zone now n d"
  have further: "now < w \<and> date \<le> zn_day zn zone (uint w)" if "?further = Inr w"
  proof -
    have "advance_on zn time zone now n (date + 1) = Inr w"
      using that by (auto simp: checked_add_days_def split: if_splits)
    then show ?thesis using Suc.IH [of "date + 1"] by simp
  qed
  show ?case
  proof (cases "occurrence_on zn date time zone")
    case (Some t)
    note at = occurrence_onD [OF assms(1) Some]
    show ?thesis
      using Suc.prems Some further timestamp_millisD [OF _ at(2)] at(1)
      by (auto simp: bind_def Let_def split: sum.splits if_splits)
  qed (use Suc.prems further in \<open>simp add: Let_def\<close>)
qed simp

lemma advance_occurrenceD:
  assumes "zones_ok zn" "advance_occurrence zn local_time time_zone scheduled now = Inr w"
  shows "now < w"
    "\<exists>time zone. parse_sweep_rule zn local_time time_zone = Inr (time, zone)
       \<and> zn_day zn zone (uint scheduled) < zn_day zn zone (uint w)"
proof -
  have "\<exists>time zone. parse_sweep_rule zn local_time time_zone = Inr (time, zone) \<and> now < w
     \<and> zn_day zn zone (uint scheduled) + 1 \<le> zn_day zn zone (uint w)"
    using assms(2)
    by (auto simp: advance_occurrence_def bind_def utc_at_def checked_add_days_def
        split: sum.splits option.splits if_splits dest!: advance_onD [OF assms(1)])
  then show "now < w"
    "\<exists>time zone. parse_sweep_rule zn local_time time_zone = Inr (time, zone)
       \<and> zn_day zn zone (uint scheduled) < zn_day zn zone (uint w)" by auto
qed

lemma next_onD:
  assumes "zones_ok zn" "next_on zn time zone now ds = Inr w"
  shows "now < w \<and> (\<exists>date t. Some date \<in> set ds \<and> occurrence_on zn date time zone = Some t \<and> uint w = t)"
  using assms(2)
proof (induction ds)
  case (Cons d ds)
  show ?case
  proof (cases "Option.bind d (\<lambda>date. occurrence_on zn date time zone)")
    case (Some t)
    then obtain date where "d = Some date" "occurrence_on zn date time zone = Some t"
      by (auto simp: Option.bind_eq_Some_conv)
    then show ?thesis
      using Cons Some timestamp_millisD [OF _ occurrence_onD(2) [OF assms(1)]]
      by (auto simp: bind_def split: sum.splits if_splits)
  qed (use Cons in auto)
qed simp

section \<open>One-time entries\<close>

definition with_schedules :: "write_outcome \<Rightarrow> schedule_entry list \<Rightarrow> sync_state \<Rightarrow> sync_state \<times> unit result" where
  "with_schedules w es s =
     (if w = NotWritten then s else s\<lparr>ss_schedules := es\<rparr>, if w = Written then Inr () else Inl write_error)"

definition load_schedules :: "bool \<Rightarrow> sync_state \<Rightarrow> schedule_entry list result" where
  "load_schedules readable s = (if readable then Inr (ss_schedules s) else Inl write_error)"

definition busy_with :: "string \<Rightarrow> jobs \<Rightarrow> bool" where
  "busy_with book_id m \<longleftrightarrow>
     list_ex (\<lambda>j. is_sync_job j \<and> j_target_id j = Some book_id \<and> is_unfinished_job j) (values_of m)"

text \<open>What the library knows of a book here: an EPUB companion's extension, its tracks and its map.\<close>

record sweep_book =
  sb_id :: string
  sb_extension :: "string option"
  sb_tracks :: nat
  sb_source :: "string option"
  sb_outdated :: bool

definition alignable :: "sweep_book \<Rightarrow> bool" where
  "alignable b \<longleftrightarrow> sb_extension b = Some ''epub'' \<and> sb_tracks b \<noteq> 0"

definition new_entry :: "string \<Rightarrow> u64 \<Rightarrow> schedule_entry" where
  "new_entry book_id run_at =
     \<lparr>sx_book_id = book_id, sx_run_at = run_at, sx_status = ''scheduled'', sx_job_id = None, sx_error = None\<rparr>"

definition schedule ::
  "u64 \<Rightarrow> sweep_book result \<Rightarrow> bool \<Rightarrow> bool \<Rightarrow> write_outcome \<Rightarrow> string \<Rightarrow> u64 \<Rightarrow> sync_state
   \<Rightarrow> sync_state \<times> schedule_entry result" where
  "schedule now found runtime readable w book_id run_at s =
     (if run_at \<le> now \<or> sat_add now YEAR_MS < run_at
      then (s, Inl (bad_request ''Choose a future time within the next year.''))
      else case found of
        Inl e \<Rightarrow> (s, Inl e)
      | Inr b \<Rightarrow>
          if \<not> alignable b then (s, Inl (bad_request ''Sync needs audio tracks and an EPUB companion.''))
          else if \<not> runtime then (s, Inl (bad_request ''Enable Follow along before scheduling a sync.''))
          else if busy_with book_id (ss_jobs s)
          then (s, Inl (conflict ''This book is already queued, syncing, or paused.''))
          else (case load_schedules readable s of
            Inl e \<Rightarrow> (s, Inl e)
          | Inr es \<Rightarrow>
              (let entry = new_entry book_id run_at;
                   (s', r) = with_schedules w
                     (sort_key sx_run_at (filter (\<lambda>e. sx_book_id e \<noteq> book_id) es @ [entry])) s
               in (s', bind r (\<lambda>_. Inr entry)))))"

definition cancel ::
  "bool \<Rightarrow> write_outcome \<Rightarrow> string \<Rightarrow> sync_state \<Rightarrow> sync_state \<times> unit result" where
  "cancel readable w book_id s =
     (case load_schedules readable s of
        Inl e \<Rightarrow> (s, Inl e)
      | Inr es \<Rightarrow>
          if list_ex (\<lambda>e. sx_book_id e = book_id
               \<and> (sx_status e = ''submitted''
                  \<or> sx_status e = ''dispatching'' \<and> busy_with book_id (ss_jobs s))) es
          then (s, Inl (conflict ''This sync has already joined the queue and cannot be cancelled here.''))
          else with_schedules w (filter (\<lambda>e. sx_book_id e \<noteq> book_id) es) s)"

definition due_status :: "schedule_entry \<Rightarrow> u64 \<Rightarrow> string option" where
  "due_status e now =
     (if sx_status e \<noteq> ''scheduled'' \<or> now < sx_run_at e then None
      else Some (if MAX_LATENESS_MS < sat_sub now (sx_run_at e) then ''missed'' else ''dispatching''))"

definition record_submission :: "string result \<Rightarrow> schedule_entry \<Rightarrow> schedule_entry" where
  "record_submission r e =
     (case r of
        Inr job_id \<Rightarrow> e\<lparr>sx_status := ''submitted'', sx_job_id := Some job_id\<rparr>
      | Inl err \<Rightarrow> e\<lparr>sx_status := ''failed'', sx_error := Some (message err)\<rparr>)"

text \<open>
  What one entry's turn in a tick meets: whether the add-on is there, how its request to the queue
  goes, what became of the two writes, and what others do to the queue before the turn, before
  its request and between the two steps of the request.
\<close>

record turn =
  tu_runtime :: bool
  tu_enqueue :: enqueue_env
  tu_fresh :: string
  tu_clock :: u64
  tu_queue :: write_outcome
  tu_claim :: write_outcome
  tu_save :: write_outcome
  tu_arrive :: "sync_state \<Rightarrow> sync_state"
  tu_before :: "sync_state \<Rightarrow> sync_state"
  tu_between :: "sync_state \<Rightarrow> sync_state"

definition enqueue_sync_map :: "turn \<Rightarrow> string \<Rightarrow> sync_state \<Rightarrow> sync_state \<times> string result" where
  "enqueue_sync_map tu book_id s =
     (case enqueue_start (tu_enqueue tu) (tu_fresh tu) (tu_clock tu) book_id None (tu_before tu s) of
        (s1, Inl e) \<Rightarrow> (s1, Inl e)
      | (s1, Inr _) \<Rightarrow>
          (let q = last (ss_inflight s1); s2 = tu_between tu s1
           in enqueue_commit (tu_queue tu) q (s2\<lparr>ss_inflight := remove1 q (ss_inflight s2)\<rparr>)))"

text \<open>The job a handoff that was cut short has left.\<close>

definition started_job :: "schedule_entry \<Rightarrow> jobs \<Rightarrow> string option" where
  "started_job e m =
     map_option j_id (max_by_key job_started_timestamp
       (filter (\<lambda>j. is_sync_job j \<and> j_target_id j = Some (sx_book_id e) \<and> sx_run_at e \<le> job_started_timestamp j)
         (values_of m)))"

definition result_lost :: "schedule_entry \<Rightarrow> schedule_entry" where
  "result_lost e =
     e\<lparr>sx_status := ''failed'',
       sx_error := Some (''The saved job result is no longer available. Check the book'' @ [CHR 0xE2, CHR 0x80, CHR 0x99]
         @ ''s sync status before retrying.'')\<rparr>"

definition submitted_turn :: "turn \<Rightarrow> nat \<Rightarrow> schedule_entry list \<Rightarrow> sync_state
    \<Rightarrow> sync_state \<times> schedule_entry list \<times> unit result" where
  "submitted_turn tu k es s =
     (case Option.bind (sx_job_id (es ! k)) (tget (ss_jobs s)) of
        Some j \<Rightarrow>
          (let (e, changed) = record_finished_result (es ! k) j; es' = es[k := e]
           in if changed then (let (s', r) = with_schedules (tu_save tu) es' s in (s', es', r))
              else (s, es, Inr ()))
      | None \<Rightarrow>
          (let es' = es[k := result_lost (es ! k)]; (s', r) = with_schedules (tu_save tu) es' s
           in (s', es', r)))"

definition submission_turn :: "turn \<Rightarrow> nat \<Rightarrow> schedule_entry list \<Rightarrow> sync_state \<times> string result
    \<Rightarrow> sync_state \<times> schedule_entry list \<times> unit result" where
  "submission_turn tu k es p =
     (let es' = es[k := record_submission (snd p) (es ! k)];
          (s', r) = with_schedules (tu_save tu) es' (fst p)
      in (s', es', r))"

definition replayed_turn :: "bool \<Rightarrow> turn \<Rightarrow> nat \<Rightarrow> schedule_entry list \<Rightarrow> sync_state
    \<Rightarrow> sync_state \<times> schedule_entry list \<times> unit result" where
  "replayed_turn ready tu k es s =
     (if \<not> ready \<or> \<not> tu_runtime tu then (s, es, Inr ())
      else submission_turn tu k es
        (case started_job (es ! k) (ss_jobs s) of
           Some job_id \<Rightarrow> (s, Inr job_id)
         | None \<Rightarrow> enqueue_sync_map tu (sx_book_id (es ! k)) s))"

definition due_turn :: "u64 \<Rightarrow> bool \<Rightarrow> turn \<Rightarrow> nat \<Rightarrow> schedule_entry list \<Rightarrow> sync_state
    \<Rightarrow> sync_state \<times> schedule_entry list \<times> unit result" where
  "due_turn now ready tu k es s =
     (case due_status (es ! k) now of
        None \<Rightarrow> (s, es, Inr ())
      | Some st \<Rightarrow>
          if st = ''dispatching'' \<and> \<not> ready then (s, es, Inr ())
          else if st = ''missed''
          then
            (let es' = es[k := (es ! k)\<lparr>sx_status := st,
                   sx_error := Some ''The server missed this start time by more than 15 minutes. Schedule it again.''\<rparr>];
                 (s', r) = with_schedules (tu_claim tu) es' s
             in (s', es', r))
          else
            (let es1 = es[k := (es ! k)\<lparr>sx_status := st\<rparr>];
                 (s1, r1) = with_schedules (tu_claim tu) es1 s
             in case r1 of
                  Inl e \<Rightarrow> (s1, es1, Inl e)
                | Inr _ \<Rightarrow> submission_turn tu k es1 (enqueue_sync_map tu (sx_book_id (es1 ! k)) s1)))"

definition entry_turn :: "u64 \<Rightarrow> bool \<Rightarrow> turn \<Rightarrow> nat \<Rightarrow> schedule_entry list \<Rightarrow> sync_state
    \<Rightarrow> sync_state \<times> schedule_entry list \<times> unit result" where
  "entry_turn now ready tu k es s =
     (if sx_status (es ! k) = ''submitted'' then submitted_turn tu k es s
      else if sx_status (es ! k) = ''dispatching'' then replayed_turn ready tu k es s
      else due_turn now ready tu k es s)"

text \<open>The entries in turn; the first failed write ends the tick.\<close>

fun entry_turns :: "u64 \<Rightarrow> bool \<Rightarrow> (nat \<times> turn) list \<Rightarrow> schedule_entry list \<Rightarrow> sync_state
    \<Rightarrow> sync_state \<times> unit result" where
  "entry_turns now ready [] es s = (s, Inr ())"
| "entry_turns now ready ((k, tu) # r) es s =
     (case entry_turn now ready tu k es (tu_arrive tu s) of
        (s', es', Inl e) \<Rightarrow> (s', Inl e)
      | (s', es', Inr _) \<Rightarrow> entry_turns now ready r es' s')"

section \<open>The nightly sweep\<close>

record sync_sweep =
  sp_enabled :: bool
  sp_books_per_night :: nat
  sp_local_time :: string
  sp_time_zone :: string
  sp_next_run_at :: u64
  sp_last_run_at :: "u64 option"
  sp_last_queued :: "nat option"
  sp_last_error :: "string option"

record sweep_run =
  sr_queued :: nat
  sr_skipped :: nat
  sr_error :: "string option"

definition default_books_per_night :: nat where
  "default_books_per_night = 2"

text \<open>The rule file: absent until a rule was saved.\<close>

definition load_sweep :: "bool \<Rightarrow> sync_sweep option \<Rightarrow> sync_sweep result" where
  "load_sweep readable stored =
     (if \<not> readable then Inl write_error
      else Inr (case stored of
        Some r \<Rightarrow> r
      | None \<Rightarrow> \<lparr>sp_enabled = False, sp_books_per_night = default_books_per_night, sp_local_time = [],
          sp_time_zone = [], sp_next_run_at = 0, sp_last_run_at = None, sp_last_queued = None,
          sp_last_error = None\<rparr>))"

definition save_sweep :: "write_outcome \<Rightarrow> sync_sweep \<Rightarrow> sync_sweep option \<Rightarrow> sync_sweep option \<times> unit result" where
  "save_sweep w r stored =
     (if w = NotWritten then stored else Some r, if w = Written then Inr () else Inl write_error)"

definition sweep_targets :: "sweep_book list \<Rightarrow> string list \<times> nat" where
  "sweep_targets books =
     (let eligible = filter alignable books
      in (map sb_id (filter (\<lambda>b. case sb_source b of
              None \<Rightarrow> True
            | Some src \<Rightarrow> sb_outdated b \<or> src \<notin> {''generated'', ''sidecar''}) eligible),
          length eligible))"

definition last_attempt :: "jobs \<Rightarrow> string \<Rightarrow> u64" where
  "last_attempt m book_id =
     foldl max 0 (map job_started_timestamp (filter (\<lambda>j. is_sync_job j \<and> j_target_id j = Some book_id) (values_of m)))"

fun pick_books :: "(string \<Rightarrow> bool) \<Rightarrow> nat \<Rightarrow> string list \<Rightarrow> string list \<times> nat" where
  "pick_books taken limit [] = ([], 0)"
| "pick_books taken limit (b # r) =
     (if limit = 0 then ([], 0)
      else if taken b then (let (chosen, skipped) = pick_books taken limit r in (chosen, skipped + 1))
      else (let (chosen, skipped) = pick_books taken (limit - 1) r in (b # chosen, skipped)))"

text \<open>What a sweep meets: the library, the schedule file, the queue, and others before it queues.\<close>

record sweep_env =
  se_books :: "sweep_book list"
  se_readable :: bool
  se_enqueue :: enqueue_env
  se_clock :: u64
  se_queue :: write_outcome
  se_fresh :: "string \<Rightarrow> string"
  se_others :: "sync_state \<Rightarrow> sync_state"

definition run_sweep :: "sweep_env \<Rightarrow> nat option \<Rightarrow> sync_state \<Rightarrow> sync_state \<times> sweep_run" where
  "run_sweep env limit s =
     (let m = ss_jobs s;
          targets = sort_key (\<lambda>b. (last_attempt m b, b)) (fst (sweep_targets (se_books env)))
      in case load_schedules (se_readable env) s of
           Inl e \<Rightarrow> (s, \<lparr>sr_queued = 0, sr_skipped = 0, sr_error = Some (message e)\<rparr>)
         | Inr es \<Rightarrow>
             (let scheduled = map sx_book_id
                    (filter (\<lambda>e. sx_status e \<in> {''scheduled'', ''dispatching'', ''submitted''}) es);
                  (chosen, skipped) = pick_books (\<lambda>b. b \<in> set scheduled \<or> busy_with b m)
                    (case limit of None \<Rightarrow> length targets | Some n \<Rightarrow> n) targets;
                  (s', r) = enqueue_sync_batch (se_enqueue env) (se_clock env) (se_queue env)
                    (map (\<lambda>b. (b, se_fresh env b)) chosen) (se_others env s)
              in (s', case r of
                    Inr (created, raced) \<Rightarrow>
                      \<lparr>sr_queued = length created, sr_skipped = skipped + raced, sr_error = None\<rparr>
                  | Inl e \<Rightarrow> \<lparr>sr_queued = 0, sr_skipped = skipped, sr_error = Some (message e)\<rparr>)))"

definition sweep_now :: "u64 \<Rightarrow> sweep_run \<Rightarrow> sync_sweep \<Rightarrow> sync_sweep" where
  "sweep_now now run r =
     r\<lparr>sp_last_run_at := Some now, sp_last_queued := Some (sr_queued run), sp_last_error := sr_error run\<rparr>"

definition run_sweep_now ::
  "bool \<Rightarrow> bool \<Rightarrow> sweep_env \<Rightarrow> u64 \<Rightarrow> bool \<Rightarrow> write_outcome \<Rightarrow> sync_sweep option \<Rightarrow> sync_state
   \<Rightarrow> sync_sweep option \<times> sync_state \<times> sweep_run result" where
  "run_sweep_now runtime ready env now readable w stored s =
     (if \<not> runtime then (stored, s, Inl (bad_request ''Enable Follow along before running a sync.''))
      else if \<not> ready then (stored, s, Inl (service_unavailable ''The library is still being scanned.''))
      else
        (let (s', run) = run_sweep env None s
         in case load_sweep readable stored of
              Inl e \<Rightarrow> (stored, s', Inl e)
            | Inr r \<Rightarrow>
                (let (stored', r') = save_sweep w (sweep_now now run r) stored
                 in (stored', s', bind r' (\<lambda>_. Inr run)))))"

definition set_sweep ::
  "zones \<Rightarrow> u64 \<Rightarrow> bool \<Rightarrow> write_outcome \<Rightarrow> bool \<Rightarrow> nat \<Rightarrow> string \<Rightarrow> string \<Rightarrow> sync_sweep option
   \<Rightarrow> sync_sweep option \<times> unit result" where
  "set_sweep zn now readable w enabled books_per_night local_time time_zone stored =
     (if \<not> (1 \<le> books_per_night \<and> books_per_night \<le> 100)
      then (stored, Inl (bad_request ''Choose between 1 and 100 books per night.''))
      else case (if enabled then map_sum id Some (next_occurrence zn local_time time_zone now) else Inr None) of
        Inl e \<Rightarrow> (stored, Inl e)
      | Inr next_run_at \<Rightarrow>
          (case load_sweep readable stored of
             Inl e \<Rightarrow> (stored, Inl e)
           | Inr r \<Rightarrow>
               (let r1 = r\<lparr>sp_enabled := enabled, sp_books_per_night := books_per_night\<rparr>
                in case next_run_at of
                     None \<Rightarrow> save_sweep w r1 stored
                   | Some next_at \<Rightarrow>
                       if sat_add now YEAR_MS < next_at
                       then (stored, Inl (bad_request ''Choose a nightly sync time within the next year.''))
                       else save_sweep w
                         (r1\<lparr>sp_local_time := local_time, sp_time_zone := time_zone, sp_next_run_at := next_at,
                            sp_last_error := None\<rparr>) stored)))"

text \<open>What the tick makes of the rule: nothing yet, a missed night, or a night to sweep.\<close>

datatype night = NotDue | MissedNight sync_sweep | SweepNight sync_sweep

definition sweep_night :: "zones \<Rightarrow> u64 \<Rightarrow> bool \<Rightarrow> sync_sweep \<Rightarrow> night result" where
  "sweep_night zn now ready r =
     (if \<not> sp_enabled r \<or> now < sp_next_run_at r \<or> \<not> ready then Inr NotDue
      else bind (advance_occurrence zn (sp_local_time r) (sp_time_zone r) (sp_next_run_at r) now) (\<lambda>next_at.
        Inr (if MAX_LATENESS_MS < now - sp_next_run_at r
             then MissedNight (r\<lparr>sp_next_run_at := next_at,
               sp_last_error := Some ''The server missed a nightly sweep by more than 15 minutes. The next one is scheduled.''\<rparr>)
             else SweepNight (r\<lparr>sp_next_run_at := next_at, sp_last_run_at := Some now, sp_last_queued := None,
               sp_last_error := None\<rparr>))))"

text \<open>The night is claimed on disk before any book is queued.\<close>

definition tick_sweep ::
  "zones \<Rightarrow> u64 \<Rightarrow> bool \<Rightarrow> bool \<Rightarrow> sweep_env \<Rightarrow> write_outcome \<Rightarrow> write_outcome \<Rightarrow> sync_sweep option \<Rightarrow> sync_state
   \<Rightarrow> sync_sweep option \<times> sync_state \<times> unit result" where
  "tick_sweep zn now ready readable env w1 w2 stored s =
     (case bind (load_sweep readable stored) (sweep_night zn now ready) of
        Inl e \<Rightarrow> (stored, s, Inl e)
      | Inr NotDue \<Rightarrow> (stored, s, Inr ())
      | Inr (MissedNight r) \<Rightarrow> (let (stored', r') = save_sweep w1 r stored in (stored', s, r'))
      | Inr (SweepNight r) \<Rightarrow>
          (let (stored1, r1) = save_sweep w1 r stored
           in case r1 of
                Inl e \<Rightarrow> (stored1, s, Inl e)
              | Inr _ \<Rightarrow>
                  (let (s', run) = run_sweep env (Some (sp_books_per_night r)) s;
                       (stored2, r2) = save_sweep w2
                         (r\<lparr>sp_last_queued := Some (sr_queued run), sp_last_error := sr_error run\<rparr>) stored1
                   in (stored2, s', r2))))"

text \<open>A whole tick under the schedule lock; it begins with the jobs that wait to be resumed.\<close>

definition resume_queue ::
  "bool \<Rightarrow> bool \<Rightarrow> (enqueue_env \<times> write_outcome \<times> finish_env \<times> u64) list \<Rightarrow> sync_state \<Rightarrow> sync_state" where
  "resume_queue ready runtime envs s =
     fold (\<lambda>((env, w, fenv, now), j). resume_job env w fenv now j)
       (zip envs (resume_candidates ready runtime s)) s"

record tick_env =
  te_now :: u64
  te_ready :: bool
  te_readable :: bool
  te_turns :: "nat \<Rightarrow> turn"
  te_sweep_now :: u64
  te_sweep_ready :: bool
  te_sweep_readable :: bool
  te_sweep :: sweep_env
  te_claim :: write_outcome
  te_outcome :: write_outcome

definition schedule_tick :: "zones \<Rightarrow> tick_env \<Rightarrow> sync_sweep option \<Rightarrow> sync_state
    \<Rightarrow> sync_sweep option \<times> sync_state \<times> unit result" where
  "schedule_tick zn te stored s =
     (case load_schedules (te_readable te) s of
        Inl e \<Rightarrow> (stored, s, Inl e)
      | Inr es \<Rightarrow>
          (case entry_turns (te_now te) (te_ready te) (map (\<lambda>k. (k, te_turns te k)) [0..<length es]) es s of
             (s', Inl e) \<Rightarrow> (stored, s', Inl e)
           | (s', Inr _) \<Rightarrow>
               tick_sweep zn (te_sweep_now te) (te_sweep_ready te) (te_sweep_readable te) (te_sweep te)
                 (te_claim te) (te_outcome te) stored s'))"

section \<open>Once per night\<close>

text \<open>
  The history of the stored rule: ticks, with any outcome of their writes and any restart after
  them, and the manual run. A started sweep is logged with the night it belongs to and its time.
\<close>

definition sweeps :: "zones \<Rightarrow> u64 \<Rightarrow> bool \<Rightarrow> bool \<Rightarrow> write_outcome \<Rightarrow> sync_sweep option \<Rightarrow> u64 option" where
  "sweeps zn now ready readable w1 stored =
     (case load_sweep readable stored of
        Inl _ \<Rightarrow> None
      | Inr r \<Rightarrow>
          (case sweep_night zn now ready r of
             Inr (SweepNight _) \<Rightarrow> if w1 = Written then Some (sp_next_run_at r) else None
           | _ \<Rightarrow> None))"

text \<open>A tick that does not start a sweep queues nothing on its behalf.\<close>

lemma no_sweep_queues_nothing:
  "sweeps zn now ready readable w1 stored = None
   \<Longrightarrow> fst (snd (tick_sweep zn now ready readable env w1 w2 stored s)) = s"
  by (auto simp: sweeps_def tick_sweep_def save_sweep_def bind_def split: sum.splits night.splits if_splits)

inductive nightly :: "zones \<Rightarrow> sync_sweep option \<times> (u64 \<times> u64) list \<Rightarrow> sync_sweep option \<times> (u64 \<times> u64) list \<Rightarrow> bool"
  for zn :: zones where
  tick: "tick_sweep zn now ready readable env w1 w2 stored s = (stored', s', r) \<Longrightarrow>
    nightly zn (stored, runs) (stored',
      case sweeps zn now ready readable w1 stored of None \<Rightarrow> runs | Some slot \<Rightarrow> runs @ [(slot, now)])"
| manual: "run_sweep_now runtime ready env now readable w stored s = (stored', s', r) \<Longrightarrow>
    nightly zn (stored, runs) (stored', runs)"

definition night_of :: "zones \<Rightarrow> nat \<Rightarrow> u64 \<Rightarrow> int" where
  "night_of zn zone slot = zn_day zn zone (uint slot)"

lemma load_sweep_Some [simp]:
  "load_sweep readable (Some r) = (if readable then Inr r else Inl write_error)"
  by (simp add: load_sweep_def)

text \<open>What one tick does to a stored rule.\<close>

lemma tick_sweep_rule:
  assumes ok: "zones_ok zn" and zone: "zn_zone zn (sp_time_zone r) = Some zone"
    and step: "tick_sweep zn now ready readable env w1 w2 (Some r) s = (stored', s', res)"
  obtains r' where "stored' = Some r'" "sp_time_zone r' = sp_time_zone r"
    "sp_next_run_at r' = sp_next_run_at r \<or> night_of zn zone (sp_next_run_at r) < night_of zn zone (sp_next_run_at r')"
    "\<And>slot. sweeps zn now ready readable w1 (Some r) = Some slot \<Longrightarrow>
       slot = sp_next_run_at r \<and> slot \<le> now \<and> now - slot \<le> MAX_LATENESS_MS
       \<and> night_of zn zone slot < night_of zn zone (sp_next_run_at r')"
proof (cases "bind (load_sweep readable (Some r)) (sweep_night zn now ready)")
  case (Inl e)
  have "sweeps zn now ready readable w1 (Some r) = None"
    using Inl by (auto simp: sweeps_def bind_def split: sum.splits)
  then show thesis using Inl step by (intro that [of r]) (simp_all add: tick_sweep_def)
next
  case (Inr n)
  then have n: "readable" "sweep_night zn now ready r = Inr n"
    by (auto split: if_splits)
  have advanced: "night_of zn zone (sp_next_run_at r) < night_of zn zone at'"
    if "advance_occurrence zn (sp_local_time r) (sp_time_zone r) (sp_next_run_at r) now = Inr at'" for at'
    using advance_occurrenceD(2) [OF ok that] zone
    by (auto simp: parse_sweep_rule_def night_of_def split: option.splits)
  show thesis
  proof (cases n)
    case NotDue
    then have "sweeps zn now ready readable w1 (Some r) = None" using n by (simp add: sweeps_def)
    moreover have "stored' = Some r" using NotDue n step by (simp add: tick_sweep_def)
    ultimately show thesis by (intro that [of r]) simp_all
  next
    case (MissedNight r1)
    then have "sp_time_zone r1 = sp_time_zone r" "night_of zn zone (sp_next_run_at r) < night_of zn zone (sp_next_run_at r1)"
      using n advanced by (auto simp: sweep_night_def bind_def split: if_splits sum.splits)
    then show thesis using MissedNight n step
      by (intro that [of "if w1 = NotWritten then r else r1"])
        (auto simp: tick_sweep_def sweeps_def save_sweep_def)
  next
    case (SweepNight r1)
    then have "sp_time_zone r1 = sp_time_zone r" "night_of zn zone (sp_next_run_at r) < night_of zn zone (sp_next_run_at r1)"
      "sp_next_run_at r \<le> now" "now - sp_next_run_at r \<le> MAX_LATENESS_MS"
      using n advanced by (auto simp: sweep_night_def bind_def not_less split: if_splits sum.splits)
    moreover have "\<exists>r'. stored' = Some r' \<and> (if w1 = NotWritten then r' = r
        else sp_time_zone r' = sp_time_zone r1 \<and> sp_next_run_at r' = sp_next_run_at r1)"
      using SweepNight n step by (cases "run_sweep env (Some (sp_books_per_night r1)) s"; cases w1; cases w2)
        (auto simp: tick_sweep_def save_sweep_def)
    moreover have "sweeps zn now ready readable w1 (Some r) = (if w1 = Written then Some (sp_next_run_at r) else None)"
      using SweepNight n by (simp add: sweeps_def)
    ultimately show thesis using that by (force split: if_splits)
  qed
qed

lemma manual_sweep_rule:
  assumes "run_sweep_now runtime ready env now readable w (Some r) s = (stored', s', res)"
  shows "\<exists>r'. stored' = Some r' \<and> sp_time_zone r' = sp_time_zone r \<and> sp_next_run_at r' = sp_next_run_at r"
  using assms
  by (cases "run_sweep env None s")
    (auto simp: run_sweep_now_def save_sweep_def sweep_now_def Let_def split: if_splits prod.splits)

text \<open>
  The nights of the log are in order, every one before the night the rule waits for, and each
  sweep started within the allowed lateness.
\<close>

definition nights_ok :: "zones \<Rightarrow> nat \<Rightarrow> sync_sweep option \<Rightarrow> (u64 \<times> u64) list \<Rightarrow> bool" where
  "nights_ok zn zone stored runs \<longleftrightarrow>
     (\<exists>r. stored = Some r \<and> zn_zone zn (sp_time_zone r) = Some zone
        \<and> sorted_wrt (\<lambda>a b. night_of zn zone (fst a) < night_of zn zone (fst b)) runs
        \<and> (\<forall>(slot, t) \<in> set runs. night_of zn zone slot < night_of zn zone (sp_next_run_at r)
             \<and> slot \<le> t \<and> t - slot \<le> MAX_LATENESS_MS))"

lemma nightly_step_ok:
  assumes "zones_ok zn" "nightly zn p p'" "nights_ok zn zone (fst p) (snd p)"
  shows "nights_ok zn zone (fst p') (snd p')"
  using assms(2)
proof cases
  case (tick now ready readable env w1 w2 stored s stored' s' res runs)
  obtain r where r: "stored = Some r" "zn_zone zn (sp_time_zone r) = Some zone"
    "sorted_wrt (\<lambda>a b. night_of zn zone (fst a) < night_of zn zone (fst b)) runs"
    "\<forall>(slot, t) \<in> set runs. night_of zn zone slot < night_of zn zone (sp_next_run_at r)
       \<and> slot \<le> t \<and> t - slot \<le> MAX_LATENESS_MS"
    using assms(3) tick by (auto simp: nights_ok_def)
  show ?thesis
  proof (rule tick_sweep_rule [OF assms(1) r(2) tick(3) [unfolded r(1)]])
    fix r'
    assume r': "stored' = Some r'" "sp_time_zone r' = sp_time_zone r"
      "sp_next_run_at r' = sp_next_run_at r \<or> night_of zn zone (sp_next_run_at r) < night_of zn zone (sp_next_run_at r')"
      "\<And>slot. sweeps zn now ready readable w1 (Some r) = Some slot \<Longrightarrow>
         slot = sp_next_run_at r \<and> slot \<le> now \<and> now - slot \<le> MAX_LATENESS_MS
         \<and> night_of zn zone slot < night_of zn zone (sp_next_run_at r')"
    have later: "\<forall>(slot, t) \<in> set runs. night_of zn zone slot < night_of zn zone (sp_next_run_at r')
        \<and> slot \<le> t \<and> t - slot \<le> MAX_LATENESS_MS"
      using r(4) r'(3) by fastforce
    show ?thesis
    proof (cases "sweeps zn now ready readable w1 (Some r)")
      case None
      then show ?thesis using tick(1,2) r r' later by (simp add: nights_ok_def)
    next
      case (Some slot)
      then show ?thesis
        using tick(1,2) r r'(1,2) r'(4) [OF Some] later by (auto simp: nights_ok_def sorted_wrt_append)
    qed
  qed
next
  case (manual runtime ready env now readable w stored s stored' s' res runs)
  then show ?thesis using assms(3) manual_sweep_rule by (fastforce simp: nights_ok_def)
qed

text \<open>C17: The nightly sweep runs at most once a night. Over any history of ticks, failed writes, restarts and
  manual runs of one rule, the sweeps that start belong to strictly later and later local days
  and each starts within fifteen minutes after its hour.\<close>

theorem sweep_once_per_night:
  assumes "zones_ok zn" "zn_zone zn (sp_time_zone r) = Some zone"
    and "(nightly zn)\<^sup>*\<^sup>* (Some r, []) (stored, runs)"
  shows "sorted_wrt (\<lambda>(slot, _) (slot', _). zn_day zn zone (uint slot) < zn_day zn zone (uint slot')) runs
    \<and> list_all (\<lambda>(slot, start). unat slot \<le> unat start \<and> unat start \<le> unat slot + 15 * 60 * 1000) runs"
proof -
  have "nights_ok zn zone (fst p) (snd p)" if "(nightly zn)\<^sup>*\<^sup>* (Some r, []) p" for p
    using that
    by (induction rule: rtranclp_induct)
      (use assms(1,2) nightly_step_ok in \<open>auto simp: nights_ok_def\<close>)
  then have "nights_ok zn zone stored runs" using assms(3) by force
  then obtain r' :: sync_sweep where nights:
    "sorted_wrt (\<lambda>a b. night_of zn zone (fst a) < night_of zn zone (fst b)) runs"
    "\<forall>(slot, t) \<in> set runs. night_of zn zone slot < night_of zn zone (sp_next_run_at r')
       \<and> slot \<le> t \<and> t - slot \<le> MAX_LATENESS_MS"
    unfolding nights_ok_def by blast
  have "unat slot \<le> unat start \<and> unat start \<le> unat slot + 15 * 60 * 1000"
    if "(slot, start) \<in> set runs" for slot start
  proof -
    have "slot \<le> start" "start - slot \<le> MAX_LATENESS_MS" using nights(2) that by blast+
    then show ?thesis by (simp add: MAX_LATENESS_MS_def word_le_nat_alt unat_sub)
  qed
  then have "list_all (\<lambda>(slot, start). unat slot \<le> unat start \<and> unat start \<le> unat slot + 15 * 60 * 1000) runs"
    unfolding list_all_iff by blast
  with nights(1) show ?thesis by (simp add: night_of_def case_prod_beta')
qed

section \<open>The life of an entry\<close>

text \<open>Others never touch the schedule file while a tick holds its lock.\<close>

definition keeps_schedules :: "turn \<Rightarrow> bool" where
  "keeps_schedules tu \<longleftrightarrow>
     (\<forall>s. ss_schedules (tu_arrive tu s) = ss_schedules s \<and> ss_schedules (tu_before tu s) = ss_schedules s
        \<and> ss_schedules (tu_between tu s) = ss_schedules s)"

definition in_time :: "schedule_entry \<Rightarrow> u64 \<Rightarrow> bool" where
  "in_time e now \<longleftrightarrow> unat (sx_run_at e) \<le> unat now \<and> unat now \<le> unat (sx_run_at e) + 15 * 60 * 1000"

definition lives_on :: "u64 \<Rightarrow> bool \<Rightarrow> schedule_entry \<Rightarrow> schedule_entry \<Rightarrow> bool" where
  "lives_on now ready e e' \<longleftrightarrow>
     sx_book_id e' = sx_book_id e \<and> sx_run_at e' = sx_run_at e
     \<and> (sx_status e' = sx_status e
        \<or> sx_status e = ''scheduled'' \<and> sx_status e' = ''missed'' \<and> unat (sx_run_at e) + 15 * 60 * 1000 < unat now
        \<or> sx_status e = ''scheduled'' \<and> in_time e now \<and> ready
            \<and> sx_status e' \<in> {''dispatching'', ''submitted'', ''failed''}
        \<or> sx_status e = ''dispatching'' \<and> ready \<and> sx_status e' \<in> {''submitted'', ''failed''}
        \<or> sx_status e = ''submitted'' \<and> sx_status e' \<in> {''completed'', ''failed'', ''cancelled''})"

lemma due_status_cases:
  assumes "due_status e now = Some st"
  shows "sx_status e = ''scheduled''"
    "st = ''missed'' \<and> unat (sx_run_at e) + 15 * 60 * 1000 < unat now \<or> st = ''dispatching'' \<and> in_time e now"
proof -
  have b: "sx_run_at e \<le> now" and s: "sx_status e = ''scheduled''"
    and st: "st = (if MAX_LATENESS_MS < now - sx_run_at e then ''missed'' else ''dispatching'')"
    using assms by (auto simp: due_status_def sat_sub_def not_less split: if_splits)
  have le: "unat (sx_run_at e) \<le> unat now" using b by (simp add: word_le_nat_alt)
  have "MAX_LATENESS_MS < now - sx_run_at e \<longleftrightarrow> 15 * 60 * 1000 < unat now - unat (sx_run_at e)"
    using b by (simp add: MAX_LATENESS_MS_def word_less_nat_alt unat_sub)
  also have "\<dots> \<longleftrightarrow> unat (sx_run_at e) + 15 * 60 * 1000 < unat now" using le by linarith
  finally show "st = ''missed'' \<and> unat (sx_run_at e) + 15 * 60 * 1000 < unat now \<or> st = ''dispatching'' \<and> in_time e now"
    using st le by (simp add: in_time_def)
  show "sx_status e = ''scheduled''" using s .
qed

lemma enqueue_sync_map_schedules:
  assumes "keeps_schedules tu"
  shows "ss_schedules (fst (enqueue_sync_map tu book_id s)) = ss_schedules s"
proof -
  have start: "ss_schedules (fst (enqueue_start env fresh now book_id c s)) = ss_schedules s" for env fresh now c s
    by (auto simp: enqueue_start_def Let_def split: sum.splits prod.splits)
  have commit: "ss_schedules (fst (enqueue_commit w q s)) = ss_schedules s" for w q s
    by (auto simp: enqueue_commit_def Let_def split: sum.splits prod.splits)
  obtain s1 r where r: "enqueue_start (tu_enqueue tu) (tu_fresh tu) (tu_clock tu) book_id None (tu_before tu s) = (s1, r)"
    by fastforce
  then have "ss_schedules s1 = ss_schedules s"
    using start [of "tu_enqueue tu" "tu_fresh tu" "tu_clock tu" None "tu_before tu s"] assms
    by (simp add: keeps_schedules_def)
  then show ?thesis
    using r commit assms by (cases r) (simp_all add: enqueue_sync_map_def Let_def keeps_schedules_def)
qed

lemma with_schedules_facts:
  assumes "with_schedules w es s = (s', r)"
  shows "ss_schedules s' = (if w = NotWritten then ss_schedules s else es)" "ss_jobs s' = ss_jobs s"
    "isl r \<longleftrightarrow> w \<noteq> Written"
  using assms by (auto simp: with_schedules_def)

lemma lives_on_refl [simp]: "lives_on now ready e e"
  by (simp add: lives_on_def)

text \<open>The entries after a turn, and the file: both hold the old entry or one it lives on as.\<close>

definition turned :: "u64 \<Rightarrow> bool \<Rightarrow> nat \<Rightarrow> schedule_entry list \<Rightarrow> sync_state \<times> schedule_entry list \<times> unit result \<Rightarrow> bool" where
  "turned now ready k es p \<longleftrightarrow>
     (\<exists>e'. lives_on now ready (es ! k) e' \<and> ss_schedules (fst p) = es[k := e']
        \<and> (\<not> isl (snd (snd p)) \<longrightarrow> fst (snd p) = es[k := e']))"

lemma turned_same: "ss_schedules s = es \<Longrightarrow> turned now ready k es (s, es, r)"
  unfolding turned_def by (rule exI [of _ "es ! k"]) simp

lemma turned_saved:
  assumes "ss_schedules s = es[k := e0]" "lives_on now ready (es ! k) e0" "lives_on now ready (es ! k) e'"
    and "with_schedules w (es[k := e']) s = (s', r)"
  shows "turned now ready k es (s', es[k := e'], r)"
proof -
  note w = with_schedules_facts [OF assms(4)]
  show ?thesis
  proof (cases "w = NotWritten")
    case True
    then show ?thesis using w assms(1,2) unfolding turned_def by (intro exI [of _ e0]) simp
  next
    case False
    then show ?thesis using w assms(3) unfolding turned_def by (intro exI [of _ e']) simp
  qed
qed

lemma submission_turned:
  assumes "ss_schedules (fst p) = es" "k < length es" "es = es0[k := e0]" "k < length es0"
    and "lives_on now ready (es0 ! k) e0"
    and "\<And>st. st \<in> {''submitted'', ''failed''} \<Longrightarrow> lives_on now ready (es0 ! k) (e0\<lparr>sx_status := st\<rparr>)"
  shows "turned now ready k es0 (submission_turn tu k es p)"
proof -
  let ?e = "record_submission (snd p) (es ! k)"
  obtain s' r where r: "with_schedules (tu_save tu) (es[k := ?e]) (fst p) = (s', r)" by fastforce
  have "lives_on now ready (es0 ! k) ?e"
    using assms(3,4,6) by (cases "snd p") (auto simp: record_submission_def lives_on_def)
  moreover have "es[k := ?e] = es0[k := ?e]" using assms(3) by simp
  ultimately have "turned now ready k es0 (s', es0[k := ?e], r)"
    using turned_saved [of "fst p" es0 k e0 now ready ?e] assms(1,3,5) r by simp
  then show ?thesis using r \<open>es[k := ?e] = es0[k := ?e]\<close> by (simp add: submission_turn_def)
qed

lemma submitted_turned:
  assumes "ss_schedules s = es" "sx_status (es ! k) = ''submitted''"
  shows "turned now ready k es (submitted_turn tu k es s)"
proof (cases "Option.bind (sx_job_id (es ! k)) (tget (ss_jobs s))")
  case None
  obtain s' r where "with_schedules (tu_save tu) (es[k := result_lost (es ! k)]) s = (s', r)" by fastforce
  moreover from this have "turned now ready k es (s', es[k := result_lost (es ! k)], r)"
    using assms by (intro turned_saved [of s es k "es ! k"]) (simp_all add: lives_on_def result_lost_def)
  ultimately show ?thesis using None by (simp add: submitted_turn_def)
next
  case (Some j)
  obtain e' c where e': "record_finished_result (es ! k) j = (e', c)" by fastforce
  obtain s' r where w: "with_schedules (tu_save tu) (es[k := e']) s = (s', r)" by fastforce
  have "lives_on now ready (es ! k) e'"
    using e' assms(2) by (auto simp: record_finished_result_def lives_on_def split: if_splits)
  then have "turned now ready k es (s', es[k := e'], r)"
    using w assms(1) by (intro turned_saved [of s es k "es ! k"]) simp_all
  then show ?thesis using Some e' w turned_same [OF assms(1)] by (simp add: submitted_turn_def Let_def)
qed

lemma replayed_turned:
  assumes "keeps_schedules tu" "k < length es" "ss_schedules s = es" "sx_status (es ! k) = ''dispatching''"
  shows "turned now ready k es (replayed_turn ready tu k es s)"
proof (cases "ready \<and> tu_runtime tu")
  case True
  let ?p = "case started_job (es ! k) (ss_jobs s) of Some job_id \<Rightarrow> (s, Inr job_id)
    | None \<Rightarrow> enqueue_sync_map tu (sx_book_id (es ! k)) s"
  have "ss_schedules (fst ?p) = es"
    using enqueue_sync_map_schedules [OF assms(1)] assms(3) by (simp split: option.splits)
  then have "turned now ready k es (submission_turn tu k es ?p)"
    using assms(2,4) True by (intro submission_turned [of _ es k es "es ! k"]) (auto simp: lives_on_def)
  then show ?thesis using True by (simp add: replayed_turn_def)
next
  case False
  then show ?thesis using turned_same [OF assms(3)] by (auto simp: replayed_turn_def)
qed

lemma claimed_turned:
  assumes "keeps_schedules tu" "k < length es" "ss_schedules s = es"
    and "sx_status (es ! k) = ''scheduled''" "in_time (es ! k) now" ready
    and "with_schedules w (es[k := (es ! k)\<lparr>sx_status := ''dispatching''\<rparr>]) s = (s1, Inr u)"
  shows "turned now ready k es
    (submission_turn tu k (es[k := (es ! k)\<lparr>sx_status := ''dispatching''\<rparr>]) (enqueue_sync_map tu book_id s1))"
proof -
  let ?d = "(es ! k)\<lparr>sx_status := ''dispatching''\<rparr>"
  have "ss_schedules s1 = es[k := ?d]" using with_schedules_facts [OF assms(7)] by (cases w) auto
  then have "ss_schedules (fst (enqueue_sync_map tu book_id s1)) = es[k := ?d]"
    using enqueue_sync_map_schedules [OF assms(1)] by simp
  then show ?thesis
    using assms(2,4-6) by (intro submission_turned [of _ "es[k := ?d]" k es ?d]) (auto simp: lives_on_def)
qed

lemma due_turned:
  assumes "keeps_schedules tu" "k < length es" "ss_schedules s = es"
  shows "turned now ready k es (due_turn now ready tu k es s)"
proof (cases "due_status (es ! k) now")
  case None
  then show ?thesis using turned_same [OF assms(3)] by (simp add: due_turn_def)
next
  case (Some st)
  note due = due_status_cases [OF Some]
  let ?m = "(es ! k)\<lparr>sx_status := st,
    sx_error := Some ''The server missed this start time by more than 15 minutes. Schedule it again.''\<rparr>"
  let ?d = "(es ! k)\<lparr>sx_status := st\<rparr>"
  obtain s1 r1 where w: "with_schedules (tu_claim tu) (es[k := ?d]) s = (s1, r1)" by fastforce
  obtain s2 r2 where m: "with_schedules (tu_claim tu) (es[k := ?m]) s = (s2, r2)" by fastforce
  from due(2) consider (missed) "st = ''missed''" "unat (sx_run_at (es ! k)) + 15 * 60 * 1000 < unat now"
    | (wait) "st = ''dispatching''" "\<not> ready"
    | (claim) "st = ''dispatching''" "in_time (es ! k) now" "ready" by blast
  then show ?thesis
  proof cases
    case missed
    then have "turned now ready k es (s2, es[k := ?m], r2)"
      using m due(1) assms(3) by (intro turned_saved [of s es k "es ! k"]) (simp_all add: lives_on_def)
    then show ?thesis using Some m missed by (simp add: due_turn_def Let_def)
  next
    case wait
    then show ?thesis using Some turned_same [OF assms(3)] by (simp add: due_turn_def)
  next
    case claim
    then have claimed: "turned now ready k es (s1, es[k := ?d], r1)"
      using w due(1) assms(3) by (intro turned_saved [of s es k "es ! k"]) (simp_all add: lives_on_def)
    show ?thesis
    proof (cases r1)
      case (Inl e)
      then show ?thesis using Some claim w claimed by (simp add: due_turn_def Let_def)
    next
      case (Inr u)
      then show ?thesis
        using Some claim w assms(2) claimed_turned [OF assms due(1) claim(2,3), of "tu_claim tu" s1 u]
        by (simp add: due_turn_def Let_def)
    qed
  qed
qed

lemma entry_turned:
  assumes "keeps_schedules tu" "k < length es" "ss_schedules s = es"
  shows "turned now ready k es (entry_turn now ready tu k es s)"
  using submitted_turned [OF assms(3)] replayed_turned [OF assms] due_turned [OF assms]
  by (simp add: entry_turn_def)

lemma entry_turns_live:
  assumes "\<forall>(k, tu) \<in> set turns. keeps_schedules tu \<and> k < length es" "distinct (map fst turns)"
    and "ss_schedules s = es" "entry_turns now ready turns es s = (s', r)"
  shows "length (ss_schedules s') = length es
    \<and> (\<forall>k < length es. lives_on now ready (es ! k) (ss_schedules s' ! k)
         \<and> (k \<notin> fst ` set turns \<longrightarrow> ss_schedules s' ! k = es ! k))"
  using assms
proof (induction turns arbitrary: es s)
  case (Cons t turns)
  obtain k tu where t: "t = (k, tu)" by fastforce
  have ok: "keeps_schedules tu" "k < length es" using Cons.prems(1) t by auto
  have "ss_schedules (tu_arrive tu s) = es" using ok(1) Cons.prems(3) by (simp add: keeps_schedules_def)
  note turn = entry_turned [OF ok this, of now ready, unfolded turned_def]
  obtain s1 es1 r1 where step: "entry_turn now ready tu k es (tu_arrive tu s) = (s1, es1, r1)"
    by (cases "entry_turn now ready tu k es (tu_arrive tu s)")
  obtain e' where e': "lives_on now ready (es ! k) e'" "ss_schedules s1 = es[k := e']" "\<not> isl r1 \<Longrightarrow> es1 = es[k := e']"
    using turn unfolding step by auto
  show ?case
  proof (cases r1)
    case (Inl e)
    then have "s' = s1" using Cons.prems(4) step t by simp
    then show ?thesis using e' t ok(2) by (auto simp: nth_list_update)
  next
    case (Inr u)
    have es1: "es1 = es[k := e']" using e'(3) Inr by simp
    have rest: "entry_turns now ready turns es1 s1 = (s', r)" using Cons.prems(4) step t Inr by simp
    have "length (ss_schedules s') = length es1
      \<and> (\<forall>i < length es1. lives_on now ready (es1 ! i) (ss_schedules s' ! i)
           \<and> (i \<notin> fst ` set turns \<longrightarrow> ss_schedules s' ! i = es1 ! i))"
      by (rule Cons.IH [OF _ _ _ rest]) (use Cons.prems(1,2) e'(2) es1 in \<open>auto simp: t\<close>)
    moreover have "k \<notin> fst ` set turns" using Cons.prems(2) t by simp
    ultimately show ?thesis using e'(1) es1 t ok(2) by (auto simp: nth_list_update split: if_splits)
  qed
qed simp

lemma tick_sweep_schedules:
  assumes "tick_sweep zn now ready readable env w1 w2 stored s = (stored', s', r)"
    and "\<And>s. ss_schedules (se_others env s) = ss_schedules s"
  shows "ss_schedules s' = ss_schedules s"
proof -
  have batch: "ss_schedules (fst (enqueue_sync_batch e t w q s)) = ss_schedules s" for e t w q s
    by (auto simp: enqueue_sync_batch_def Let_def split: sum.splits prod.splits)
  have "ss_schedules (fst (run_sweep env limit s)) = ss_schedules s" for limit
    using batch assms(2)
    by (auto simp: run_sweep_def Let_def case_prod_beta split: sum.splits)
  then show ?thesis
    using assms(1)
    by (auto simp: tick_sweep_def Let_def case_prod_beta split: sum.splits night.splits)
qed


section \<open>Examples\<close>

definition ex_zones :: zones where
  "ex_zones =
     \<lparr>zn_time = (\<lambda>t. if t = ''03:00'' then Some 180 else None), zn_zone = (\<lambda>z. if z = ''Etc/UTC'' then Some 0 else None),
      zn_date_ok = (\<lambda>d. \<bar>d\<bar> < 100000000), zn_local_ok = (\<lambda>_. True), zn_instant_ok = (\<lambda>_. True),
      zn_local = (\<lambda>_ l. if l * 60000 < 2 ^ 63 then Single (l * 60000) else NoInstant),
      zn_day = (\<lambda>_ t. t div 86400000)\<rparr>"

definition ex_rule :: sync_sweep where
  "ex_rule = \<lparr>sp_enabled = True, sp_books_per_night = 1, sp_local_time = ''03:00'', sp_time_zone = ''Etc/UTC'',
     sp_next_run_at = 10800000, sp_last_run_at = None, sp_last_queued = None, sp_last_error = None\<rparr>"

definition ex_sweep :: sweep_env where
  "ex_sweep = \<lparr>se_books = [\<lparr>sb_id = ''b'', sb_extension = Some ''epub'', sb_tracks = 1, sb_source = None, sb_outdated = False\<rparr>],
     se_readable = True, se_enqueue = ex_enqueue_env, se_clock = 5, se_queue = Written,
     se_fresh = (\<lambda>b. ''j'' @ b), se_others = id\<rparr>"

lemma ex_night:
  "(let (stored, s, r) = tick_sweep ex_zones 10800004 True True ex_sweep Written Written (Some ex_rule) ex_sync_start
    in r = Inr () \<and> map_option sp_next_run_at stored = Some 97200000 \<and> map_option sp_last_queued stored = Some (Some 1)
       \<and> tget (ss_jobs s) ''jb'' \<noteq> None)
   \<and> sweeps ex_zones 10800004 True True Written (Some ex_rule) = Some 10800000"
  by code_simp

lemma ex_zones_ok: "zones_ok ex_zones"
proof -
  have "l * 60000 div 86400000 = l div 1440" for l :: int
    using div_mult_mult2 [of 60000 l 1440] by simp
  then show ?thesis by (simp add: zones_ok_def ex_zones_def)
qed

theorem sweep_once_per_night_witness:
  "\<exists>stored. (nightly ex_zones)\<^sup>*\<^sup>* (Some ex_rule, []) (stored, [(10800000, 10800004)])
     \<and> list_all (\<lambda>(slot, start). unat slot \<le> unat start \<and> unat start \<le> unat slot + 15 * 60 * 1000)
         [(10800000 :: u64, 10800004 :: u64)]"
proof -
  obtain stored s r where tick: "tick_sweep ex_zones 10800004 True True ex_sweep Written Written (Some ex_rule) ex_sync_start
      = (stored, s, r)"
    by (cases "tick_sweep ex_zones 10800004 True True ex_sweep Written Written (Some ex_rule) ex_sync_start")
  have run: "(nightly ex_zones)\<^sup>*\<^sup>* (Some ex_rule, []) (stored, [(10800000, 10800004)])"
    using nightly.tick [OF tick, of "[]"] ex_night by auto
  have zone: "zn_zone ex_zones (sp_time_zone ex_rule) = Some 0" by (simp add: ex_zones_def ex_rule_def)
  note late = conjunct2 [OF sweep_once_per_night [OF ex_zones_ok zone run]]
  show ?thesis by (intro exI [of _ stored] conjI run late)
qed

definition ex_turn :: turn where
  "ex_turn = \<lparr>tu_runtime = True, tu_enqueue = ex_enqueue_env, tu_fresh = ''j1'', tu_clock = 5, tu_queue = Written,
     tu_claim = Written, tu_save = Written, tu_arrive = id, tu_before = id, tu_between = id\<rparr>"

definition ex_tick :: tick_env where
  "ex_tick = \<lparr>te_now = 900950, te_ready = True, te_readable = True, te_turns = (\<lambda>_. ex_turn), te_sweep_now = 900950,
     te_sweep_ready = True, te_sweep_readable = True, te_sweep = ex_sweep, te_claim = Written, te_outcome = Written\<rparr>"

definition ex_scheduled :: sync_state where
  "ex_scheduled = ex_sync_start\<lparr>ss_schedules := [new_entry ''a'' 100, new_entry ''b'' 1000]\<rparr>"

lemma ex_tick_outcome:
  "map sx_status (ss_schedules (fst (snd (schedule_tick ex_zones ex_tick None ex_scheduled)))) = [''missed'', ''submitted'']"
  by code_simp


end
