(* ===== verification/UpdateTrust.thy ===== *)
theory UpdateTrust
  imports SyncQueue
begin

text \<open>
  Which updates the server accepts (\<open>update_manifest.rs\<close>, \<open>update_channel.rs\<close>, \<open>updates.rs\<close>): the root of
  trust and its signed rotations, the signed manifest with its redirects and bridges, the choice of
  a package and the download that is held to it. Ed25519, SHA-256, base64, JSON and semantic
  versions come from libraries and are the argument \<open>env\<close>, the network an argument of its own.
\<close>

section \<open>Data\<close>

type_synonym 'a checked = "string + 'a"

definition attempt :: "'a checked \<Rightarrow> ('a \<Rightarrow> 'b checked) \<Rightarrow> 'b checked" where
  "attempt r f = (case r of Inl e \<Rightarrow> Inl e | Inr v \<Rightarrow> f v)"

lemma attempt_simps [simp]: "attempt (Inr v) f = f v" "attempt (Inl e) f = Inl e"
  by (simp_all add: attempt_def)

lemma attempt_InrE:
  assumes "attempt r f = Inr v"
  obtains u where "r = Inr u" "f u = Inr v"
  using assms by (cases r) (simp_all add: attempt_def)

definition or_error :: "string \<Rightarrow> 'a option \<Rightarrow> 'a checked" where
  "or_error e x = (case x of None \<Rightarrow> Inl e | Some v \<Rightarrow> Inr v)"

lemma or_error_Inr [simp]: "or_error e x = Inr v \<longleftrightarrow> x = Some v"
  by (simp add: or_error_def split: option.splits)

text \<open>A signature is a key id and its base64 text.\<close>

datatype envelope =
  Envelope (en_payload: string) (en_signatures: "(string \<times> ustr) list") (en_roots: "envelope list")

record trusted_root =
  tr_version :: u64
  tr_threshold :: nat
  tr_keys :: "(string \<times> string) list"
  tr_rotations :: "envelope list"

record root_payload =
  rp_kind :: string
  rp_version :: u64
  rp_threshold :: nat
  rp_keys :: "(string \<times> ustr) list"

record bridge =
  br_component :: "string option"
  br_below :: string
  br_manifest :: string

record package =
  pk_component :: string
  pk_platform :: string
  pk_version :: string
  pk_url :: string
  pk_sha256 :: string
  pk_size :: u64
  pk_format :: string
  pk_root :: string
  pk_protocol :: "u32 option"

record manifest =
  mf_kind :: string
  mf_schema :: u64
  mf_version :: string
  mf_data_compatibility :: "(int \<times> u32) option"
  mf_stable_version :: "string option"
  mf_notice :: "(string \<times> string option) option"
  mf_redirect :: "string option"
  mf_bridges :: "bridge list"
  mf_packages :: "package list"

datatype archive_format = Zip | TarGz

datatype update_channel = Stable | Nightly

text \<open>The libraries: \<open>re_less\<close> orders versions, \<open>re_pre\<close> is the prerelease part, \<open>re_show\<close> prints.\<close>

record 'v release_env =
  re_base64 :: "ustr \<Rightarrow> string option"
  re_key_ok :: "string \<Rightarrow> bool"
  re_sha256 :: "string \<Rightarrow> string"
  re_valid :: "string \<Rightarrow> string \<Rightarrow> string \<Rightarrow> bool"
  re_envelope :: "string \<Rightarrow> envelope option"
  re_root :: "string \<Rightarrow> root_payload option"
  re_manifest :: "string \<Rightarrow> manifest option"
  re_version :: "string \<Rightarrow> 'v option"
  re_less :: "'v \<Rightarrow> 'v \<Rightarrow> bool"
  re_pre :: "'v \<Rightarrow> string"
  re_show :: "'v \<Rightarrow> string"

definition MANIFEST_SCHEMA :: u64 where
  "MANIFEST_SCHEMA = 1"

definition ENVELOPE_DOMAIN :: string where
  "ENVELOPE_DOMAIN = ''operalibre-signed-v1''"

definition MAX_MANIFEST_BYTES :: nat where
  "MAX_MANIFEST_BYTES = 1024 * 1024"

definition MAX_MANIFEST_HOPS :: nat where
  "MAX_MANIFEST_HOPS = 8"

definition ROOT_KEYS :: "ustr list" where
  "ROOT_KEYS = map cps [''FhUko6re8/stEbHmAlnNv3+SwIzMSXNMUpPVl8BVifk='', ''ZRqn6x4T1s5YydV/orpMeF1Ec4VgpLXq7EUgAFIn0Ns='']"

section \<open>Roots of trust\<close>

definition decode_public_key :: "'v release_env \<Rightarrow> ustr \<Rightarrow> string checked" where
  "decode_public_key env base64 =
     (case re_base64 env base64 of
        None \<Rightarrow> Inl ''An update root key is not a 32-byte base64 key.''
      | Some bytes \<Rightarrow>
          if length bytes \<noteq> 32 then Inl ''An update root key is not a 32-byte base64 key.''
          else if \<not> re_key_ok env bytes then Inl ''An update root key is not a valid Ed25519 key.''
          else Inr bytes)"

definition key_id :: "'v release_env \<Rightarrow> string \<Rightarrow> string" where
  "key_id env key = take 16 (hex_digest (re_sha256 env key))"

definition envelope_message :: "string \<Rightarrow> string \<Rightarrow> string" where
  "envelope_message kind payload = ENVELOPE_DOMAIN @ [CHR 0x0A] @ kind @ [CHR 0x0A] @ payload"

definition invalid_threshold :: string where
  "invalid_threshold = ''The update root has an invalid signature threshold.''"

fun collect_keys :: "('a \<Rightarrow> 'b checked) \<Rightarrow> 'a list \<Rightarrow> 'b list checked" where
  "collect_keys f [] = Inr []"
| "collect_keys f (x # xs) = attempt (f x) (\<lambda>y. attempt (collect_keys f xs) (\<lambda>ys. Inr (y # ys)))"

definition from_keys :: "'v release_env \<Rightarrow> u64 \<Rightarrow> nat \<Rightarrow> ustr list \<Rightarrow> trusted_root checked" where
  "from_keys env version threshold keys =
     attempt (collect_keys (\<lambda>k. attempt (decode_public_key env k) (\<lambda>key. Inr (key_id env key, key))) keys) (\<lambda>ks.
       if threshold = 0 \<or> length ks < threshold then Inl invalid_threshold
       else Inr \<lparr>tr_version = version, tr_threshold = threshold, tr_keys = ks, tr_rotations = []\<rparr>)"

definition built_in :: "'v release_env \<Rightarrow> trusted_root checked" where
  "built_in env = from_keys env 1 1 ROOT_KEYS"

definition root_from_payload :: "'v release_env \<Rightarrow> root_payload \<Rightarrow> trusted_root checked" where
  "root_from_payload env p =
     attempt (collect_keys (\<lambda>(keyid, public_key).
         attempt (decode_public_key env public_key) (\<lambda>key.
           if key_id env key \<noteq> keyid then Inl ''An update root key has a mismatched key id.''
           else Inr (keyid, key))) (rp_keys p)) (\<lambda>ks.
       if rp_threshold p = 0 \<or> length ks < rp_threshold p then Inl invalid_threshold
       else Inr \<lparr>tr_version = rp_version p, tr_threshold = rp_threshold p, tr_keys = ks, tr_rotations = []\<rparr>)"

text \<open>The keys whose signature counts, each once.\<close>

definition count_signature ::
  "'v release_env \<Rightarrow> (string \<times> string) list \<Rightarrow> string \<Rightarrow> string list \<Rightarrow> string \<times> ustr \<Rightarrow> string list" where
  "count_signature env keys msg verified s =
     (case List.find (\<lambda>(i, _). i = fst s) keys of
        None \<Rightarrow> verified
      | Some (i, key) \<Rightarrow>
          if i \<in> set verified then verified
          else (case re_base64 env (trim (snd s)) of
                  None \<Rightarrow> verified
                | Some bytes \<Rightarrow>
                    if length bytes = 64 \<and> re_valid env key msg bytes then verified @ [i] else verified))"

definition verified_keys :: "'v release_env \<Rightarrow> trusted_root \<Rightarrow> envelope \<Rightarrow> string \<Rightarrow> string list" where
  "verified_keys env rt e kind =
     foldl (count_signature env (tr_keys rt) (envelope_message kind (en_payload e))) [] (en_signatures e)"

definition verify_envelope :: "'v release_env \<Rightarrow> trusted_root \<Rightarrow> envelope \<Rightarrow> string \<Rightarrow> unit checked" where
  "verify_envelope env rt e kind =
     (if length (verified_keys env rt e kind) < tr_threshold rt
      then Inl (''The update '' @ kind @ '' is not signed by a trusted OperaLibre release key.'')
      else Inr ())"

definition without_roots :: "envelope \<Rightarrow> envelope" where
  "without_roots e = Envelope (en_payload e) (en_signatures e) []"

definition follow_rotation :: "'v release_env \<Rightarrow> envelope \<Rightarrow> trusted_root \<Rightarrow> trusted_root" where
  "follow_rotation env rotation rt =
     (case re_root env (en_payload rotation) of
        None \<Rightarrow> rt
      | Some p \<Rightarrow>
          if rp_kind p \<noteq> ''root'' \<or> rp_version p \<noteq> tr_version rt + 1 then rt
          else (case root_from_payload env p of
                  Inl _ \<Rightarrow> rt
                | Inr next_root \<Rightarrow>
                    if \<not> isl (verify_envelope env rt rotation ''root'')
                      \<and> \<not> isl (verify_envelope env next_root rotation ''root'')
                    then next_root\<lparr>tr_rotations := tr_rotations rt @ [without_roots rotation]\<rparr>
                    else rt))"

definition rotate_root :: "'v release_env \<Rightarrow> envelope list \<Rightarrow> trusted_root \<Rightarrow> trusted_root" where
  "rotate_root env rotations rt = fold (follow_rotation env) rotations rt"

section \<open>Manifests\<close>

definition verify_manifest :: "'v release_env \<Rightarrow> string \<Rightarrow> trusted_root \<Rightarrow> trusted_root \<times> manifest checked" where
  "verify_manifest env bytes rt =
     (case re_envelope env bytes of
        None \<Rightarrow> (rt, Inl ''The update manifest is not valid JSON.'')
      | Some e \<Rightarrow>
          (let rotated = rotate_root env (en_roots e) rt
           in case verify_envelope env rotated e ''manifest'' of
                Inl err \<Rightarrow> (rt, Inl err)
              | Inr _ \<Rightarrow>
                  (rotated,
                   attempt (or_error ''The update manifest payload is not valid.'' (re_manifest env (en_payload e))) (\<lambda>m.
                     if mf_kind m \<noteq> ''manifest'' then Inl ''The signed update file is not a manifest.''
                     else if mf_schema m \<noteq> MANIFEST_SCHEMA
                     then Inl (''The update manifest uses schema '' @ dec (unat (mf_schema m)) @ '', which this version cannot read.'')
                     else attempt (or_error ''The update manifest has an invalid version.'' (re_version env (mf_version m)))
                       (\<lambda>_. Inr m)))))"

text \<open>
  With the saved rotations; a file that is absent or damaged holds none. A rotation is saved before
  the manifest it came with is used.
\<close>

definition verify_manifest_remembering ::
  "'v release_env \<Rightarrow> bool \<Rightarrow> write_outcome \<Rightarrow> string \<Rightarrow> envelope list \<Rightarrow> envelope list \<times> manifest checked" where
  "verify_manifest_remembering env readable w bytes saved =
     (case built_in env of
        Inl e \<Rightarrow> (saved, Inl e)
      | Inr r \<Rightarrow>
          if \<not> readable then (saved, Inl ''Could not read the saved update keys'')
          else
            (let rt = rotate_root env saved r
             in case verify_manifest env bytes rt of
                  (_, Inl e) \<Rightarrow> (saved, Inl e)
                | (root', Inr m) \<Rightarrow>
                    if tr_version rt < tr_version root'
                    then (if w = NotWritten then saved else tr_rotations root',
                          if w = Written then Inr m else Inl ''Could not save the new update keys'')
                    else (saved, Inr m)))"

definition bridge_for :: "'v release_env \<Rightarrow> manifest \<Rightarrow> string \<Rightarrow> 'v option \<Rightarrow> bridge option" where
  "bridge_for env m component installed =
     (case installed of
        None \<Rightarrow> None
      | Some v \<Rightarrow>
          List.find (\<lambda>b. (br_component b = None \<or> br_component b = Some component)
            \<and> (case re_version env (br_below b) of None \<Rightarrow> False | Some below \<Rightarrow> re_less env v below)) (mf_bridges m))"

definition download_manifest :: "(string \<Rightarrow> string checked) \<Rightarrow> string \<Rightarrow> string checked" where
  "download_manifest net url =
     (if take 8 url \<noteq> ''https://'' then Inl ''The update manifest address is not HTTPS.''
      else attempt (net url) (\<lambda>body.
        if MAX_MANIFEST_BYTES < length body then Inl ''The update manifest is too large.'' else Inr body))"

lemma download_manifest_code [code]:
  "download_manifest net url =
     (if take 8 url \<noteq> ''https://'' then Inl ''The update manifest address is not HTTPS.''
      else attempt (net url) (\<lambda>body.
        if 1048576 < int (length body) then Inl ''The update manifest is too large.'' else Inr body))"
  by (simp add: download_manifest_def MAX_MANIFEST_BYTES_def)

text \<open>One hop after the other: what the network answers and what becomes of the file at each.\<close>

record hop =
  hp_net :: "string \<Rightarrow> string checked"
  hp_readable :: bool
  hp_write :: write_outcome

fun fetch_hops ::
  "'v release_env \<Rightarrow> (nat \<Rightarrow> hop) \<Rightarrow> string \<Rightarrow> 'v option \<Rightarrow> nat \<Rightarrow> string \<Rightarrow> envelope list
   \<Rightarrow> envelope list \<times> manifest checked" where
  "fetch_hops env hops component installed 0 url saved =
     (saved, Inl ''The update manifest redirected too many times.'')"
| "fetch_hops env hops component installed (Suc n) url saved =
     (case download_manifest (hp_net (hops n)) url of
        Inl e \<Rightarrow> (saved, Inl e)
      | Inr bytes \<Rightarrow>
          (case verify_manifest_remembering env (hp_readable (hops n)) (hp_write (hops n)) bytes saved of
             (saved', Inl e) \<Rightarrow> (saved', Inl e)
           | (saved', Inr m) \<Rightarrow>
               (case mf_redirect m of
                  Some next_url \<Rightarrow> fetch_hops env hops component installed n next_url saved'
                | None \<Rightarrow>
                    (case bridge_for env m component installed of
                       Some b \<Rightarrow> fetch_hops env hops component installed n (br_manifest b) saved'
                     | None \<Rightarrow> (saved', Inr m)))))"

definition fetch_manifest_from ::
  "'v release_env \<Rightarrow> (nat \<Rightarrow> hop) \<Rightarrow> string \<Rightarrow> string \<Rightarrow> 'v option \<Rightarrow> envelope list \<Rightarrow> envelope list \<times> manifest checked" where
  "fetch_manifest_from env hops url component installed saved =
     fetch_hops env hops component installed MAX_MANIFEST_HOPS url saved"

section \<open>Choosing a release\<close>

definition archive_format_of :: "package \<Rightarrow> archive_format option" where
  "archive_format_of p =
     (if pk_format p = ''zip'' then Some Zip else if pk_format p = ''tar.gz'' then Some TarGz else None)"

definition is_single_folder_name :: "string \<Rightarrow> bool" where
  "is_single_folder_name name \<longleftrightarrow>
     name \<noteq> [] \<and> name \<noteq> ''.'' \<and> name \<noteq> ''..'' \<and> \<not> list_ex (\<lambda>c. c \<in> {CHR ''/'', CHR 0x5C, CHR '':''}) name
     \<and> take 1 name \<noteq> ''.''"

definition is_usable :: "'v release_env \<Rightarrow> package \<Rightarrow> bool" where
  "is_usable env p \<longleftrightarrow>
     archive_format_of p \<noteq> None \<and> take 8 (pk_url p) = ''https://'' \<and> 0 < pk_size p
     \<and> length (pk_sha256 p) = 64 \<and> list_all is_ascii_hexdigit (pk_sha256 p)
     \<and> re_version env (pk_version p) \<noteq> None \<and> is_single_folder_name (pk_root p)"

definition find_package :: "'v release_env \<Rightarrow> manifest \<Rightarrow> string \<Rightarrow> string option \<Rightarrow> u32 option \<Rightarrow> package option" where
  "find_package env m component platform protocol =
     List.find (\<lambda>p. pk_component p = component
         \<and> (pk_platform p = ''any'' \<or> Some (pk_platform p) = platform)
         \<and> (protocol = None
            \<or> (case pk_protocol p of None \<Rightarrow> 1 | Some n \<Rightarrow> n) = (case protocol of None \<Rightarrow> 1 | Some n \<Rightarrow> n))
         \<and> is_usable env p) (mf_packages m)"

definition for_version :: "'v release_env \<Rightarrow> 'v \<Rightarrow> update_channel" where
  "for_version env v = (if take 8 (re_pre env v) = ''nightly.'' then Nightly else Stable)"

definition manifest_url :: "update_channel \<Rightarrow> string" where
  "manifest_url ch =
     (case ch of
        Stable \<Rightarrow> ''https://github.com/DonovanMontoya/OperaLibre/releases/latest/download/operalibre-manifest-v1.json''
      | Nightly \<Rightarrow> ''https://github.com/DonovanMontoya/OperaLibre/releases/download/nightly/operalibre-manifest-v1.json'')"

definition current_compatibility :: "int \<times> u32" where
  "current_compatibility = (4, 1)"

definition validate_target :: "'v release_env \<Rightarrow> 'v \<Rightarrow> 'v \<Rightarrow> update_channel \<Rightarrow> manifest \<Rightarrow> unit checked" where
  "validate_target env current_v target channel m =
     (if for_version env target \<noteq> channel \<or> channel = Stable \<and> re_pre env target \<noteq> []
         \<or> re_show env target \<noteq> mf_version m
      then Inl ''The release does not belong to the selected update channel.''
      else if channel = Nightly \<or> re_less env target current_v
      then
        (if mf_data_compatibility m \<noteq> Some current_compatibility
         then Inl ''This release cannot safely use this server's data. Stay on the current build until a compatible release is available.''
         else if channel = Nightly
         then attempt (or_error ''This nightly has no verified stable return version.'' (mf_stable_version m)) (\<lambda>text.
                attempt (or_error ''invalid version'' (re_version env text)) (\<lambda>stable.
                  if re_pre env stable \<noteq> [] \<or> \<not> re_less env stable target
                  then Inl ''This nightly has an invalid stable return version.'' else Inr ()))
         else Inr ())
      else Inr ())"

definition update_available :: "'v release_env \<Rightarrow> 'v \<Rightarrow> 'v \<Rightarrow> update_channel \<Rightarrow> bool" where
  "update_available env current_v target channel \<longleftrightarrow>
     re_less env current_v target \<or> for_version env current_v \<noteq> channel \<and> target \<noteq> current_v"

record update_status =
  us_channel :: update_channel
  us_current_channel :: update_channel
  us_current_version :: string
  us_latest_version :: string
  us_update_available :: bool
  us_can_auto_update :: bool
  us_platform :: "string option"
  us_message :: "string option"

definition manifest_notice :: "manifest \<Rightarrow> string option" where
  "manifest_notice m =
     map_option (\<lambda>(text, url). case url of Some u \<Rightarrow> text @ '' '' @ u | None \<Rightarrow> text) (mf_notice m)"

text \<open>\<open>managed\<close>: whether the installation can be updated in place.\<close>

definition status_for_manifest ::
  "'v release_env \<Rightarrow> string \<Rightarrow> string option \<Rightarrow> unit checked \<Rightarrow> manifest \<Rightarrow> update_channel \<Rightarrow> update_status checked" where
  "status_for_manifest env running platform managed m channel =
     attempt (or_error ''Invalid current version'' (re_version env running)) (\<lambda>current_v.
       let package = Option.bind platform (\<lambda>p. find_package env m ''server'' (Some p) None);
           latest_text = (case package of None \<Rightarrow> mf_version m | Some p \<Rightarrow> pk_version p)
       in attempt (or_error ''Invalid release version'' (re_version env latest_text)) (\<lambda>latest_v.
         let capability = attempt (validate_target env current_v latest_v channel m) (\<lambda>_. managed)
         in Inr \<lparr>us_channel = channel, us_current_channel = for_version env current_v,
              us_current_version = re_show env current_v, us_latest_version = re_show env latest_v,
              us_update_available = update_available env current_v latest_v channel,
              us_can_auto_update = (package \<noteq> None \<and> \<not> isl capability), us_platform = platform,
              us_message =
                (if package = None
                 then Some (case manifest_notice m of Some text \<Rightarrow> text
                    | None \<Rightarrow> ''No automatic update package is available for this server platform.'')
                 else case capability of Inl e \<Rightarrow> Some e | Inr _ \<Rightarrow> None)\<rparr>))"

section \<open>The package\<close>

definition size_mismatch :: string where
  "size_mismatch = ''The downloaded update package size did not match the update manifest.''"

text \<open>The sum of a counter and a length, when it fits.\<close>

definition add_length :: "u64 \<Rightarrow> nat \<Rightarrow> u64 option" where
  "add_length n k = (if unat n + k < 2 ^ 64 then Some (n + of_nat k) else None)"

lemma add_length_code [code]:
  "add_length n k = (if uint n + int k < 2 ^ 64 then Some (n + word_of_int (int k)) else None)"
proof -
  have "unat n + k < 2 ^ 64 \<longleftrightarrow> int (unat n + k) < int (2 ^ 64)" by (rule of_nat_less_iff [symmetric])
  then show ?thesis by (simp add: add_length_def)
qed

text \<open>The body arrives in chunks; the file so far is the accumulator.\<close>

fun receive_chunks :: "u64 \<Rightarrow> string list \<Rightarrow> u64 \<Rightarrow> string \<Rightarrow> (u64 \<times> string) checked" where
  "receive_chunks limit [] downloaded archive = Inr (downloaded, archive)"
| "receive_chunks limit (c # cs) downloaded archive =
     attempt (or_error ''The downloaded update package is too large.'' (add_length downloaded (length c))) (\<lambda>n.
       if limit < n then Inl ''The downloaded update package is larger than the update manifest says.''
       else receive_chunks limit cs n (archive @ c))"

definition download_package ::
  "'v release_env \<Rightarrow> package \<Rightarrow> u64 \<Rightarrow> (u64 option \<times> string list) checked \<Rightarrow> string checked" where
  "download_package env p maximum_bytes response =
     (if maximum_bytes < pk_size p
      then Inl (''The '' @ pk_component p @ '' package is larger than this server accepts.'')
      else attempt response (\<lambda>(content_length, chunks).
        if content_length \<noteq> None \<and> content_length \<noteq> Some (pk_size p) then Inl size_mismatch
        else attempt (receive_chunks (pk_size p) chunks 0 []) (\<lambda>(downloaded, archive).
          if downloaded \<noteq> pk_size p then Inl size_mismatch
          else if \<not> eq_ignore_ascii_case (hex_digest (re_sha256 env archive)) (pk_sha256 p)
          then Inl ''The downloaded update package failed SHA-256 verification.''
          else Inr archive)))"

definition MAX_UPDATE_PACKAGE_BYTES :: u64 where
  "MAX_UPDATE_PACKAGE_BYTES = 250 * 1024 * 1024"

record install_request =
  ir_channel :: "update_channel option"
  ir_version :: "string option"

text \<open>
  What an installation meets: its settings, its files (\<open>ie_writable\<close>: the probe of the install folder
  and the fresh staging folder) and the package server.
\<close>

record install_env =
  ie_channel :: "update_channel checked"
  ie_running :: string
  ie_platform :: "string option"
  ie_managed :: "unit checked"
  ie_writable :: "unit checked"
  ie_response :: "(u64 option \<times> string list) checked"

text \<open>\<open>install_inner\<close> up to the archive it hands to the updater.\<close>

definition install_archive ::
  "'v release_env \<Rightarrow> (nat \<Rightarrow> hop) \<Rightarrow> install_env \<Rightarrow> install_request \<Rightarrow> envelope list
   \<Rightarrow> envelope list \<times> (package \<times> string) checked" where
  "install_archive env hops ie request saved =
     (case ie_channel ie of
        Inl e \<Rightarrow> (saved, Inl e)
      | Inr channel \<Rightarrow>
          if ir_channel request \<noteq> None \<and> ir_channel request \<noteq> Some channel
          then (saved, Inl ''The selected channel changed. Check for updates again before installing.'')
          else
            (let (saved', fetched) =
                   fetch_manifest_from env hops (manifest_url channel) ''server'' (re_version env (ie_running ie)) saved
             in (saved', attempt fetched (\<lambda>m.
                  attempt (status_for_manifest env (ie_running ie) (ie_platform ie) (ie_managed ie) m channel) (\<lambda>st.
                    if ir_version request \<noteq> None \<and> ir_version request \<noteq> Some (us_latest_version st)
                    then Inl ''The available release changed. Check for updates again before installing.''
                    else if \<not> us_update_available st then Inl ''OperaLibre is already up to date.''
                    else if \<not> us_can_auto_update st
                    then Inl (case us_message st of Some text \<Rightarrow> text
                       | None \<Rightarrow> ''This installation must be updated manually.'')
                    else attempt (or_error ''This server platform does not have an update package.''
                        (Option.bind (us_platform st) (\<lambda>p. find_package env m ''server'' (Some p) None))) (\<lambda>package.
                      attempt (ie_managed ie) (\<lambda>_.
                        attempt (ie_writable ie) (\<lambda>_.
                          attempt (download_package env package MAX_UPDATE_PACKAGE_BYTES (ie_response ie)) (\<lambda>archive.
                            Inr (package, archive))))))))))"

section \<open>Trust\<close>

text \<open>A quorum: enough different keys of a root have signed the text.\<close>

definition quorum :: "'v release_env \<Rightarrow> trusted_root \<Rightarrow> string \<Rightarrow> envelope \<Rightarrow> bool" where
  "quorum env r kind e \<longleftrightarrow>
     (\<exists>ids. distinct ids \<and> tr_threshold r \<le> length ids \<and>
       (\<forall>i \<in> set ids. \<exists>key sig bytes. (i, key) \<in> set (tr_keys r) \<and> (i, sig) \<in> set (en_signatures e)
          \<and> re_base64 env (trim sig) = Some bytes \<and> length bytes = 64
          \<and> re_valid env key (envelope_message kind (en_payload e)) bytes))"

lemma verify_quorum:
  assumes "\<not> isl (verify_envelope env r e kind)"
  shows "quorum env r kind e"
proof -
  let ?msg = "envelope_message kind (en_payload e)"
  let ?good = "\<lambda>sigs i. \<exists>key sig bytes. (i, key) \<in> set (tr_keys r) \<and> (i, sig) \<in> set sigs
      \<and> re_base64 env (trim sig) = Some bytes \<and> length bytes = 64 \<and> re_valid env key ?msg bytes"
  have "distinct (foldl (count_signature env (tr_keys r) ?msg) [] sigs)
      \<and> (\<forall>i \<in> set (foldl (count_signature env (tr_keys r) ?msg) [] sigs). ?good sigs i)" for sigs
  proof (induction sigs rule: rev_induct)
    case (snoc s sigs)
    let ?v = "foldl (count_signature env (tr_keys r) ?msg) [] sigs"
    have old: "\<forall>i \<in> set ?v. ?good (sigs @ [s]) i" using snoc by fastforce
    have "count_signature env (tr_keys r) ?msg ?v s = ?v
        \<or> (\<exists>i. count_signature env (tr_keys r) ?msg ?v s = ?v @ [i] \<and> i \<notin> set ?v \<and> ?good [s] i)"
    proof (cases "List.find (\<lambda>(i, _). i = fst s) (tr_keys r)")
      case (Some p)
      then have "fst p = fst s" "p \<in> set (tr_keys r)" using find_Some_in [OF Some] by (simp_all add: case_prod_beta)
      then show ?thesis using Some
        by (cases p; cases s) (auto simp: count_signature_def split: option.splits)
    qed (simp add: count_signature_def)
    then show ?case using snoc old by fastforce
  qed simp
  note facts = this [of "en_signatures e"]
  moreover have "tr_threshold r \<le> length (verified_keys env r e kind)"
    using assms by (simp add: verify_envelope_def split: if_splits)
  ultimately show ?thesis unfolding quorum_def verified_keys_def by blast
qed

text \<open>One root follows another: the rotation is signed by a quorum of both.\<close>

definition succeeds :: "'v release_env \<Rightarrow> trusted_root \<Rightarrow> trusted_root \<Rightarrow> bool" where
  "succeeds env r r' \<longleftrightarrow>
     (\<exists>e p fresh_root. re_root env (en_payload e) = Some p \<and> rp_version p = tr_version r + 1
        \<and> root_from_payload env p = Inr fresh_root
        \<and> quorum env r ''root'' e \<and> quorum env fresh_root ''root'' e
        \<and> r' = fresh_root\<lparr>tr_rotations := tr_rotations r @ [without_roots e]\<rparr>)"

lemma follow_cases: "follow_rotation env e r = r \<or> succeeds env r (follow_rotation env e r)"
proof (cases "re_root env (en_payload e)")
  case (Some p)
  show ?thesis
  proof (cases "root_from_payload env p")
    case (Inr next_root)
    show ?thesis
    proof (cases "rp_kind p \<noteq> ''root'' \<or> rp_version p \<noteq> tr_version r + 1
        \<or> isl (verify_envelope env r e ''root'') \<or> isl (verify_envelope env next_root e ''root'')")
      case True
      then have "follow_rotation env e r = r" using Some Inr by (auto simp: follow_rotation_def)
      then show ?thesis by blast
    next
      case False
      then have "follow_rotation env e r = next_root\<lparr>tr_rotations := tr_rotations r @ [without_roots e]\<rparr>"
        using Some Inr by (simp add: follow_rotation_def)
      moreover have "quorum env r ''root'' e" "quorum env next_root ''root'' e"
        using False verify_quorum by blast+
      ultimately have "succeeds env r (follow_rotation env e r)"
        using Some Inr False unfolding succeeds_def by blast
      then show ?thesis by blast
    qed
  qed (use Some in \<open>simp add: follow_rotation_def\<close>)
qed (simp add: follow_rotation_def)

lemma rotate_snoc: "rotate_root env (es @ [e]) r = follow_rotation env e (rotate_root env es r)"
  by (simp add: rotate_root_def)

lemma rotate_advances: "(succeeds env)\<^sup>*\<^sup>* r (rotate_root env es r)"
proof (induction es rule: rev_induct)
  case (snoc e es)
  then show ?case using follow_cases [of env e "rotate_root env es r"]
    by (auto simp: rotate_snoc intro: rtranclp.rtrancl_into_rtrancl)
qed (simp add: rotate_root_def)

lemma root_from_payload_fields:
  assumes "root_from_payload env p = Inr r"
  shows "tr_version r = rp_version p" "0 < tr_threshold r" "tr_threshold r \<le> length (tr_keys r)" "tr_rotations r = []"
  using assms by (auto simp: root_from_payload_def elim!: attempt_InrE split: if_splits)

lemma succeeds_version: "succeeds env r r' \<Longrightarrow> tr_version r' = tr_version r + 1 \<and> 0 < tr_threshold r'"
  by (auto simp: succeeds_def dest: root_from_payload_fields)

text \<open>The saved rotations lead back to the root they were saved for.\<close>

lemma follow_without_roots: "follow_rotation env (without_roots e) r = follow_rotation env e r"
  by (auto simp: follow_rotation_def without_roots_def verify_envelope_def verified_keys_def
      split: option.splits sum.splits)

lemma rotations_replay:
  assumes "tr_rotations r = []"
  shows "rotate_root env (tr_rotations (rotate_root env es r)) r = rotate_root env es r"
proof (induction es rule: rev_induct)
  case Nil
  then show ?case using assms by (simp add: rotate_root_def)
next
  case (snoc e es)
  let ?r = "rotate_root env es r"
  have "tr_rotations (follow_rotation env e ?r) = tr_rotations ?r @ [without_roots e]
      \<or> follow_rotation env e ?r = ?r"
    by (auto simp: follow_rotation_def split: option.splits sum.splits)
  then show ?case
    using snoc by (auto simp: rotate_snoc follow_without_roots)
qed

lemma rotate_version:
  "\<exists>n \<le> length es. tr_version (rotate_root env es r) = tr_version r + of_nat n
     \<and> (n = 0 \<longrightarrow> rotate_root env es r = r)"
proof (induction es rule: rev_induct)
  case (snoc e es)
  then obtain n where n: "n \<le> length es" "tr_version (rotate_root env es r) = tr_version r + of_nat n"
    "n = 0 \<longrightarrow> rotate_root env es r = r" by blast
  show ?case
  proof (cases "follow_rotation env e (rotate_root env es r) = rotate_root env es r")
    case True
    have "n \<le> length (es @ [e]) \<and> tr_version (rotate_root env (es @ [e]) r) = tr_version r + of_nat n
        \<and> (n = 0 \<longrightarrow> rotate_root env (es @ [e]) r = r)"
      using n unfolding rotate_snoc True by simp
    then show ?thesis by blast
  next
    case False
    then have "tr_version (follow_rotation env e (rotate_root env es r)) = tr_version (rotate_root env es r) + 1"
      using follow_cases succeeds_version by blast
    then show ?thesis using n by (intro exI [of _ "Suc n"]) (simp add: rotate_snoc)
  qed
qed (simp add: rotate_root_def)

lemma rotate_newer:
  assumes "unat (tr_version r) + length es < 2 ^ 64"
  shows "tr_version r < tr_version (rotate_root env es r) \<or> rotate_root env es r = r"
proof -
  obtain n where n: "n \<le> length es" "tr_version (rotate_root env es r) = tr_version r + of_nat n"
    "n = 0 \<longrightarrow> rotate_root env es r = r" using rotate_version by blast
  have "unat (tr_version r + of_nat n) = unat (tr_version r) + n"
    using assms n(1) by (simp add: unat_word_ariths unat_of_nat)
  then show ?thesis using n(2,3) by (cases n) (simp_all add: word_less_nat_alt)
qed

definition trusted :: "'v release_env \<Rightarrow> trusted_root \<Rightarrow> bool" where
  "trusted env r \<longleftrightarrow> (\<exists>b. built_in env = Inr b \<and> (succeeds env)\<^sup>*\<^sup>* b r)"

lemma built_in_fields: "built_in env = Inr b \<Longrightarrow> tr_rotations b = [] \<and> tr_version b = 1 \<and> 0 < tr_threshold b"
  by (auto simp: built_in_def from_keys_def elim!: attempt_InrE split: if_splits)

lemma trusted_threshold: "trusted env r \<Longrightarrow> 0 < tr_threshold r"
  unfolding trusted_def by (auto dest: built_in_fields succeeds_version elim: rtranclp.cases)

lemma verify_manifest_Inr:
  assumes "verify_manifest env bytes r = (r', Inr m)"
  obtains e where "re_envelope env bytes = Some e" "r' = rotate_root env (en_roots e) r"
    "quorum env r' ''manifest'' e" "re_manifest env (en_payload e) = Some m"
    "mf_kind m = ''manifest''" "mf_schema m = MANIFEST_SCHEMA" "re_version env (mf_version m) \<noteq> None"
proof -
  obtain e where e: "re_envelope env bytes = Some e"
    using assms by (auto simp: verify_manifest_def split: option.splits)
  let ?r = "rotate_root env (en_roots e) r"
  have ok: "\<not> isl (verify_envelope env ?r e ''manifest'')" and "r' = ?r"
    using assms e by (auto simp: verify_manifest_def Let_def split: sum.splits)
  with verify_quorum [OF ok] show thesis
    using assms e
    by (intro that [of e]) (auto simp: verify_manifest_def Let_def elim!: attempt_InrE split: sum.splits if_splits)
qed

lemma remembering_Inr:
  assumes "verify_manifest_remembering env readable w bytes saved = (saved', Inr m)"
  obtains b e where "built_in env = Inr b" "re_envelope env bytes = Some e"
    "quorum env (rotate_root env (en_roots e) (rotate_root env saved b)) ''manifest'' e"
    "re_manifest env (en_payload e) = Some m" "mf_kind m = ''manifest''" "mf_schema m = MANIFEST_SCHEMA"
    "saved' = (if tr_version (rotate_root env saved b) < tr_version (rotate_root env (en_roots e) (rotate_root env saved b))
       then tr_rotations (rotate_root env (en_roots e) (rotate_root env saved b)) else saved)"
proof -
  obtain b where b: "built_in env = Inr b" "readable"
    using assms by (auto simp: verify_manifest_remembering_def split: sum.splits if_splits)
  obtain r' v where v: "verify_manifest env bytes (rotate_root env saved b) = (r', v)" by fastforce
  with assms b have "v = Inr m"
    by (auto simp: verify_manifest_remembering_def Let_def split: sum.splits if_splits)
  with v obtain e where "re_envelope env bytes = Some e" "r' = rotate_root env (en_roots e) (rotate_root env saved b)"
    "quorum env r' ''manifest'' e" "re_manifest env (en_payload e) = Some m"
    "mf_kind m = ''manifest''" "mf_schema m = MANIFEST_SCHEMA"
    by (auto elim: verify_manifest_Inr)
  then show thesis
    using assms b v \<open>v = Inr m\<close>
    by (intro that [of b e]) (auto simp: verify_manifest_remembering_def split: if_splits)
qed

lemma fetched_signed:
  assumes "fetch_hops env hops component installed n url saved = (saved', Inr m)"
  shows "\<exists>r e. trusted env r \<and> quorum env r ''manifest'' e \<and> re_manifest env (en_payload e) = Some m"
  using assms
proof (induction n arbitrary: url saved)
  case (Suc n)
  then obtain bytes s1 m1 where hop: "download_manifest (hp_net (hops n)) url = Inr bytes"
    "verify_manifest_remembering env (hp_readable (hops n)) (hp_write (hops n)) bytes saved = (s1, Inr m1)"
    by (auto split: sum.splits prod.splits)
  show ?case
  proof (cases "mf_redirect m1 = None \<and> bridge_for env m1 component installed = None")
    case True
    then have "m = m1" using Suc.prems hop by simp
    then show ?thesis
      using hop(2) by (auto elim!: remembering_Inr simp: trusted_def)
        (metis rotate_advances rtranclp_trans)
  next
    case False
    then show ?thesis using Suc hop by (auto split: option.splits)
  qed
qed simp

lemma receive_chunks_Inr:
  "receive_chunks limit cs n acc = Inr (k, out) \<Longrightarrow> unat n = length acc
   \<Longrightarrow> unat k = length out \<and> out = acc @ concat cs"
proof (induction cs arbitrary: n acc)
  case (Cons c cs)
  let ?n = "n + of_nat (length c)"
  have fits: "unat n + length c < 2 ^ 64" "receive_chunks limit cs ?n (acc @ c) = Inr (k, out)"
    using Cons.prems(1) by (auto simp: add_length_def elim!: attempt_InrE split: if_splits)
  then have "unat ?n = length (acc @ c)"
    using Cons.prems(2) by (simp add: unat_word_ariths unat_of_nat)
  then show ?case using Cons.IH [OF fits(2)] by simp
qed simp

lemma status_capable:
  assumes "status_for_manifest env running platform managed m channel = Inr st"
    and "us_can_auto_update st" "us_update_available st"
    and "Option.bind platform (\<lambda>q. find_package env m ''server'' (Some q) None) = Some p"
  obtains now target where "re_version env running = Some now" "re_version env (pk_version p) = Some target"
    "validate_target env now target channel m = Inr ()" "update_available env now target channel"
    "us_platform st = platform"
proof -
  obtain now target where v: "re_version env running = Some now" "re_version env (pk_version p) = Some target"
    using assms(1,4) by (auto simp: status_for_manifest_def Let_def elim!: attempt_InrE)
  have "st = \<lparr>us_channel = channel, us_current_channel = for_version env now,
      us_current_version = re_show env now, us_latest_version = re_show env target,
      us_update_available = update_available env now target channel,
      us_can_auto_update = (\<not> isl (attempt (validate_target env now target channel m) (\<lambda>_. managed))),
      us_platform = platform,
      us_message = (case attempt (validate_target env now target channel m) (\<lambda>_. managed) of Inl e \<Rightarrow> Some e | Inr _ \<Rightarrow> None)\<rparr>"
    using assms(1) v by (simp add: status_for_manifest_def Let_def assms(4) or_error_def)
  then have "\<not> isl (attempt (validate_target env now target channel m) (\<lambda>_. managed))"
    "update_available env now target channel" "us_platform st = platform"
    using assms(2,3) by simp_all
  moreover from this(1) have "validate_target env now target channel m = Inr ()"
    by (cases "validate_target env now target channel m") simp_all
  ultimately show thesis using that v by blast
qed

lemma validated:
  assumes "validate_target env now target channel m = Inr ()"
  shows "for_version env target = channel" "re_show env target = mf_version m"
    "re_less env target now \<or> channel = Nightly \<Longrightarrow> mf_data_compatibility m = Some current_compatibility"
  using assms by (auto simp: validate_target_def split: if_splits)

lemma downloaded:
  assumes "download_package env p limit response = Inr archive"
  shows "length archive = unat (pk_size p)" "eq_ignore_ascii_case (hex_digest (re_sha256 env archive)) (pk_sha256 p)"
    "pk_size p \<le> limit"
proof -
  obtain cs k where "receive_chunks (pk_size p) cs 0 [] = Inr (k, archive)" "k = pk_size p"
    "eq_ignore_ascii_case (hex_digest (re_sha256 env archive)) (pk_sha256 p)" "pk_size p \<le> limit"
    using assms by (auto simp: download_package_def not_less elim!: attempt_InrE split: if_splits prod.splits)
  then show "length archive = unat (pk_size p)" "eq_ignore_ascii_case (hex_digest (re_sha256 env archive)) (pk_sha256 p)"
    "pk_size p \<le> limit" using receive_chunks_Inr [of "pk_size p" cs 0 "[]" k archive] by simp_all
qed

text \<open>C8: Only what the release keys signed is installed. An archive handed to the updater has exactly the size and
  digest of a server package listed in a manifest that enough distinct keys of a root signed,
  and that root descends from the built-in one by rotations each signed by a quorum of the
  old and of the new keys; it is older than the running build only on a switch of channels and
  with the same data format.\<close>

theorem installed_package_signed:
  assumes "install_archive env hops ie request saved = (saved', Inr (p, archive))"
  shows "\<exists>r e m now target channel. trusted env r \<and> 0 < tr_threshold r \<and> quorum env r ''manifest'' e
    \<and> re_manifest env (en_payload e) = Some m \<and> p \<in> set (mf_packages m) \<and> pk_component p = ''server''
    \<and> length archive = unat (pk_size p)
    \<and> eq_ignore_ascii_case (hex_digest (re_sha256 env archive)) (pk_sha256 p)
    \<and> ie_channel ie = Inr channel \<and> re_version env (ie_running ie) = Some now
    \<and> re_version env (pk_version p) = Some target \<and> re_show env target = mf_version m
    \<and> for_version env target = channel
    \<and> (re_less env now target \<or> for_version env now \<noteq> channel)
    \<and> (re_less env target now \<longrightarrow> mf_data_compatibility m = Some current_compatibility)"
proof -
  obtain channel where ch: "ie_channel ie = Inr channel"
    using assms by (auto simp: install_archive_def split: sum.splits)
  obtain m where fetched: "fetch_manifest_from env hops (manifest_url channel) ''server'' (re_version env (ie_running ie)) saved
      = (saved', Inr m)"
    using assms ch by (auto simp: install_archive_def split: prod.splits if_splits elim!: attempt_InrE)
  obtain st where st: "status_for_manifest env (ie_running ie) (ie_platform ie) (ie_managed ie) m channel = Inr st"
    "us_update_available st" "us_can_auto_update st"
    "Option.bind (us_platform st) (\<lambda>q. find_package env m ''server'' (Some q) None) = Some p"
    "download_package env p MAX_UPDATE_PACKAGE_BYTES (ie_response ie) = Inr archive"
    using assms ch fetched
    by (auto simp: install_archive_def split: prod.splits if_splits elim!: attempt_InrE)
  have "us_platform st = ie_platform ie"
    using st(1) by (auto simp: status_for_manifest_def Let_def elim!: attempt_InrE)
  with st obtain now target where v: "re_version env (ie_running ie) = Some now"
    "re_version env (pk_version p) = Some target" "validate_target env now target channel m = Inr ()"
    "update_available env now target channel"
    using status_capable [OF st(1,3,2)] by metis
  obtain r e where r: "trusted env r" "quorum env r ''manifest'' e" "re_manifest env (en_payload e) = Some m"
    using fetched_signed fetched unfolding fetch_manifest_from_def by blast
  have "p \<in> set (mf_packages m)" "pk_component p = ''server''"
    using st(4) by (auto simp: find_package_def Option.bind_eq_Some_conv dest!: find_Some_in)
  then show ?thesis
    using r trusted_threshold [OF r(1)] downloaded [OF st(5)] ch v validated [OF v(3)]
    unfolding update_available_def by blast
qed

section \<open>Trust only moves forward\<close>

lemma rotations_length: "length (tr_rotations (rotate_root env es r)) \<le> length (tr_rotations r) + length es"
proof (induction es rule: rev_induct)
  case (snoc e es)
  have "length (tr_rotations (follow_rotation env e q)) \<le> length (tr_rotations q) + 1" for q
    by (auto simp: follow_rotation_def split: option.splits sum.splits)
  then show ?case using snoc by (simp add: rotate_snoc) (meson le_trans Suc_leI le_imp_less_Suc Suc_le_mono)
qed (simp add: rotate_root_def)

text \<open>A history of manifests, each with its text, whether the file could be read and how writing it went.\<close>

type_synonym check = "string \<times> bool \<times> write_outcome"

definition carried :: "'v release_env \<Rightarrow> check \<Rightarrow> nat" where
  "carried env c = (case re_envelope env (fst c) of None \<Rightarrow> 0 | Some e \<Rightarrow> length (en_roots e))"

text \<open>The roots and envelopes behind the manifests that were accepted, in order.\<close>

fun accepted_manifests ::
  "'v release_env \<Rightarrow> trusted_root \<Rightarrow> envelope list \<Rightarrow> check list \<Rightarrow> (trusted_root \<times> envelope) list" where
  "accepted_manifests env b saved [] = []"
| "accepted_manifests env b saved ((bytes, readable, w) # cs) =
     (let (saved', r) = verify_manifest_remembering env readable w bytes saved in
      (case (r, re_envelope env bytes) of
         (Inr m, Some e) \<Rightarrow> [(rotate_root env (en_roots e) (rotate_root env saved b), e)]
       | _ \<Rightarrow> []) @ accepted_manifests env b saved' cs)"

text \<open>Whatever a check does to the file, the root it leads to only advances.\<close>

lemma saved_advances:
  assumes b: "built_in env = Inr b"
    and small: "length saved + carried env (bytes, readable, w) + 1 < 2 ^ 64"
    and step: "verify_manifest_remembering env readable w bytes saved = (saved', r)"
  shows "(succeeds env)\<^sup>*\<^sup>* (rotate_root env saved b) (rotate_root env saved' b)"
    and "length saved' \<le> length saved + carried env (bytes, readable, w)"
    and "r = Inr m \<Longrightarrow> re_envelope env bytes = Some e
       \<Longrightarrow> rotate_root env saved' b = rotate_root env (en_roots e) (rotate_root env saved b)"
proof -
  let ?c = "rotate_root env saved b"
  note base = built_in_fields [OF b]
  have version: "unat (tr_version ?c) \<le> 1 + length saved"
  proof -
    obtain n where "n \<le> length saved" "tr_version ?c = 1 + of_nat n" using rotate_version base by metis
    moreover have "unat (of_nat (Suc n) :: u64) \<le> Suc n"
      unfolding unat_of_nat by (rule mod_less_eq_dividend)
    ultimately show ?thesis by simp
  qed
  have kept: "saved' = saved \<or> (\<exists>e. re_envelope env bytes = Some e \<and> saved' = tr_rotations (rotate_root env (en_roots e) ?c))"
    using step b
    by (auto simp: verify_manifest_remembering_def Let_def verify_manifest_def
        split: if_splits prod.splits sum.splits option.splits)
  have replay: "rotate_root env (tr_rotations (rotate_root env es ?c)) b = rotate_root env es ?c" for es
    using rotations_replay [of b env "saved @ es"] base by (simp add: rotate_root_def)
  show "(succeeds env)\<^sup>*\<^sup>* ?c (rotate_root env saved' b)"
    using kept replay rotate_advances by (metis rtranclp.rtrancl_refl)
  show "length saved' \<le> length saved + carried env (bytes, readable, w)"
    using kept rotations_length [of env "saved @ _" b] base
    by (auto simp: carried_def rotate_root_def)
  show "rotate_root env saved' b = rotate_root env (en_roots e) ?c"
    if "r = Inr m" "re_envelope env bytes = Some e"
  proof -
    have "saved' = (if tr_version ?c < tr_version (rotate_root env (en_roots e) ?c)
        then tr_rotations (rotate_root env (en_roots e) ?c) else saved)"
      using remembering_Inr [of env readable w bytes saved saved' m] step that b by (metis Inr_inject option.inject)
    moreover have "unat (tr_version ?c) + length (en_roots e) < 2 ^ 64"
      using version small that(2) by (simp add: carried_def)
    ultimately show ?thesis using rotate_newer replay by metis
  qed
qed

lemma accepted_advance:
  assumes "built_in env = Inr b" "length saved + sum_list (map (carried env) cs) + 1 < 2 ^ 64"
  shows "(\<forall>(r, e) \<in> set (accepted_manifests env b saved cs).
            (succeeds env)\<^sup>*\<^sup>* (rotate_root env saved b) r \<and> quorum env r ''manifest'' e)
       \<and> sorted_wrt (\<lambda>p q. (succeeds env)\<^sup>*\<^sup>* (fst p) (fst q)) (accepted_manifests env b saved cs)"
  using assms(2)
proof (induction cs arbitrary: saved)
  case (Cons c cs)
  obtain bytes readable w where c: "c = (bytes, readable, w)" by (cases c)
  obtain saved' r where step: "verify_manifest_remembering env readable w bytes saved = (saved', r)" by fastforce
  have small: "length saved + carried env (bytes, readable, w) + 1 < 2 ^ 64" using Cons.prems c by simp
  note adv = saved_advances [OF assms(1) small step]
  have IH: "(\<forall>(r, e) \<in> set (accepted_manifests env b saved' cs).
            (succeeds env)\<^sup>*\<^sup>* (rotate_root env saved' b) r \<and> quorum env r ''manifest'' e)
       \<and> sorted_wrt (\<lambda>p q. (succeeds env)\<^sup>*\<^sup>* (fst p) (fst q)) (accepted_manifests env b saved' cs)"
    by (rule Cons.IH) (use Cons.prems adv(2) c in simp)
  have rest: "(succeeds env)\<^sup>*\<^sup>* (rotate_root env saved b) q \<and> quorum env q ''manifest'' e"
    if "(q, e) \<in> set (accepted_manifests env b saved' cs)" for q e
    using IH that adv(1) by (fastforce intro: rtranclp_trans)
  show ?case
  proof (cases "\<exists>m e. r = Inr m \<and> re_envelope env bytes = Some e")
    case True
    then obtain m e where m: "r = Inr m" "re_envelope env bytes = Some e" by blast
    let ?r = "rotate_root env (en_roots e) (rotate_root env saved b)"
    have "quorum env ?r ''manifest'' e"
      using remembering_Inr [of env readable w bytes saved saved' m] step m assms(1)
      by (metis Inr_inject option.inject)
    moreover have "(succeeds env)\<^sup>*\<^sup>* (rotate_root env saved b) ?r" by (rule rotate_advances)
    moreover have "\<forall>p \<in> set (accepted_manifests env b saved' cs). (succeeds env)\<^sup>*\<^sup>* ?r (fst p)"
      using IH unfolding adv(3) [OF m] by (auto simp: case_prod_beta)
    moreover have "accepted_manifests env b saved (c # cs) = (?r, e) # accepted_manifests env b saved' cs"
      using step m c by simp
    ultimately show ?thesis using IH rest by (auto simp del: accepted_manifests.simps)
  next
    case False
    then have "accepted_manifests env b saved (c # cs) = accepted_manifests env b saved' cs"
      using step c by (auto split: sum.splits option.splits)
    then show ?thesis using IH rest by (auto simp del: accepted_manifests.simps)
  qed
qed simp

text \<open>C9: A retired release key stays retired. Over any history of manifest checks, whichever feeds answer and
  whichever writes of the saved rotations fail, the roots under which manifests are accepted
  only move along signed rotations: a manifest accepted later is signed by a quorum of a root that
  descends from every root accepted before.\<close>

theorem trust_only_moves_forward:
  assumes "built_in env = Inr b" "sum_list (map (carried env) checks) + 1 < 2 ^ 64"
  shows "sorted_wrt (\<lambda>(r, _) (r', _). (succeeds env)\<^sup>*\<^sup>* r r') (accepted_manifests env b [] checks)
    \<and> list_all (\<lambda>(r, e). (succeeds env)\<^sup>*\<^sup>* b r \<and> quorum env r ''manifest'' e) (accepted_manifests env b [] checks)"
  using accepted_advance [OF assms(1), of "[]" checks] assms(2)
  by (simp add: list_all_iff case_prod_beta' rotate_root_def)

section \<open>Examples\<close>

text \<open>
  A toy of the libraries: a text decodes to copies of its first character, 32 of them when it has the length
  of a key; the digest of a key is its first byte and that of an archive the archive; a signature
  starts with its key. The first manifest carries a rotation to a second root.
\<close>

definition ex_old_key :: string where
  "ex_old_key = replicate 32 CHR ''F''"

definition ex_new_key :: string where
  "ex_new_key = replicate 32 CHR ''k''"

definition ex_signed :: "string \<Rightarrow> string \<times> ustr" where
  "ex_signed key = (hex_digest [hd key], cps [hd key])"

definition ex_archive :: string where
  "ex_archive = replicate 32 CHR 0x00"

definition ex_package :: package where
  "ex_package = \<lparr>pk_component = ''server'', pk_platform = ''linux-x64'', pk_version = ''2'', pk_url = ''https://x/2'',
     pk_sha256 = replicate 64 CHR ''0'', pk_size = 32, pk_format = ''zip'', pk_root = ''opera'', pk_protocol = None\<rparr>"

definition ex_manifest :: manifest where
  "ex_manifest = \<lparr>mf_kind = ''manifest'', mf_schema = 1, mf_version = ''2'', mf_data_compatibility = None,
     mf_stable_version = None, mf_notice = None, mf_redirect = None, mf_bridges = [], mf_packages = [ex_package]\<rparr>"

definition ex_release :: "int release_env" where
  "ex_release =
     \<lparr>re_base64 = (\<lambda>u. Some (replicate (if length u = 44 then 32 else 64) (char_of (uint (hd u))))),
      re_key_ok = (\<lambda>_. True), re_sha256 = (\<lambda>s. if hd s = CHR 0x00 then s else [hd s]), re_valid = (\<lambda>key msg sig. take 32 sig = key),
      re_envelope = (\<lambda>b.
        if b = ''M'' then Some (Envelope ''P'' [ex_signed ex_new_key]
          [Envelope ''R'' [ex_signed ex_old_key, ex_signed ex_new_key] []])
        else if b = ''N'' then Some (Envelope ''P'' [ex_signed ex_new_key] []) else None),
      re_root = (\<lambda>p. if p = ''R'' then Some \<lparr>rp_kind = ''root'', rp_version = 2, rp_threshold = 1,
          rp_keys = [(hex_digest [hd ex_new_key], replicate 44 (cp (hd ex_new_key)))]\<rparr> else None),
      re_manifest = (\<lambda>p. if p = ''P'' then Some ex_manifest else None),
      re_version = (\<lambda>s. if s = ''1'' then Some 1 else if s = ''2'' then Some 2 else None),
      re_less = (<), re_pre = (\<lambda>_. []), re_show = (\<lambda>n. if n = 1 then ''1'' else ''2'')\<rparr>"

definition ex_hops :: "nat \<Rightarrow> hop" where
  "ex_hops n = \<lparr>hp_net = (\<lambda>_. Inr ''M''), hp_readable = True, hp_write = Written\<rparr>"

definition ex_install :: install_env where
  "ex_install = \<lparr>ie_channel = Inr Stable, ie_running = ''1'', ie_platform = Some ''linux-x64'', ie_managed = Inr (),
     ie_writable = Inr (), ie_response = Inr (Some 32, [take 20 ex_archive, drop 20 ex_archive])\<rparr>"

definition ex_rotation :: envelope where
  "ex_rotation = Envelope ''R'' [ex_signed ex_old_key, ex_signed ex_new_key] []"

lemma ex_installs:
  "install_archive ex_release ex_hops ex_install \<lparr>ir_channel = None, ir_version = None\<rparr> []
     = ([ex_rotation], Inr (ex_package, ex_archive))"
  by code_simp

theorem installed_package_signed_witness:
  "\<exists>r e. trusted ex_release r \<and> quorum ex_release r ''manifest'' e \<and> re_manifest ex_release (en_payload e) = Some ex_manifest
     \<and> length ex_archive = unat (pk_size ex_package)"
proof -
  have "re_manifest ex_release p = Some m \<Longrightarrow> m = ex_manifest" for p m
    by (simp add: ex_release_def split: if_splits)
  then show ?thesis using installed_package_signed [OF ex_installs] by metis
qed

definition ex_checks :: "check list" where
  "ex_checks = [(''M'', True, Written), (''N'', True, Written)]"

lemma ex_accepted:
  "(case built_in ex_release of Inl _ \<Rightarrow> False
    | Inr b \<Rightarrow> map (tr_version \<circ> fst) (accepted_manifests ex_release b [] ex_checks) = [2, 2])
   \<and> sum_list (map (carried ex_release) ex_checks) = 1"
  by code_simp

theorem trust_only_moves_forward_witness:
  "\<exists>b p q. built_in ex_release = Inr b \<and> accepted_manifests ex_release b [] ex_checks = [p, q]
     \<and> (succeeds ex_release)\<^sup>*\<^sup>* (fst p) (fst q) \<and> tr_version (fst q) = 2"
proof -
  obtain b where b: "built_in ex_release = Inr b"
    "map (tr_version \<circ> fst) (accepted_manifests ex_release b [] ex_checks) = [2, 2]"
    using ex_accepted by (auto split: sum.splits)
  then obtain p q where pq: "accepted_manifests ex_release b [] ex_checks = [p, q]" "tr_version (fst q) = 2"
    by (auto simp: map_eq_Cons_conv)
  have "sum_list (map (carried ex_release) ex_checks) + 1 < 2 ^ 64" using ex_accepted by simp
  from trust_only_moves_forward [OF b(1) this] have "(succeeds ex_release)\<^sup>*\<^sup>* (fst p) (fst q)"
    by (simp add: pq case_prod_beta')
  then show ?thesis using b(1) pq by blast
qed

end
