(* ===== verification/Labels.thy ===== *)
theory Labels
  imports Text
begin

text \<open>
  Reading chapter labels (\<open>alignment.rs\<close>): a label becomes a number, the series the number belongs to
  and a normalized title, however a publisher or a narrator writes it. Labels are lists of
  scalar values; a byte offset of the code is an index of the list. The Unicode tables are parameters.
\<close>

section \<open>Characters\<close>

definition u_digit :: "uchar \<Rightarrow> bool" where
  "u_digit c \<longleftrightarrow> 48 \<le> c \<and> c \<le> 57"

definition u_alpha :: "uchar \<Rightarrow> bool" where
  "u_alpha c \<longleftrightarrow> 65 \<le> c \<and> c \<le> 90 \<or> 97 \<le> c \<and> c \<le> 122"

definition u_alnum :: "uchar \<Rightarrow> bool" where
  "u_alnum c \<longleftrightarrow> u_digit c \<or> u_alpha c"

definition u_lower :: "uchar \<Rightarrow> uchar" where
  "u_lower c = (if 65 \<le> c \<and> c \<le> 90 then c + 32 else c)"

definition ascii_lowercase :: "ustr \<Rightarrow> ustr" where
  "ascii_lowercase s = map u_lower s"

definition has_sub :: "ustr \<Rightarrow> ustr \<Rightarrow> bool" where
  "has_sub p s \<longleftrightarrow> find_sub p s \<noteq> None"

text \<open>\<open>str::rfind\<close> and \<open>str::rsplit_once\<close>.\<close>

fun rfind_sub :: "'a list \<Rightarrow> 'a list \<Rightarrow> nat option" where
  "rfind_sub p [] = (if p = [] then Some 0 else None)"
| "rfind_sub p (x # xs) =
     (case rfind_sub p xs of
        Some i \<Rightarrow> Some (Suc i)
      | None \<Rightarrow> if take (length p) (x # xs) = p then Some 0 else None)"

definition rsplit_once :: "uchar \<Rightarrow> ustr \<Rightarrow> (ustr \<times> ustr) option" where
  "rsplit_once c s = map_option (\<lambda>i. (take i s, drop (i + 1) s)) (rfind_sub [c] s)"

definition trim_start :: "ustr \<Rightarrow> ustr" where
  "trim_start s = dropWhile is_whitespace s"

definition trim_end_by :: "('a \<Rightarrow> bool) \<Rightarrow> 'a list \<Rightarrow> 'a list" where
  "trim_end_by P s = rev (dropWhile P (rev s))"

section \<open>Titles\<close>

text \<open>The output so far and whether it ends in a space.\<close>

definition normalize_char :: "ustr \<times> bool \<Rightarrow> uchar \<Rightarrow> ustr \<times> bool" where
  "normalize_char st c =
     (let (out, spaced) = st in
      if c = 8217 \<or> c = cp CHR 0x27 then (out, spaced)
      else if c = cp CHR ''&''
      then (out @ (if spaced then [] else [32]) @ cps ''and '', True)
      else if u_alnum c then (out @ [c], False)
      else if \<not> spaced then (out @ [32], True)
      else (out, True))"

definition normalize_label_text :: "unicode \<Rightarrow> ustr \<Rightarrow> ustr" where
  "normalize_label_text u value = trim (fst (foldl normalize_char ([], True) (to_lowercase u value)))"

definition label_separators :: ustr where
  "label_separators = cps ''.:)-'' @ [8211, 8212]"

abbreviation is_separator :: "uchar \<Rightarrow> bool" where
  "is_separator c \<equiv> c \<in> set label_separators"

text \<open>A trailing or leading separator run, with the blanks around it.\<close>

definition after_separators :: "ustr \<Rightarrow> ustr" where
  "after_separators s = trim_start (dropWhile is_separator s)"

definition strip_separator :: "ustr \<Rightarrow> ustr option" where
  "strip_separator s = (case s of c # r \<Rightarrow> if is_separator c then Some r else None | [] \<Rightarrow> None)"

section \<open>Numbers\<close>

definition digits_value :: "ustr \<Rightarrow> nat" where
  "digits_value s = foldl (\<lambda>n c. 10 * n + (unat c - 48)) 0 s"

text \<open>A run of digits, which fits in 32 bits or is no number.\<close>

definition parse_chapter_number :: "ustr \<Rightarrow> u32 option" where
  "parse_chapter_number digits =
     (let significant = dropWhile (\<lambda>c. c = 48) digits in
      if significant = [] then Some 0
      else if digits_value significant < 2 ^ 32 then Some (of_nat (digits_value significant)) else None)"

definition roman_table :: "(nat \<times> string) list" where
  "roman_table =
     [(1000, ''M''), (900, ''CM''), (500, ''D''), (400, ''CD''), (100, ''C''), (90, ''XC''), (50, ''L''),
      (40, ''XL''), (10, ''X''), (9, ''IX''), (5, ''V''), (4, ''IV''), (1, ''I'')]"

text \<open>One row of the table: its letters as often as its amount fits.\<close>

definition roman_numeral :: "nat \<Rightarrow> string" where
  "roman_numeral value =
     snd (foldl (\<lambda>(n, out) (amount, letters). (n mod amount, out @ concat (replicate (n div amount) letters)))
       (value, []) roman_table)"

definition roman_digit :: "uchar \<Rightarrow> int" where
  "roman_digit c =
     (if c = cp CHR ''I'' then 1 else if c = cp CHR ''V'' then 5 else if c = cp CHR ''X'' then 10
      else if c = cp CHR ''L'' then 50 else if c = cp CHR ''C'' then 100 else if c = cp CHR ''D'' then 500
      else 1000)"

definition fits_i64 :: "int \<Rightarrow> bool" where
  "fits_i64 n \<longleftrightarrow> - (2 ^ 63) \<le> n \<and> n < 2 ^ 63"

fun roman_total :: "int \<Rightarrow> ustr \<Rightarrow> int option" where
  "roman_total n [] = Some n"
| "roman_total n (c # r) =
     (let v = roman_digit c;
          following = (case r of [] \<Rightarrow> 0 | d # _ \<Rightarrow> roman_digit d);
          n' = (if v < following then n - v else n + v)
      in if fits_i64 n' then roman_total n' r else None)"

definition parse_roman_numeral :: "ustr \<Rightarrow> u32 option" where
  "parse_roman_numeral token =
     (if token = [] \<or> \<not> list_all (\<lambda>c. c \<in> set (cps ''IVXLCDM'')) token then None
      else case roman_total 0 token of
        None \<Rightarrow> None
      | Some n \<Rightarrow>
          if 0 < n \<and> n \<le> 200 \<and> cps (roman_numeral (nat n)) = token then Some (word_of_int n) else None)"

definition number_units :: "string list" where
  "number_units =
     [''zero'', ''one'', ''two'', ''three'', ''four'', ''five'', ''six'', ''seven'', ''eight'', ''nine'', ''ten'',
      ''eleven'', ''twelve'', ''thirteen'', ''fourteen'', ''fifteen'', ''sixteen'', ''seventeen'', ''eighteen'',
      ''nineteen'']"

definition number_tens :: "(string \<times> nat) list" where
  "number_tens =
     [(''twenty'', 20), (''thirty'', 30), (''forty'', 40), (''fifty'', 50), (''sixty'', 60), (''seventy'', 70),
      (''eighty'', 80), (''ninety'', 90)]"

definition parse_number_words :: "ustr \<Rightarrow> nat option" where
  "parse_number_words token =
     (case position (\<lambda>w. cps w = token) number_units of
        Some n \<Rightarrow> Some n
      | None \<Rightarrow>
          (let (tens, unit_word) = (case split_once (cp CHR ''-'') token of
                 Some (t, r) \<Rightarrow> (t, Some r) | None \<Rightarrow> (token, None))
           in case List.find (\<lambda>(w, _). cps w = tens) number_tens of
                None \<Rightarrow> None
              | Some (_, v) \<Rightarrow>
                  (case unit_word of
                     None \<Rightarrow> Some v
                   | Some r \<Rightarrow>
                       map_option (\<lambda>k. v + k + 1)
                         (position (\<lambda>w. cps w = r) (take 9 (drop 1 number_units))))))"

text \<open>
  A number at the start of a text and how many characters it takes: digits, a roman
  numeral, or words, two of them joined by a blank first. \<open>alphabetic\<close> is the Unicode class.
\<close>

definition parse_number_token :: "(uchar \<Rightarrow> bool) \<Rightarrow> ustr \<Rightarrow> (u32 \<times> nat) option" where
  "parse_number_token alphabetic value =
     (let digits = takeWhile u_digit value in
      if digits \<noteq> [] then map_option (\<lambda>n. (n, length digits)) (parse_chapter_number digits)
      else
        (let token = takeWhile (\<lambda>c. alphabetic c \<or> c = cp CHR ''-'') value;
             rest = drop (length token) value in
         if token = [] then None
         else case parse_roman_numeral token of
           Some n \<Rightarrow> Some (n, length token)
         | None \<Rightarrow>
             (let second = (case rest of c # r \<Rightarrow> if c = 32 then takeWhile alphabetic r else [] | [] \<Rightarrow> []);
                  both = (if second = [] then None
                    else parse_number_words (ascii_lowercase token @ cp CHR ''-'' # ascii_lowercase second))
              in case both of
                   Some n \<Rightarrow> Some (of_nat n, length token + 1 + length second)
                 | None \<Rightarrow> map_option (\<lambda>n. (of_nat n, length token)) (parse_number_words (ascii_lowercase token)))))"

text \<open>
  A token such as \<open>I-3\<close> standing alone: its letters in lower case, its number and its range.
  \<open>prev\<close> tells whether the character before the rest is alphanumeric, \<open>at\<close> where the rest starts.
\<close>

function find_series :: "bool \<Rightarrow> nat \<Rightarrow> ustr \<Rightarrow> (ustr \<times> u32 \<times> nat \<times> nat) option" where
  "find_series prev start [] = None"
| "find_series prev start (c # r) =
     (if \<not> u_alpha c then find_series (u_alnum c) (start + 1) r
      else
        (let letters = takeWhile u_alpha (c # r);
             after = drop (length letters) (c # r);
             digits = takeWhile u_digit (drop 1 after);
             rest = drop (1 + length digits) after;
             number =
               (if length letters \<le> 3 \<and> \<not> prev \<and> after \<noteq> [] \<and> hd after = cp CHR ''-''
                   \<and> digits \<noteq> [] \<and> (rest = [] \<or> \<not> u_alnum (hd rest))
                then parse_chapter_number digits else None)
         in case number of
              Some n \<Rightarrow>
                Some (ascii_lowercase letters, n, start, start + length letters + 1 + length digits)
            | None \<Rightarrow>
                find_series True (start + length letters + length (takeWhile u_alnum after)) (dropWhile u_alnum after)))"
  by pat_completeness auto

termination
proof (relation "measure (\<lambda>(prev, start, s). length s)", goal_cases)
  case (3 prev start c r letters after digits rest number)
  then have "length (dropWhile u_alnum after) \<le> length after" "length after \<le> length r"
    by (simp_all only: length_dropWhile_le) simp
  then show ?case by simp
qed simp_all

definition find_series_number :: "ustr \<Rightarrow> (ustr \<times> u32 \<times> nat \<times> nat) option" where
  "find_series_number value = find_series False 0 value"

section \<open>Labels\<close>

record parsed_label =
  lb_number :: "u32 option"
  lb_series :: ustr
  lb_key :: ustr
  lb_leaf :: "ustr option"

text \<open>\<open>Interlude I-3: Kaza\<close> and \<open>I-3. Kaza\<close>.\<close>

definition series_label :: "unicode \<Rightarrow> ustr \<Rightarrow> ustr option \<Rightarrow> parsed_label option" where
  "series_label u value leaf =
     map_option (\<lambda>(series, n, start, stop).
       \<lparr>lb_number = Some n, lb_series = series,
        lb_key = normalize_label_text u
          (trim_end_by is_whitespace (trim_end_by is_separator (trim_end_by is_whitespace (take start value)))
             @ 32 # after_separators (trim_start (drop stop value))),
        lb_leaf = leaf\<rparr>)
     (find_series_number value)"

text \<open>\<open>Interludes: Interlude 3: A Visitor\<close>.\<close>

definition interlude_label ::
  "unicode \<Rightarrow> (uchar \<Rightarrow> bool) \<Rightarrow> ustr \<Rightarrow> ustr option \<Rightarrow> parsed_label option" where
  "interlude_label u alphabetic value leaf =
     (case rfind_sub (cps ''interlude '') (ascii_lowercase value) of
        None \<Rightarrow> None
      | Some start \<Rightarrow>
          if start \<noteq> 0 \<and> u_alnum (ascii_lowercase value ! (start - 1)) then None
          else (case parse_number_token alphabetic (drop (start + 10) value) of
                  None \<Rightarrow> None
                | Some (n, consumed) \<Rightarrow>
                    (let rest = trim_start (drop (start + 10 + consumed) value) in
                     if rest = [] \<or> is_separator (hd rest)
                     then Some \<lparr>lb_number = Some n, lb_series = cps ''i'',
                                lb_key = normalize_label_text u (after_separators rest), lb_leaf = leaf\<rparr>
                     else None)))"

text \<open>The number and the remainder of a label with, or without, a chapter prefix.\<close>

definition chapter_prefix :: "ustr \<Rightarrow> (nat \<times> nat) option" where
  "chapter_prefix lower =
     (case find_sub (cps ''chapter '') lower of
        Some start \<Rightarrow> Some (start, 8)
      | None \<Rightarrow>
          if strip_prefix (cps ''ch. '') lower \<noteq> None then Some (0, 4)
          else if strip_prefix (cps ''ch '') lower \<noteq> None then Some (0, 3) else None)"

definition prefixed_number :: "(uchar \<Rightarrow> bool) \<Rightarrow> ustr \<Rightarrow> nat \<Rightarrow> u32 option \<times> ustr" where
  "prefixed_number alphabetic value start =
     (let after = drop start value in
      case parse_number_token alphabetic after of
        None \<Rightarrow> (None, value)
      | Some (n, consumed) \<Rightarrow> (Some n, after_separators (trim_start (drop consumed after))))"

definition leading_number :: "(uchar \<Rightarrow> bool) \<Rightarrow> ustr \<Rightarrow> u32 option \<times> ustr" where
  "leading_number alphabetic value =
     (let trimmed = trim_start value in
      case parse_number_token alphabetic trimmed of
        None \<Rightarrow> (None, value)
      | Some (n, consumed) \<Rightarrow>
          (let tail = drop consumed trimmed; rest = trim_start tail in
           if rest = [] then (Some n, [])
           else if u_digit (hd trimmed) \<and> tail \<noteq> [] \<and> is_whitespace (hd tail) then (Some n, after_separators rest)
           else case strip_separator rest of
             Some r \<Rightarrow> (Some n, trim_start r)
           | None \<Rightarrow> (None, value)))"

text \<open>\<open>Part Four: A Knowledge: 74. A Symbol\<close>.\<close>

definition nested_number :: "(uchar \<Rightarrow> bool) \<Rightarrow> ustr \<Rightarrow> (u32 \<times> ustr) option" where
  "nested_number alphabetic value =
     (case rsplit_once (cp CHR '':'') value of
        None \<Rightarrow> None
      | Some (_, t) \<Rightarrow>
          (let tail = trim_start t in
           case parse_number_token alphabetic tail of
             None \<Rightarrow> None
           | Some (n, consumed) \<Rightarrow>
               map_option (\<lambda>r. (n, trim_start r)) (strip_separator (trim_start (drop consumed tail)))))"

definition without_interlude :: "ustr \<Rightarrow> ustr" where
  "without_interlude s =
     (if strip_prefix (cps ''interlude '') (ascii_lowercase s) \<noteq> None
         \<or> strip_prefix (cps ''interlude:'') (ascii_lowercase s) \<noteq> None
      then trim_start (drop 10 s) else s)"

definition part_number :: "(uchar \<Rightarrow> bool) \<Rightarrow> ustr \<Rightarrow> (u32 \<times> ustr) option" where
  "part_number alphabetic value =
     (if strip_prefix (cps ''part '') (ascii_lowercase value) = None then None
      else case parse_number_token alphabetic (drop 5 value) of
        None \<Rightarrow> None
      | Some (n, consumed) \<Rightarrow>
          (let rest = trim_start (drop (5 + consumed) value) in
           if rest = [] \<or> is_separator (hd rest) then Some (n, after_separators rest) else None))"

definition parse_label :: "unicode \<Rightarrow> (uchar \<Rightarrow> bool) \<Rightarrow> ustr \<Rightarrow> parsed_label" where
  "parse_label u alphabetic value =
     (let lower = ascii_lowercase value;
          leaf = map_option (\<lambda>(_, t). normalize_label_text u t) (rsplit_once (cp CHR '':'') value);
          early = (if has_sub (cps ''chapter '') lower then None
            else case series_label u value leaf of
              Some l \<Rightarrow> Some l
            | None \<Rightarrow> interlude_label u alphabetic value leaf)
      in case early of
           Some l \<Rightarrow> l
         | None \<Rightarrow>
             (let (n1, r1) = (case chapter_prefix lower of
                    Some (start, k) \<Rightarrow> prefixed_number alphabetic value (start + k)
                  | None \<Rightarrow> leading_number alphabetic value);
                  (n2, r2) = (if n1 \<noteq> None then (n1, r1)
                    else case nested_number alphabetic value of
                      Some (n, r) \<Rightarrow> (Some n, r) | None \<Rightarrow> (n1, r1));
                  r3 = without_interlude r2;
                  (n4, series, r4) = (if n2 \<noteq> None then (n2, [], r3)
                    else case part_number alphabetic value of
                      Some (n, r) \<Rightarrow> (Some n, cps ''part'', r) | None \<Rightarrow> (n2, [], r3))
              in \<lparr>lb_number = n4, lb_series = series, lb_key = normalize_label_text u r4, lb_leaf = leaf\<rparr>))"

section \<open>How well two labels match\<close>

definition ends_with :: "'a list \<Rightarrow> 'a list \<Rightarrow> bool" where
  "ends_with p s \<longleftrightarrow> length p \<le> length s \<and> drop (length s - length p) s = p"

definition leaf_matches :: "parsed_label \<Rightarrow> parsed_label \<Rightarrow> bool" where
  "leaf_matches a b \<longleftrightarrow> (case lb_leaf a of None \<Rightarrow> False | Some l \<Rightarrow> l \<noteq> [] \<and> l = lb_key b)"

definition long_words :: "ustr \<Rightarrow> ustr list" where
  "long_words key = filter (\<lambda>w. 3 < length w) (split_on 32 key)"

definition label_match_score :: "parsed_label \<Rightarrow> parsed_label \<Rightarrow> nat" where
  "label_match_score target item =
     (if lb_number target \<noteq> None \<and> lb_number target = lb_number item \<and> lb_series target = lb_series item
      then 100 else 0)
     + (let a = lb_key target; b = lb_key item in
        if a = [] \<or> b = [] then 0
        else if a = b \<or> leaf_matches target item \<or> leaf_matches item target then 80
        else if ends_with (32 # b) a \<and> 8 \<le> length b then 80
        else if has_sub b a \<or> has_sub a b then 45
        else min (length (filter (\<lambda>w. w \<in> set (long_words a)) (long_words b)) * 10) 35)"

lemma unat_word_of_int_small: "0 \<le> t \<Longrightarrow> t \<le> 200 \<Longrightarrow> unat (word_of_int t :: u32) = nat t"
  by (simp add: unsigned_of_int take_bit_int_eq_self)

lemma label_match_score_le: "label_match_score target item \<le> 180"
  by (auto simp: label_match_score_def Let_def intro: le_trans [OF min.cobounded2])

text \<open>The numerals of integers, for evaluation.\<close>

definition roman_of_int :: "int \<Rightarrow> string" where
  "roman_of_int value =
     snd (foldl (\<lambda>(n, out) (amount, letters). (n mod int amount, out @ concat (replicate (nat (n div int amount)) letters)))
       (value, []) roman_table)"

lemma roman_of_int: "roman_of_int (int n) = roman_numeral n"
proof -
  have "foldl (\<lambda>(n, out) (amount, letters). (n mod int amount, out @ concat (replicate (nat (n div int amount)) letters)))
        (int n, out) table
      = map_prod int id (foldl (\<lambda>(n, out) (amount, letters). (n mod amount, out @ concat (replicate (n div amount) letters)))
        (n, out) table)" for out :: string and table
    by (induction table arbitrary: n out) (auto simp: zmod_int [symmetric] zdiv_int [symmetric])
  then show ?thesis by (simp add: roman_of_int_def roman_numeral_def)
qed

definition roman_letter :: "char \<Rightarrow> int" where
  "roman_letter c =
     (if c = CHR ''I'' then 1 else if c = CHR ''V'' then 5 else if c = CHR ''X'' then 10
      else if c = CHR ''L'' then 50 else if c = CHR ''C'' then 100 else if c = CHR ''D'' then 500 else 1000)"

fun roman_sum :: "int \<Rightarrow> string \<Rightarrow> int" where
  "roman_sum n [] = n"
| "roman_sum n (c # r) =
     (let v = roman_letter c; following = (case r of [] \<Rightarrow> 0 | d # _ \<Rightarrow> roman_letter d)
      in roman_sum (if v < following then n - v else n + v) r)"

lemma roman_letter_digit: "c \<in> set ''IVXLCDM'' \<Longrightarrow> roman_digit (cp c) = roman_letter c"
  by (auto simp: roman_digit_def roman_letter_def cp_def)

lemma roman_letter_bound: "0 \<le> roman_letter c \<and> roman_letter c \<le> 1000"
  by (simp add: roman_letter_def)

lemma roman_total_sum:
  "\<bar>n\<bar> + 1000 * int (length s) < 2 ^ 63 \<Longrightarrow> set s \<subseteq> set ''IVXLCDM'' \<Longrightarrow> roman_total n (cps s) = Some (roman_sum n s)"
proof (induction n s rule: roman_sum.induct)
  case (2 n c r)
  let ?f = "case r of [] \<Rightarrow> 0 | d # _ \<Rightarrow> roman_letter d"
  let ?n = "if roman_letter c < ?f then n - roman_letter c else n + roman_letter c"
  have f: "(case cps r of [] \<Rightarrow> 0 | d # _ \<Rightarrow> roman_digit d) = ?f"
    using 2(3) by (cases r) (simp_all add: cps_def roman_letter_digit)
  have small: "\<bar>?n\<bar> + 1000 * int (length r) < 2 ^ 63" using 2(2) roman_letter_bound [of c] by (auto split: if_splits)
  then have "fits_i64 ?n" using roman_letter_bound [of c] by (simp only: fits_i64_def) linarith
  then show ?case
    using 2(1) [OF refl refl small] 2(3) f by (simp add: cps_def roman_letter_digit Let_def)
qed (simp add: cps_def)

lemma roman_table_read:
  "list_all (\<lambda>k. let s = roman_of_int k in
     list_all (\<lambda>c. c \<in> set ''IVXLCDM'') s \<and> s \<noteq> [] \<and> length s \<le> 20 \<and> roman_sum 0 s = k) [1..200]"
  by code_simp

text \<open>
  C40: \<open>parse_roman_numeral\<close> (\<open>alignment.rs\<close>) reads exactly the canonical upper-case numerals of 1 to 200,
  each as its own value, so words such as \<open>MIX\<close> or \<open>CIVIL\<close> and misspelt numerals never count as chapter numbers.
\<close>

theorem roman_numerals_canonical:
  "parse_roman_numeral token = Some n \<longleftrightarrow> 1 \<le> unat n \<and> unat n \<le> 200 \<and> token = cps (roman_numeral (unat n))"
proof
  assume "parse_roman_numeral token = Some n"
  then obtain t where t: "0 < t" "t \<le> 200" "cps (roman_numeral (nat t)) = token" "n = word_of_int t"
    by (auto simp: parse_roman_numeral_def split: if_splits option.splits)
  then have "unat n = nat t" by (simp add: unat_word_of_int_small)
  then show "1 \<le> unat n \<and> unat n \<le> 200 \<and> token = cps (roman_numeral (unat n))" using t by auto
next
  assume n: "1 \<le> unat n \<and> unat n \<le> 200 \<and> token = cps (roman_numeral (unat n))"
  let ?s = "roman_numeral (unat n)"
  have "int (unat n) \<in> set [1..200]" unfolding set_upto atLeastAtMost_iff using n by linarith
  then have read: "list_all (\<lambda>c. c \<in> set ''IVXLCDM'') ?s" "?s \<noteq> []" "length ?s \<le> 20" "roman_sum 0 ?s = int (unat n)"
    using roman_table_read unfolding list_all_iff roman_of_int [symmetric] Let_def by blast+
  have tok: "token = cps ?s" using n by blast
  have letters: "set ?s \<subseteq> set ''IVXLCDM''" using read(1) unfolding list_all_iff by blast
  have "\<bar>0 :: int\<bar> + 1000 * int (length ?s) < 2 ^ 63" using read(3) by simp
  then have "roman_total 0 token = Some (int (unat n))" using roman_total_sum [OF _ letters] read(4) unfolding tok by metis
  moreover have "list_all (\<lambda>c. c \<in> set (cps ''IVXLCDM'')) token"
    unfolding tok list_all_iff cps_def set_map using letters by blast
  moreover have "token \<noteq> []" using read(2) unfolding tok cps_def by simp
  moreover have "0 < uint n \<and> uint n \<le> 200"
  proof -
    have "uint n = int (unat n)" by simp
    then show ?thesis using n by linarith
  qed
  ultimately show "parse_roman_numeral token = Some n"
    using n by (simp only: parse_roman_numeral_def if_False option.case nat_int) (simp add: tok)
qed

end
