(* ===== verification/ChapterMatch.thy ===== *)
theory ChapterMatch
  imports Labels "HOL-Library.Sublist"
begin

text \<open>
  Matching audio to text (\<open>alignment.rs\<close>): the longest chain of recognized words that stays in
  reading order, the alignment of two lists of chapter labels by dynamic programming, and the
  scopes of a book whose tracks are its chapters. Each optimised loop is shown to reach the
  optimum it stands for.
\<close>

section \<open>The longest increasing chain\<close>

text \<open>\<open>slice::partition_point\<close> on a slice its predicate divides in two.\<close>

definition partition_point :: "('a \<Rightarrow> bool) \<Rightarrow> 'a list \<Rightarrow> nat" where
  "partition_point P xs = length (takeWhile P xs)"

text \<open>The index of the best chain end per length, and the predecessor of each index.\<close>

definition chain_step ::
  "(nat \<times> nat) list \<Rightarrow> nat list \<times> nat option list \<Rightarrow> nat \<Rightarrow> nat list \<times> nat option list" where
  "chain_step matches st index =
     (let (tails, previous) = st;
          word_index = snd (matches ! index);
          position = partition_point (\<lambda>tail. snd (matches ! tail) < word_index) tails;
          tails' = (if position = length tails then tails @ [index] else tails[position := index])
      in (tails', previous[index := (if 0 < position then Some (tails' ! (position - 1)) else None)]))"

partial_function (option) collect_chain ::
  "(nat \<times> nat) list \<Rightarrow> nat option list \<Rightarrow> nat option \<Rightarrow> (nat \<times> nat) list \<Rightarrow> (nat \<times> nat) list option" where
  "collect_chain matches previous cursor chain =
     (case cursor of
        None \<Rightarrow> Some (rev chain)
      | Some index \<Rightarrow> collect_chain matches previous (previous ! index) (chain @ [matches ! index]))"

declare collect_chain.simps [code]

definition longest_increasing_chain :: "(nat \<times> nat) list \<Rightarrow> (nat \<times> nat) list option" where
  "longest_increasing_chain matches =
     (let (tails, previous) = foldl (chain_step matches) ([], replicate (length matches) None) [0..<length matches]
      in collect_chain matches previous (if tails = [] then None else Some (last tails)) [])"

text \<open>The chain that ends at an index, read off the predecessors.\<close>

inductive trail :: "(nat \<times> nat) list \<Rightarrow> nat option list \<Rightarrow> nat \<Rightarrow> (nat \<times> nat) list \<Rightarrow> bool"
  for matches previous where
  trail_start: "previous ! i = None \<Longrightarrow> trail matches previous i [matches ! i]"
| trail_next: "previous ! i = Some j \<Longrightarrow> j < i \<Longrightarrow> trail matches previous j ps \<Longrightarrow> trail matches previous i (ps @ [matches ! i])"

abbreviation rising :: "(nat \<times> nat) list \<Rightarrow> bool" where
  "rising ps \<equiv> sorted_wrt (\<lambda>a b. snd a < snd b) ps"

lemma trail_collect:
  "trail matches previous i ps \<Longrightarrow> collect_chain matches previous (Some i) acc = Some (ps @ rev acc)"
proof (induction arbitrary: acc rule: trail.induct)
  case (trail_start i)
  then show ?case by (simp add: collect_chain.simps)
next
  case (trail_next i j ps)
  have "collect_chain matches previous (Some i) acc = collect_chain matches previous (Some j) (acc @ [matches ! i])"
    using trail_next.hyps(1) by (subst collect_chain.simps) simp
  then show ?case using trail_next.IH by simp
qed

lemma trail_agree:
  assumes "trail matches previous i ps" "\<forall>k \<le> i. previous' ! k = previous ! k"
  shows "trail matches previous' i ps"
  using assms
proof (induction rule: trail.induct)
  case (trail_next i j ps)
  then have "trail matches previous' j ps" by simp
  then show ?case using trail_next by (intro trail.trail_next) auto
qed (auto intro: trail.trail_start)

lemma trail_subseq:
  "trail matches previous i ps \<Longrightarrow> i < length matches
   \<Longrightarrow> subseq ps (take (Suc i) matches) \<and> ps \<noteq> [] \<and> last ps = matches ! i"
proof (induction rule: trail.induct)
  case (trail_start i)
  then show ?case by (auto simp: take_Suc_conv_app_nth intro: list_emb_append2)
next
  case (trail_next i j ps)
  then have "subseq ps (take (Suc j) matches)" by simp
  moreover have "prefix (take (Suc j) matches) (take i matches)"
    using trail_next.hyps(2) by (metis Suc_leI min.absorb1 take_is_prefix take_take)
  ultimately have "subseq ps (take i matches)" by (meson prefix_imp_subseq subseq_order.order_trans)
  then have "subseq (ps @ [matches ! i]) (take i matches @ [matches ! i])"
    by simp
  then show ?case using trail_next.prems by (simp add: take_Suc_conv_app_nth)
qed

text \<open>
  After \<open>k\<close> matches: the values at the tails rise, the tail of a length ends a chain of that length, and
  no chain of that length ends lower.
\<close>

definition tails_ok :: "(nat \<times> nat) list \<Rightarrow> nat \<Rightarrow> nat list \<times> nat option list \<Rightarrow> bool" where
  "tails_ok matches k st \<longleftrightarrow>
     (let (tails, previous) = st in
      length previous = length matches \<and> (\<forall>t \<in> set tails. t < k)
      \<and> sorted_wrt (\<lambda>a b. snd (matches ! a) < snd (matches ! b)) tails
      \<and> (\<forall>p < length tails. \<exists>ps. trail matches previous (tails ! p) ps \<and> length ps = Suc p \<and> rising ps)
      \<and> (\<forall>ys. subseq ys (take k matches) \<longrightarrow> rising ys \<longrightarrow> ys \<noteq> []
           \<longrightarrow> length ys \<le> length tails \<and> snd (matches ! (tails ! (length ys - 1))) \<le> snd (last ys)))"

lemma partition_point_facts:
  assumes "sorted_wrt (\<lambda>a b. f a < f b) xs"
  shows "partition_point (\<lambda>x. f x < (v :: nat)) xs \<le> length xs"
    "p < length xs \<Longrightarrow> p < partition_point (\<lambda>x. f x < v) xs \<longleftrightarrow> f (xs ! p) < v"
proof -
  show "partition_point (\<lambda>x. f x < v) xs \<le> length xs"
    by (simp add: partition_point_def length_takeWhile_le)
  show "p < partition_point (\<lambda>x. f x < v) xs \<longleftrightarrow> f (xs ! p) < v" if "p < length xs"
  proof
    assume "p < partition_point (\<lambda>x. f x < v) xs"
    then show "f (xs ! p) < v"
      unfolding partition_point_def by (metis nth_mem set_takeWhileD takeWhile_nth)
  next
    assume low: "f (xs ! p) < v"
    show "p < partition_point (\<lambda>x. f x < v) xs"
    proof (rule ccontr)
      let ?n = "partition_point (\<lambda>x. f x < v) xs"
      assume "\<not> p < ?n"
      then have "?n < length xs" "?n \<le> p" using that by simp_all
      then have "\<not> f (xs ! ?n) < v"
        unfolding partition_point_def using nth_length_takeWhile by blast
      moreover have "f (xs ! ?n) \<le> f (xs ! p)"
        using assms \<open>?n \<le> p\<close> that by (metis le_neq_implies_less less_imp_le order_refl sorted_wrt_nth_less)
      ultimately show False using low by simp
    qed
  qed
qed

lemma subseq_snoc_cases:
  assumes "subseq ys (xs @ [x])"
  obtains "subseq ys xs" | zs where "ys = zs @ [x]" "subseq zs xs"
proof -
  from assms obtain a b where ab: "ys = a @ b" "subseq a xs" "subseq b [x]" by (auto simp: subseq_append_iff)
  from ab(3) have "b = [] \<or> b = [x]" by (cases b) (auto elim: list_emb.cases split: if_splits)
  then show thesis using that ab by auto
qed

lemma rising_last_max:
  assumes "rising zs" "z \<in> set zs"
  shows "snd z \<le> snd (last zs)"
proof -
  obtain ws w where zs: "zs = ws @ [w]" using assms(2) by (metis empty_iff list.set(1) rev_exhaust)
  then show ?thesis using assms by (auto simp: sorted_wrt_append)
qed

lemma rising_snoc: "rising (zs @ [x]) \<longleftrightarrow> rising zs \<and> (zs \<noteq> [] \<longrightarrow> snd (last zs) < snd x)"
proof (cases "zs = []")
  case False
  have "(\<forall>z \<in> set zs. snd z < snd x) \<longleftrightarrow> snd (last zs) < snd x" if "rising zs"
    using rising_last_max [OF that] False by (meson last_in_set le_less_trans)
  then show ?thesis using False by (auto simp only: sorted_wrt_append list.set sorted_wrt.simps)
qed simp

text \<open>The tails with the index of this match at a position.\<close>

definition place :: "nat \<Rightarrow> nat \<Rightarrow> nat list \<Rightarrow> nat list" where
  "place pos k tails = (if pos = length tails then tails @ [k] else tails[pos := k])"

lemma length_place: "pos \<le> length tails \<Longrightarrow> length (place pos k tails) = max (length tails) (Suc pos)"
  by (auto simp: place_def)

lemma nth_place:
  "pos \<le> length tails \<Longrightarrow> p < length (place pos k tails) \<Longrightarrow> place pos k tails ! p = (if p = pos then k else tails ! p)"
  by (auto simp: place_def nth_append split: if_splits)

lemma set_place: "set (place pos k tails) \<subseteq> insert k (set tails)"
  by (auto simp: place_def dest: set_update_subset_insert [THEN subsetD] split: if_splits)

lemma chain_step_shape:
  assumes "sorted_wrt (\<lambda>a b. snd (matches ! a) < snd (matches ! b)) tails"
  obtains pos where
    "chain_step matches (tails, previous) k
       = (place pos k tails, previous[k := (if 0 < pos then Some (tails ! (pos - 1)) else None)])"
    "pos \<le> length tails"
    "\<And>p. p < length tails \<Longrightarrow> p < pos \<longleftrightarrow> snd (matches ! (tails ! p)) < snd (matches ! k)"
proof -
  let ?v = "snd (matches ! k)"
  let ?pos = "partition_point (\<lambda>t. snd (matches ! t) < ?v) tails"
  have le: "?pos \<le> length tails" by (rule partition_point_facts(1) [OF assms])
  have "chain_step matches (tails, previous) k
      = (place ?pos k tails, previous[k := (if 0 < ?pos then Some (tails ! (?pos - 1)) else None)])"
    using le by (auto simp: chain_step_def Let_def place_def nth_append)
  then show thesis using le partition_point_facts(2) [OF assms, where v = ?v] by (rule that)
qed

lemma place_sorted:
  assumes sorted: "sorted_wrt (\<lambda>a b. f a < (f b :: nat)) tails" and le: "pos \<le> length tails"
    and cut: "\<And>p. p < length tails \<Longrightarrow> p < pos \<longleftrightarrow> f (tails ! p) < f k"
  shows "sorted_wrt (\<lambda>a b. f a < f b) (place pos k tails)"
  unfolding sorted_wrt_iff_nth_less
proof (intro allI impI)
  fix i j assume ij: "i < j" "j < length (place pos k tails)"
  note nths = nth_place [OF le, of i k] nth_place [OF le, of j k] length_place [OF le, of k]
  have less: "f (tails ! i) < f (tails ! j)" if "j < length tails"
    using sorted_wrt_nth_less [OF sorted ij(1) that] .
  consider "j = pos" | "i = pos" "j < length tails" | "i \<noteq> pos" "j \<noteq> pos" "j < length tails"
    using ij nths(3) le by linarith
  then show "f (place pos k tails ! i) < f (place pos k tails ! j)"
  proof cases
    case 1
    then show ?thesis using ij nths cut [of i] le by simp
  next
    case 2
    then show ?thesis using ij nths cut [of i] less by simp
  next
    case 3
    then show ?thesis using ij nths less by simp
  qed
qed

lemma place_trails:
  assumes trails: "\<forall>p < length tails. \<exists>ps. trail matches previous (tails ! p) ps \<and> length ps = Suc p \<and> rising ps"
    and low: "\<forall>t \<in> set tails. t < k" and k: "k < length matches" "length previous = length matches"
    and le: "pos \<le> length tails"
    and cut: "\<And>p. p < length tails \<Longrightarrow> p < pos \<longleftrightarrow> snd (matches ! (tails ! p)) < snd (matches ! k)"
    and p: "p < length (place pos k tails)"
    and previous': "previous' = previous[k := (if 0 < pos then Some (tails ! (pos - 1)) else None)]"
  shows "\<exists>ps. trail matches previous' (place pos k tails ! p) ps \<and> length ps = Suc p \<and> rising ps"
proof -
  have kept: "\<exists>ps. trail matches previous' (tails ! q) ps \<and> length ps = Suc q \<and> rising ps" if q: "q < length tails" for q
  proof -
    obtain ps where ps: "trail matches previous (tails ! q) ps" "length ps = Suc q" "rising ps"
      using trails [rule_format, OF q] by auto
    have "tails ! q < k" using low q by simp
    then have "trail matches previous' (tails ! q) ps" by (intro trail_agree [OF ps(1)]) (simp add: previous')
    then show ?thesis using ps by blast
  qed
  consider "p \<noteq> pos" | "p = pos" "pos = 0" | "p = pos" "0 < pos" by blast
  then show ?thesis
  proof cases
    case 1
    then show ?thesis using kept [of p] p nth_place [OF le p] length_place [OF le, of k] le by auto
  next
    case 2
    then have "trail matches previous' k [matches ! k]" using k by (intro trail_start) (simp add: previous')
    then show ?thesis using 2 nth_place [OF le p] by (intro exI [of _ "[matches ! k]"]) simp
  next
    case 3
    let ?j = "tails ! (pos - 1)"
    from 3 le have pos: "pos - 1 < length tails" by simp
    then obtain ps where ps: "trail matches previous' ?j ps" "length ps = pos" "rising ps" using kept 3 by force
    have j: "?j < k" using low pos by simp
    then have "last ps = matches ! ?j" using trail_subseq [OF ps(1)] k by simp
    then have "rising (ps @ [matches ! k])" using ps(3) cut [OF pos] 3 unfolding rising_snoc by simp
    moreover have "trail matches previous' k (ps @ [matches ! k])"
      using 3 k by (intro trail_next [OF _ j ps(1)]) (simp add: previous')
    ultimately show ?thesis using 3 ps(2) nth_place [OF le p] by (intro exI [of _ "ps @ [matches ! k]"]) simp
  qed
qed

lemma place_best:
  assumes best: "\<And>ys. subseq ys xs \<Longrightarrow> rising ys \<Longrightarrow> ys \<noteq> []
      \<Longrightarrow> length ys \<le> length tails \<and> snd (matches ! (tails ! (length ys - 1))) \<le> snd (last ys)"
    and le: "pos \<le> length tails"
    and cut: "\<And>p. p < length tails \<Longrightarrow> p < pos \<longleftrightarrow> snd (matches ! (tails ! p)) < snd (matches ! k)"
    and ys: "subseq ys (xs @ [matches ! k])" "rising ys" "ys \<noteq> []"
  shows "length ys \<le> length (place pos k tails)
    \<and> snd (matches ! (place pos k tails ! (length ys - 1))) \<le> snd (last ys)"
  using ys(1)
proof (cases rule: subseq_snoc_cases)
  case 1
  have old: "length ys \<le> length tails" "snd (matches ! (tails ! (length ys - 1))) \<le> snd (last ys)"
    using best [OF 1 ys(2,3)] by blast+
  have q: "length ys - 1 < length tails" using old(1) ys(3) by (cases ys) auto
  then show ?thesis using old cut [OF q] length_place [OF le, of k] nth_place [OF le, of "length ys - 1" k] by auto
next
  case (2 zs)
  have short: "length zs \<le> pos"
  proof (cases "zs = []")
    case False
    have zs: "rising zs" "snd (last zs) < snd (matches ! k)" using ys(2) False unfolding 2(1) rising_snoc by auto
    note b = best [OF 2(2) zs(1) False]
    have "length zs - 1 < length tails" using b False by (cases zs) auto
    then have "length zs - 1 < pos" using b zs(2) cut by simp
    then show ?thesis by simp
  qed simp
  have "length zs < length (place pos k tails)" using short length_place [OF le, of k] by simp
  moreover have "snd (matches ! (place pos k tails ! length zs)) \<le> snd (matches ! k)"
    using calculation nth_place [OF le, of "length zs" k] short cut [of "length zs"] le by auto
  ultimately show ?thesis using 2(1) by simp
qed

lemma chain_step_ok:
  assumes ok: "tails_ok matches k (tails, previous)" and k: "k < length matches"
  shows "tails_ok matches (Suc k) (chain_step matches (tails, previous) k)"
proof -
  have inv: "length previous = length matches" "\<forall>t \<in> set tails. t < k"
    "sorted_wrt (\<lambda>a b. snd (matches ! a) < snd (matches ! b)) tails"
    "\<forall>p < length tails. \<exists>ps. trail matches previous (tails ! p) ps \<and> length ps = Suc p \<and> rising ps"
    "\<And>ys. subseq ys (take k matches) \<Longrightarrow> rising ys \<Longrightarrow> ys \<noteq> []
       \<Longrightarrow> length ys \<le> length tails \<and> snd (matches ! (tails ! (length ys - 1))) \<le> snd (last ys)"
    using ok unfolding tails_ok_def by simp_all
  obtain pos where step: "chain_step matches (tails, previous) k
       = (place pos k tails, previous[k := (if 0 < pos then Some (tails ! (pos - 1)) else None)])"
    and le: "pos \<le> length tails"
    and cut: "\<And>p. p < length tails \<Longrightarrow> p < pos \<longleftrightarrow> snd (matches ! (tails ! p)) < snd (matches ! k)"
    using chain_step_shape [OF inv(3)] by blast
  have snoc: "take (Suc k) matches = take k matches @ [matches ! k]" using k by (rule take_Suc_conv_app_nth)
  have "\<forall>t \<in> set (place pos k tails). t < Suc k" using inv(2) set_place [of pos k tails] by fastforce
  moreover have "sorted_wrt (\<lambda>a b. snd (matches ! a) < snd (matches ! b)) (place pos k tails)"
    by (rule place_sorted [OF inv(3) le cut])
  moreover note place_trails [OF inv(4,2) k inv(1) le cut _ refl]
  moreover note place_best [OF inv(5) le cut]
  ultimately show ?thesis unfolding tails_ok_def step snoc using inv(1) by simp
qed

lemma chain_loop_ok:
  "k \<le> length matches
   \<Longrightarrow> tails_ok matches k (foldl (chain_step matches) ([], replicate (length matches) None) [0..<k])"
proof (induction k)
  case 0
  then show ?case by (simp add: tails_ok_def)
next
  case (Suc k)
  obtain tails previous where st: "foldl (chain_step matches) ([], replicate (length matches) None) [0..<k] = (tails, previous)"
    by (cases "foldl (chain_step matches) ([], replicate (length matches) None) [0..<k]")
  then show ?case using Suc chain_step_ok [of matches k tails previous] by simp
qed

text \<open>
  C21: \<open>longest_increasing_chain\<close> (\<open>alignment.rs\<close>) always returns: the walk back over the predecessors ends.
  What it returns is a subsequence of the matches whose transcript positions strictly increase, and
  no such subsequence is longer.
\<close>

theorem longest_increasing_chain_optimal:
  "\<exists>chain. longest_increasing_chain matches = Some chain \<and> subseq chain matches \<and> rising chain
     \<and> (\<forall>ys \<in> set (subseqs matches). rising ys \<longrightarrow> length ys \<le> length chain)"
proof -
  obtain tails previous where
    st: "foldl (chain_step matches) ([], replicate (length matches) None) [0..<length matches] = (tails, previous)"
    by (cases "foldl (chain_step matches) ([], replicate (length matches) None) [0..<length matches]")
  have ok: "tails_ok matches (length matches) (tails, previous)" using chain_loop_ok [of "length matches" matches] st by simp
  have best: "length ys \<le> length tails" if "ys \<in> set (subseqs matches)" "rising ys" for ys
    using ok that unfolding tails_ok_def by (cases "ys = []") auto
  show ?thesis
  proof (cases "tails = []")
    case True
    then show ?thesis using best by (simp add: longest_increasing_chain_def st collect_chain.simps)
  next
    case False
    have trails: "\<exists>ps. trail matches previous (tails ! p) ps \<and> length ps = Suc p \<and> rising ps" if "p < length tails" for p
      using ok that unfolding tails_ok_def by auto
    obtain ps where ps: "trail matches previous (last tails) ps" "length ps = length tails" "rising ps"
      using trails [of "length tails - 1"] False by (auto simp: last_conv_nth)
    have "last tails < length matches" using ok False unfolding tails_ok_def by simp
    then have "subseq ps matches"
      using trail_subseq [OF ps(1)] by (meson prefix_imp_subseq subseq_order.order_trans take_is_prefix)
    then show ?thesis
      using ps best False trail_collect [OF ps(1), of "[]"] by (auto simp: longest_increasing_chain_def st)
  qed
qed

theorem longest_increasing_chain_optimal_witness:
  "\<exists>chain. longest_increasing_chain [(0, 5), (1, 2), (2, 3)] = Some chain \<and> 2 \<le> length chain"
proof -
  have "[(1, 2), (2, 3)] \<in> set (subseqs [(0 :: nat, 5 :: nat), (1, 2), (2, 3)])" "rising [(1, 2), (2, 3)]" by simp_all
  then show ?thesis using longest_increasing_chain_optimal [of "[(0, 5), (1, 2), (2, 3)]"] by fastforce
qed

section \<open>Aligning two lists of labels\<close>

text \<open>
  A cell of the table holds \<open>best\<close> and \<open>choice\<close>: 0 leaves the target unmatched, 1 skips the item, 2 pairs
  them. Scores are at most 180 (\<open>label_match_score_le\<close>), so sums over chapter lists stay far
  inside \<open>u32\<close> and are naturals here.
\<close>

definition align_cell :: "nat \<Rightarrow> nat \<Rightarrow> nat \<Rightarrow> nat \<Rightarrow> nat \<Rightarrow> nat \<times> nat" where
  "align_cell upper left diagonal pair min_score =
     (let (score, how) = (upper, 0);
          (score, how) = (if score < left then (left, 1) else (score, how));
          (score, how) = (if min_score \<le> pair \<and> score < diagonal + pair then (diagonal + pair, 2) else (score, how))
      in (score, how))"

fun align_row :: "parsed_label \<Rightarrow> nat \<Rightarrow> parsed_label list \<Rightarrow> nat list \<Rightarrow> nat \<Rightarrow> (nat \<times> nat) list" where
  "align_row target min_score (item # items) (diagonal # upper # higher) left =
     (let cell = align_cell upper left diagonal (label_match_score target item) min_score
      in cell # align_row target min_score items (upper # higher) (fst cell))"
| "align_row target min_score items higher left = []"

definition align_table :: "parsed_label list \<Rightarrow> parsed_label list \<Rightarrow> nat \<Rightarrow> (nat \<times> nat) list list" where
  "align_table targets items min_score =
     foldl (\<lambda>rows target. rows @ [(0, 0) # align_row target min_score items (map fst (last rows)) 0])
       [replicate (length items + 1) (0, 0)] targets"

function align_walk :: "(nat \<times> nat) list list \<Rightarrow> nat \<Rightarrow> nat \<Rightarrow> nat option list \<Rightarrow> nat option list" where
  "align_walk choice row column matched =
     (if 0 < row \<and> 0 < column
      then (if snd (choice ! row ! column) = 2
            then align_walk choice (row - 1) (column - 1) (matched[row - 1 := Some (column - 1)])
            else if snd (choice ! row ! column) = 1 then align_walk choice row (column - 1) matched
            else align_walk choice (row - 1) column matched)
      else matched)"
  by pat_completeness auto
termination by (relation "measure (\<lambda>(choice, row, column, matched). row + column)") auto

declare align_walk.simps [simp del]

definition align_labels :: "parsed_label list \<Rightarrow> parsed_label list \<Rightarrow> nat \<Rightarrow> nat option list" where
  "align_labels targets items min_score =
     align_walk (align_table targets items min_score) (length targets) (length items) (replicate (length targets) None)"

text \<open>The table by its recurrence.\<close>

fun align_best :: "(nat \<Rightarrow> nat \<Rightarrow> nat) \<Rightarrow> nat \<Rightarrow> nat \<Rightarrow> nat \<Rightarrow> nat \<times> nat" where
  "align_best score min_score (Suc i) (Suc j) =
     align_cell (fst (align_best score min_score i (Suc j))) (fst (align_best score min_score (Suc i) j))
       (fst (align_best score min_score i j)) (score i j) min_score"
| "align_best score min_score 0 j = (0, 0)"
| "align_best score min_score i 0 = (0, 0)"

lemma align_row_best:
  assumes "length higher = Suc (length items)"
    "\<And>j. j \<le> length items \<Longrightarrow> higher ! j = fst (align_best score min_score i (c + j))"
    "left = fst (align_best score min_score (Suc i) c)"
    "\<And>j. j < length items \<Longrightarrow> label_match_score target (items ! j) = score i (c + j)"
  shows "length (align_row target min_score items higher left) = length items
    \<and> (\<forall>j < length items. align_row target min_score items higher left ! j = align_best score min_score (Suc i) (Suc (c + j)))"
  using assms
proof (induction target min_score items higher left arbitrary: c rule: align_row.induct)
  case (1 target min_score item items diagonal upper higher left)
  let ?cell = "align_cell upper left diagonal (label_match_score target item) min_score"
  have cell: "?cell = align_best score min_score (Suc i) (Suc c)"
    using 1(3) [of 0] 1(3) [of 1] 1(4) 1(5) [of 0] by simp
  have "length (align_row target min_score items (upper # higher) (fst ?cell)) = length items
    \<and> (\<forall>j < length items. align_row target min_score items (upper # higher) (fst ?cell) ! j
         = align_best score min_score (Suc i) (Suc (Suc c + j)))"
  proof (rule 1(1) [OF refl])
    show "length (upper # higher) = Suc (length items)" using 1(2) by simp
    show "(upper # higher) ! j = fst (align_best score min_score i (Suc c + j))" if "j \<le> length items" for j
      using 1(3) [of "Suc j"] that by simp
    show "fst ?cell = fst (align_best score min_score (Suc i) (Suc c))" using cell by simp
    show "label_match_score target (items ! j) = score i (Suc c + j)" if "j < length items" for j
      using 1(5) [of "Suc j"] that by simp
  qed
  then show ?case using cell by (auto simp: Let_def nth_Cons split: nat.split)
qed auto

abbreviation pair_score :: "parsed_label list \<Rightarrow> parsed_label list \<Rightarrow> nat \<Rightarrow> nat \<Rightarrow> nat" where
  "pair_score targets items i j \<equiv> label_match_score (targets ! i) (items ! j)"

lemma align_best_zero: "align_best score min_score i 0 = (0, 0)"
  by (cases i) simp_all

lemma align_table_best:
  assumes "i \<le> length targets" "j \<le> length items"
  shows "align_table targets items min_score ! i ! j = align_best (pair_score targets items) min_score i j"
proof -
  let ?step = "\<lambda>rows target. rows @ [(0, 0) # align_row target min_score items (map fst (last rows)) 0]"
  let ?row = "\<lambda>i. map (align_best (pair_score targets items) min_score i) [0..<Suc (length items)]"
  have "foldl ?step [replicate (length items + 1) (0, 0)] (take k targets) = map ?row [0..<Suc k]"
    if "k \<le> length targets" for k
    using that
  proof (induction k)
    case 0
    have "?row 0 = replicate (Suc (length items)) (0, 0)"
      by (rule nth_equalityI) (simp_all del: upt_Suc replicate_Suc)
    then show ?case by (simp del: upt_Suc replicate_Suc add: upt_rec [of 0 "Suc 0"])
  next
    case (Suc k)
    then have k: "k < length targets" by simp
    let ?cells = "align_row (targets ! k) min_score items (map fst (?row k)) 0"
    have cells: "length ?cells = length items
      \<and> (\<forall>j < length items. ?cells ! j = align_best (pair_score targets items) min_score (Suc k) (Suc (0 + j)))"
      using align_row_best [of "map fst (?row k)" items "pair_score targets items" min_score k 0 0 "targets ! k"]
      by (simp add: align_best_zero del: upt_Suc align_best.simps)
    have "(0, 0) # ?cells = ?row (Suc k)"
    proof (rule nth_equalityI)
      fix j assume "j < length ((0, 0) # ?cells)"
      then show "((0, 0) # ?cells) ! j = ?row (Suc k) ! j"
        using cells by (cases j) (simp_all del: upt_Suc align_best.simps add: align_best_zero)
    qed (simp add: cells del: upt_Suc map_map)
    moreover have "foldl ?step [replicate (length items + 1) (0, 0)] (take (Suc k) targets)
        = map ?row [0..<Suc k] @ [(0, 0) # ?cells]"
      using Suc k by (simp add: take_Suc_conv_app_nth)
    ultimately show ?case by simp
  qed
  from this [of "length targets"] have "align_table targets items min_score = map ?row [0..<Suc (length targets)]"
    by (simp only: align_table_def take_all order_refl)
  then show ?thesis using assms by (simp del: upt_Suc)
qed

text \<open>The pairs of a match list, in order, and what makes pairs an order-keeping match.\<close>

definition match_pairs :: "nat option list \<Rightarrow> (nat \<times> nat) list" where
  "match_pairs matched = map (\<lambda>i. (i, the (matched ! i))) (filter (\<lambda>i. matched ! i \<noteq> None) [0..<length matched])"

abbreviation in_order :: "(nat \<times> nat) list \<Rightarrow> bool" where
  "in_order ps \<equiv> sorted_wrt (\<lambda>a b. fst a < fst b \<and> snd a < snd b) ps"

definition allowed_pairs :: "(nat \<Rightarrow> nat \<Rightarrow> nat) \<Rightarrow> nat \<Rightarrow> nat \<Rightarrow> nat \<Rightarrow> (nat \<times> nat) list \<Rightarrow> bool" where
  "allowed_pairs score min_score rows columns ps \<longleftrightarrow>
     in_order ps \<and> list_all (\<lambda>(i, j). i < rows \<and> j < columns \<and> min_score \<le> score i j) ps"

abbreviation total_score :: "(nat \<Rightarrow> nat \<Rightarrow> nat) \<Rightarrow> (nat \<times> nat) list \<Rightarrow> nat" where
  "total_score score ps \<equiv> sum_list (map (\<lambda>(i, j). score i j) ps)"

lemma align_cell_cases:
  obtains "align_cell upper left diagonal pair min_score = (upper, 0)"
  | "align_cell upper left diagonal pair min_score = (left, 1)"
  | "align_cell upper left diagonal pair min_score = (diagonal + pair, 2)" "min_score \<le> pair"
  by (cases "upper < left"; cases "min_score \<le> pair \<and> (if upper < left then left else upper) < diagonal + pair")
    (auto simp: align_cell_def)

lemma align_cell_best:
  "upper \<le> fst (align_cell upper left diagonal pair min_score)"
  "left \<le> fst (align_cell upper left diagonal pair min_score)"
  "min_score \<le> pair \<Longrightarrow> diagonal + pair \<le> fst (align_cell upper left diagonal pair min_score)"
  by (auto simp: align_cell_def)

lemma allowed_pairs_snoc:
  "allowed_pairs score min_score rows columns (ps @ [(i, j)]) \<longleftrightarrow>
     allowed_pairs score min_score (min rows i) (min columns j) ps \<and> i < rows \<and> j < columns \<and> min_score \<le> score i j"
  by (fastforce simp: allowed_pairs_def sorted_wrt_append list_all_iff)

lemma allowed_pairs_mono:
  "allowed_pairs score min_score rows columns ps \<Longrightarrow> rows \<le> rows' \<Longrightarrow> columns \<le> columns'
   \<Longrightarrow> allowed_pairs score min_score rows' columns' ps"
  by (fastforce simp: allowed_pairs_def list_all_iff)

lemma allowed_pairs_none [simp]:
  "allowed_pairs score min_score 0 columns ps \<longleftrightarrow> ps = []"
  "allowed_pairs score min_score rows 0 ps \<longleftrightarrow> ps = []"
  by (cases ps; auto simp: allowed_pairs_def)+

lemma align_best_upper:
  "allowed_pairs score min_score i j ps \<Longrightarrow> total_score score ps \<le> fst (align_best score min_score i j)"
proof (induction score min_score i j arbitrary: ps rule: align_best.induct)
  case (1 score min_score i j)
  show ?case
  proof (cases ps rule: rev_cases)
    case (snoc qs p)
    obtain r c where p: "p = (r, c)" by (cases p)
    have q: "allowed_pairs score min_score (min (Suc i) r) (min (Suc j) c) qs" "r < Suc i" "c < Suc j" "min_score \<le> score r c"
      using 1(4) unfolding snoc p allowed_pairs_snoc by auto
    consider "r < i" | "c < j" | "r = i" "c = j" using q by linarith
    then show ?thesis
    proof cases
      case 1
      then have "allowed_pairs score min_score i (Suc j) ps"
        using q unfolding snoc p allowed_pairs_snoc by (auto intro: allowed_pairs_mono)
      then show ?thesis
        using "1.IH"(1) align_cell_best(1) unfolding align_best.simps by (meson order_trans)
    next
      case 2
      then have "allowed_pairs score min_score (Suc i) j ps"
        using q unfolding snoc p allowed_pairs_snoc by (auto intro: allowed_pairs_mono)
      then show ?thesis
        using "1.IH"(2) align_cell_best(2) unfolding align_best.simps by (meson order_trans)
    next
      case 3
      then have "allowed_pairs score min_score i j qs" using q by (auto intro: allowed_pairs_mono)
      then have "total_score score qs \<le> fst (align_best score min_score i j)" using "1.IH"(3) by blast
      then show ?thesis
        using align_cell_best(3) [of min_score "score i j" "fst (align_best score min_score i j)"
            "fst (align_best score min_score i (Suc j))" "fst (align_best score min_score (Suc i) j)"] q(4) 3
        unfolding snoc p align_best.simps by simp
    qed
  qed simp
qed simp_all

text \<open>The pairs the walk back reads off the choices.\<close>

fun best_pairs :: "(nat \<Rightarrow> nat \<Rightarrow> nat) \<Rightarrow> nat \<Rightarrow> nat \<Rightarrow> nat \<Rightarrow> (nat \<times> nat) list" where
  "best_pairs score min_score (Suc i) (Suc j) =
     (let how = snd (align_best score min_score (Suc i) (Suc j)) in
      if how = 2 then best_pairs score min_score i j @ [(i, j)]
      else if how = 1 then best_pairs score min_score (Suc i) j
      else best_pairs score min_score i (Suc j))"
| "best_pairs score min_score 0 j = []"
| "best_pairs score min_score i 0 = []"

lemma best_pairs_allowed:
  "allowed_pairs score min_score i j (best_pairs score min_score i j)
   \<and> total_score score (best_pairs score min_score i j) = fst (align_best score min_score i j)"
proof (induction score min_score i j rule: best_pairs.induct)
  case (1 score min_score i j)
  show ?case
    by (rule align_cell_cases [of "fst (align_best score min_score i (Suc j))" "fst (align_best score min_score (Suc i) j)"
          "fst (align_best score min_score i j)" "score i j" min_score])
      (use 1 in \<open>auto simp: Let_def allowed_pairs_snoc intro: allowed_pairs_mono\<close>)
qed (auto simp: allowed_pairs_def)

lemma match_pairs_set:
  assumes "\<forall>k \<le> i. matched ! k = None" "i < length matched"
  shows "match_pairs (matched[i := Some j]) = (i, j) # match_pairs matched"
proof -
  have upt: "[0..<length matched] = [0..<i] @ i # [Suc i..<length matched]"
    using assms(2) by (metis upt_add_eq_append upt_conv_Cons le_add_diff_inverse less_imp_le zero_le)
  have low: "filter (\<lambda>k. m ! k \<noteq> None) [0..<i] = []" if "\<forall>k < i. m ! k = None" for m :: "nat option list"
    using that by (simp add: filter_empty_conv)
  have high: "filter (\<lambda>k. matched[i := Some j] ! k \<noteq> None) [Suc i..<length matched]
      = filter (\<lambda>k. matched ! k \<noteq> None) [Suc i..<length matched]"
    by (rule filter_cong) auto
  show ?thesis
    using assms low [of matched] low [of "matched[i := Some j]"] high
    by (auto simp: match_pairs_def upt)
qed

lemma align_walk_pairs:
  assumes "row \<le> length matched" "\<forall>k < row. matched ! k = None"
    "\<And>i j. i \<le> row \<Longrightarrow> j \<le> column \<Longrightarrow> choice ! i ! j = align_best score min_score i j"
  shows "match_pairs (align_walk choice row column matched) = best_pairs score min_score row column @ match_pairs matched
    \<and> length (align_walk choice row column matched) = length matched"
  using assms
proof (induction choice row column matched rule: align_walk.induct)
  case (1 choice row column matched)
  show ?case
  proof (cases "0 < row \<and> 0 < column")
    case True
    then obtain i j where ij: "row = Suc i" "column = Suc j" by (metis gr0_conv_Suc)
    have here: "choice ! row ! column = align_best score min_score row column" using 1(6) by simp
    consider "snd (choice ! row ! column) = 2" | "snd (choice ! row ! column) = 1"
      | "snd (choice ! row ! column) \<noteq> 2" "snd (choice ! row ! column) \<noteq> 1" by blast
    then show ?thesis
    proof cases
      case 1
      then show ?thesis
        using "1.IH"(1) [OF True 1] "1.prems" here match_pairs_set [of i matched j] unfolding ij
        by (subst (1 2) align_walk.simps) (simp del: align_best.simps)
    next
      case 2
      then show ?thesis
        using "1.IH"(2) [OF True _ 2] "1.prems" here unfolding ij
        by (subst (1 2) align_walk.simps) (simp del: align_best.simps)
    next
      case 3
      then show ?thesis
        using "1.IH"(3) [OF True 3] "1.prems" here unfolding ij
        by (subst (1 2) align_walk.simps) (simp del: align_best.simps)
    qed
  next
    case False
    then show ?thesis by (subst (1 2) align_walk.simps) (cases row; auto simp: best_pairs.simps elim: best_pairs.elims)
  qed
qed

lemma align_labels_best:
  "length (align_labels targets items min_score) = length targets
   \<and> allowed_pairs (pair_score targets items) min_score (length targets) (length items)
        (match_pairs (align_labels targets items min_score))
   \<and> (allowed_pairs (pair_score targets items) min_score (length targets) (length items) ps
       \<longrightarrow> total_score (pair_score targets items) ps
            \<le> total_score (pair_score targets items) (match_pairs (align_labels targets items min_score)))"
proof -
  let ?score = "pair_score targets items" and ?rows = "length targets" and ?columns = "length items"
  have none: "match_pairs (replicate n None) = []" for n by (simp add: match_pairs_def filter_empty_conv)
  have "match_pairs (align_labels targets items min_score) = best_pairs ?score min_score ?rows ?columns
      \<and> length (align_labels targets items min_score) = ?rows"
    using align_walk_pairs [of ?rows "replicate ?rows None" ?columns "align_table targets items min_score" ?score min_score]
    by (simp add: align_labels_def align_table_best none)
  then show ?thesis
    using best_pairs_allowed [of ?score min_score ?rows ?columns]
      align_best_upper [of ?score min_score ?rows ?columns ps] by simp
qed

text \<open>
  C20: \<open>align_labels\<close> (\<open>alignment.rs\<close>) gives every target one item or none; the matches keep the order of both
  lists, every pair scores at least the minimum, and no other order-keeping matching whose pairs do
  has a higher total score.
\<close>

theorem align_labels_optimal:
  "length (align_labels targets items min_score) = length targets
   \<and> allowed_pairs (pair_score targets items) min_score (length targets) (length items)
        (match_pairs (align_labels targets items min_score))
   \<and> (allowed_pairs (pair_score targets items) min_score (length targets) (length items) ps
       \<longrightarrow> total_score (pair_score targets items) ps
            \<le> total_score (pair_score targets items) (match_pairs (align_labels targets items min_score)))"
  by (rule align_labels_best)

definition ex_chapter :: parsed_label where
  "ex_chapter = \<lparr>lb_number = Some 3, lb_series = [], lb_key = cps ''dawn'', lb_leaf = None\<rparr>"

theorem align_labels_optimal_witness:
  "180 \<le> total_score (pair_score [ex_chapter] [ex_chapter]) (match_pairs (align_labels [ex_chapter] [ex_chapter] 70))"
proof -
  have score: "label_match_score ex_chapter ex_chapter = 180" by (simp add: label_match_score_def ex_chapter_def cps_def)
  then have "allowed_pairs (pair_score [ex_chapter] [ex_chapter]) 70 1 1 [(0, 0)]" by (simp add: allowed_pairs_def)
  then show ?thesis
    using align_labels_optimal [of "[ex_chapter]" "[ex_chapter]" 70 "[(0, 0)]"] score by simp
qed

section \<open>Matching in order\<close>

abbreviation LABEL_MATCH_THRESHOLD :: nat where
  "LABEL_MATCH_THRESHOLD \<equiv> 70"

definition apparatus_titles :: "ustr list" where
  "apparatus_titles = map cps
     [''cover'', ''title page'', ''title'', ''copyright'', ''copyright page'', ''dedication'', ''contents'',
      ''table of contents'', ''epigraph'', ''opening credits'', ''end credits'', ''credits'', ''about the author'',
      ''also by'', ''also by the author'', ''acknowledgments'', ''acknowledgements'', ''half title'',
      ''frontispiece'', ''maps'', ''map'']"

definition is_apparatus :: "parsed_label \<Rightarrow> bool" where
  "is_apparatus label \<longleftrightarrow> lb_number label = None \<and> lb_key label \<in> set apparatus_titles"

definition real_chapters :: "parsed_label list \<Rightarrow> nat list" where
  "real_chapters labels = filter (\<lambda>i. \<not> is_apparatus (labels ! i)) [0..<length labels]"

definition pair_up :: "nat \<Rightarrow> (nat \<times> nat) list \<Rightarrow> nat option list" where
  "pair_up n ps = foldl (\<lambda>m (i, j). m[i := Some j]) (replicate n None) ps"

definition match_in_order :: "parsed_label list \<Rightarrow> parsed_label list \<Rightarrow> nat option list" where
  "match_in_order targets items =
     (let matched = align_labels targets items LABEL_MATCH_THRESHOLD in
      if 0 < length (filter (\<lambda>x. x \<noteq> None) matched) \<or> length targets < 2 then matched
      else (let target_chapters = real_chapters targets; item_chapters = real_chapters items in
            if 2 \<le> length target_chapters \<and> length target_chapters = length item_chapters
            then pair_up (length targets) (zip target_chapters item_chapters)
            else matched))"

lemma set_match_pairs: "(i, j) \<in> set (match_pairs m) \<longleftrightarrow> i < length m \<and> m ! i = Some j"
  by (auto simp: match_pairs_def image_iff)

lemma in_order_match_pairs:
  "in_order (match_pairs m) \<longleftrightarrow>
     (\<forall>i i' j j'. i < i' \<longrightarrow> (i, j) \<in> set (match_pairs m) \<longrightarrow> (i', j') \<in> set (match_pairs m) \<longrightarrow> j < j')"
  (is "?l = ?r")
proof
  assume l: ?l
  show ?r
  proof (intro allI impI)
    fix i i' j j' assume ii: "i < i'" "(i, j) \<in> set (match_pairs m)" "(i', j') \<in> set (match_pairs m)"
    then obtain k k' where k: "k < length (match_pairs m)" "match_pairs m ! k = (i, j)"
      "k' < length (match_pairs m)" "match_pairs m ! k' = (i', j')" by (metis in_set_conv_nth)
    consider "k < k'" | "k = k'" | "k' < k" by linarith
    then show "j < j'"
    proof cases
      case 1
      then show ?thesis using sorted_wrt_nth_less [OF l 1 k(3)] k by simp
    next
      case 2
      then show ?thesis using k ii by simp
    next
      case 3
      then show ?thesis using sorted_wrt_nth_less [OF l 3 k(1)] k ii by simp
    qed
  qed
next
  assume r: ?r
  have "sorted_wrt (<) (filter (\<lambda>i. m ! i \<noteq> None) [0..<length m])" by (simp add: sorted_wrt_filter)
  then show ?l
    unfolding match_pairs_def sorted_wrt_map
  proof (rule sorted_wrt_mono_rel [rotated])
    fix i i' assume i: "i \<in> set (filter (\<lambda>i. m ! i \<noteq> None) [0..<length m])"
      "i' \<in> set (filter (\<lambda>i. m ! i \<noteq> None) [0..<length m])" "i < i'"
    then obtain j j' where "m ! i = Some j" "m ! i' = Some j'" "i < length m" "i' < length m" by auto
    moreover from this have "j < j'" using r [rule_format, OF i(3), of j j'] by (simp add: set_match_pairs)
    ultimately show "fst (i, the (m ! i)) < fst (i', the (m ! i')) \<and> snd (i, the (m ! i)) < snd (i', the (m ! i'))"
      using i(3) by simp
  qed
qed

lemma length_pair_up: "length (pair_up n ps) = n"
  unfolding pair_up_def by (induction ps rule: rev_induct) (auto split: prod.split)

lemma pair_up_nth:
  "k < n \<Longrightarrow> pair_up n ps ! k = map_of (rev ps) k"
proof (induction ps rule: rev_induct)
  case Nil
  then show ?case by (simp add: pair_up_def)
next
  case (snoc p ps)
  obtain i j where p: "p = (i, j)" by (cases p)
  have "pair_up n (ps @ [p]) = (pair_up n ps)[i := Some j]" by (simp add: pair_up_def p)
  then show ?case using snoc length_pair_up [of n ps] by (auto simp: p nth_list_update)
qed

lemma in_order_zip:
  assumes "sorted_wrt (<) xs" "sorted_wrt (<) (ys :: nat list)"
  shows "in_order (zip (xs :: nat list) ys)"
  using assms by (auto simp: sorted_wrt_iff_nth_less)

lemma match_pairs_pair_up:
  assumes "in_order ps" "\<forall>(i, j) \<in> set ps. i < n"
  shows "set (match_pairs (pair_up n ps)) = set ps"
proof -
  have dist: "distinct (map fst ps)"
    using assms(1) by (auto simp: sorted_wrt_iff_nth_less distinct_conv_nth) (metis less_irrefl nat_neq_iff)
  have "map_of (rev ps) i = Some j \<longleftrightarrow> (i, j) \<in> set ps" for i j
    using dist by (simp add: rev_map [symmetric])
  then show ?thesis
    using assms(2) by (auto simp: set_match_pairs length_pair_up pair_up_nth)
qed

lemma in_order_nth_iff: "in_order ps \<Longrightarrow> (i, j) \<in> set ps \<Longrightarrow> (i', j') \<in> set ps \<Longrightarrow> i < i' \<Longrightarrow> j < j'"
  by (auto simp: sorted_wrt_iff_nth_less in_set_conv_nth) (metis less_asym linorder_neqE_nat prod.inject fst_conv snd_conv)

lemma real_chapters_sorted: "sorted_wrt (<) (real_chapters labels)" "set (real_chapters labels) \<subseteq> {..<length labels}"
  by (auto simp: real_chapters_def sorted_wrt_filter)

definition match_ok :: "nat \<Rightarrow> nat \<Rightarrow> nat option list \<Rightarrow> bool" where
  "match_ok rows columns m \<longleftrightarrow>
     length m = rows \<and> in_order (match_pairs m) \<and> list_all (\<lambda>(i, j). j < columns) (match_pairs m)"

lemma match_okD: "match_ok rows columns m \<Longrightarrow> m ! i = Some j \<Longrightarrow> i < rows \<Longrightarrow> j < columns"
  using set_match_pairs [of i j m] by (fastforce simp: match_ok_def list_all_iff)

lemma align_labels_ok: "match_ok (length targets) (length items) (align_labels targets items min_score)"
  using align_labels_best [of targets items min_score "[]"]
  by (fastforce simp: match_ok_def allowed_pairs_def list_all_iff)

lemma match_in_order_ok: "match_ok (length targets) (length items) (match_in_order targets items)"
proof -
  let ?ts = "real_chapters targets" and ?is = "real_chapters items"
  let ?m = "pair_up (length targets) (zip ?ts ?is)"
  have z: "in_order (zip ?ts ?is)" by (rule in_order_zip [OF real_chapters_sorted(1) real_chapters_sorted(1)])
  have bound: "i < length targets \<and> j < length items" if "(i, j) \<in> set (zip ?ts ?is)" for i j
    using that real_chapters_sorted(2) by (meson lessThan_iff set_zip_leftD set_zip_rightD subsetD)
  then have set: "set (match_pairs ?m) = set (zip ?ts ?is)" by (intro match_pairs_pair_up [OF z]) auto
  then have "in_order (match_pairs ?m)" unfolding in_order_match_pairs using in_order_nth_iff [OF z] by simp
  then have "match_ok (length targets) (length items) ?m"
    using set bound by (auto simp: match_ok_def length_pair_up list_all_iff)
  then show ?thesis using align_labels_ok by (simp add: match_in_order_def Let_def)
qed

end
