(* ===== verification/Scopes.thy ===== *)
theory Scopes
  imports ChapterMatch
begin

text \<open>
  Which part of the text an audio file, or an embedded audio chapter, covers (\<open>alignment.rs\<close>): the scopes
  of a book whose tracks are chapters and of a book with embedded chapters, from its table of
  contents and, where that leaves chapters out, from the headings and the picture pages of its text.
  A spine index beyond the sections panics in the code: \<open>None\<close> here.
\<close>

record toc_entry =
  te_title :: ustr
  te_spine :: nat

record spine_section =
  ss_href :: ustr
  ss_text :: ustr

record track_scope =
  ts_track :: nat
  ts_start :: nat
  ts_stop :: nat

record chapter_scope =
  cs_chapter :: nat
  cs_chapter_end :: nat
  cs_start :: nat
  cs_stop :: nat

section \<open>Tracks\<close>

definition anchor_step :: "toc_entry list \<Rightarrow> (nat \<times> nat) list \<Rightarrow> nat \<times> nat option \<Rightarrow> (nat \<times> nat) list" where
  "anchor_step toc pairs x =
     (case x of
        (target, None) \<Rightarrow> pairs
      | (target, Some item) \<Rightarrow>
          (let spine = te_spine (toc ! item) in
           if pairs \<noteq> [] \<and> spine \<le> snd (last pairs) then pairs else pairs @ [(target, spine)]))"

definition anchor_pairs :: "nat option list \<Rightarrow> toc_entry list \<Rightarrow> (nat \<times> nat) list" where
  "anchor_pairs matched toc = foldl (anchor_step toc) [] (enumerate 0 matched)"

definition build_track_scopes ::
  "unicode \<Rightarrow> (uchar \<Rightarrow> bool) \<Rightarrow> ustr list \<Rightarrow> toc_entry list \<Rightarrow> nat \<Rightarrow> string + track_scope list" where
  "build_track_scopes u alphabetic titles toc section_count =
     (if toc = [] then Inl ''The EPUB has no usable table of contents to match audio tracks against.''
      else (let targets = map (parse_label u alphabetic) titles;
                items = map (\<lambda>e. parse_label u alphabetic (te_title e)) toc;
                starts = anchor_pairs (match_in_order targets items) toc
            in if starts = []
               then Inl ''Could not match any audio track to a chapter in the EPUB's table of contents.''
               else Inr (map (\<lambda>i. \<lparr>ts_track = fst (starts ! i), ts_start = snd (starts ! i),
                                   ts_stop = (if i + 1 < length starts then snd (starts ! (i + 1)) else section_count)\<rparr>)
                           [0..<length starts])))"

lemma anchor_pairs_Cons:
  "foldl (anchor_step toc) [] (enumerate 0 (m @ [x])) = anchor_step toc (foldl (anchor_step toc) [] (enumerate 0 m)) (length m, x)"
  by (simp add: enumerate_append_eq)

lemma in_order_rising: "in_order ps \<Longrightarrow> rising ps"
  by (erule sorted_wrt_mono_rel [rotated]) simp

lemma anchor_step_cases:
  obtains "anchor_step toc ps (t, x) = ps"
  | item where "x = Some item" "anchor_step toc ps (t, x) = ps @ [(t, te_spine (toc ! item))]"
      "ps = [] \<or> snd (last ps) < te_spine (toc ! item)"
proof (cases x)
  case (Some item)
  then show thesis
    using that by (cases "ps \<noteq> [] \<and> te_spine (toc ! item) \<le> snd (last ps)") (auto simp: anchor_step_def)
qed (use that in \<open>simp add: anchor_step_def\<close>)

lemma anchor_pairs_ok:
  "in_order (anchor_pairs m toc)
   \<and> (\<forall>t s. (t, s) \<in> set (anchor_pairs m toc)
        \<longrightarrow> t < length m \<and> (\<exists>item. m ! t = Some item \<and> s = te_spine (toc ! item)))"
  unfolding anchor_pairs_def
proof (induction m rule: rev_induct)
  case (snoc x m)
  let ?ps = "foldl (anchor_step toc) [] (enumerate 0 m)"
  have order: "in_order ?ps" using snoc by (rule conjunct1)
  have known: "t < length m \<and> (\<exists>item. m ! t = Some item \<and> s = te_spine (toc ! item))" if "(t, s) \<in> set ?ps" for t s
    using snoc that by blast
  have kept: "t < length (m @ [x]) \<and> (\<exists>item. (m @ [x]) ! t = Some item \<and> s = te_spine (toc ! item))"
    if "(t, s) \<in> set ?ps" for t s
    using known [OF that] by (simp add: nth_append)
  have tracks: "fst p < length m" if "p \<in> set ?ps" for p using known [of "fst p" "snd p"] that by simp
  have spines: "snd p \<le> snd (last ?ps)" if "p \<in> set ?ps" for p
    by (rule rising_last_max [OF in_order_rising [OF order] that])
  from anchor_step_cases [of toc ?ps "length m" x] show ?case
  proof cases
    case 1
    then show ?thesis using order kept unfolding anchor_pairs_Cons by simp
  next
    case (2 item)
    have "in_order (?ps @ [(length m, te_spine (toc ! item))])"
    proof -
      have "fst p < length m \<and> snd p < te_spine (toc ! item)" if "p \<in> set ?ps" for p
        using tracks [OF that] spines [OF that] 2(3) that by (cases "?ps = []") auto
      then show ?thesis using order by (simp add: sorted_wrt_append)
    qed
    then show ?thesis using kept 2(1) unfolding anchor_pairs_Cons 2(2) by (auto simp: nth_append)
  qed
qed simp


definition ex_titles :: "ustr list" where
  "ex_titles = [cps ''Dawn'', cps ''Dusk'']"

definition ex_toc :: "toc_entry list" where
  "ex_toc = [\<lparr>te_title = cps ''Dawn'', te_spine = 1\<rparr>, \<lparr>te_title = cps ''Dusk'', te_spine = 2\<rparr>]"

definition ex_tracks :: "track_scope list" where
  "ex_tracks = [\<lparr>ts_track = 0, ts_start = 1, ts_stop = 2\<rparr>, \<lparr>ts_track = 1, ts_start = 2, ts_stop = 4\<rparr>]"

lemma ex_track_scopes:
  "build_track_scopes ascii_tables (is_alphanumeric ascii_tables) ex_titles ex_toc 4 = Inr ex_tracks"
  by code_simp


section \<open>Chapters missing from the contents\<close>

text \<open>\<open>split("\n\n")\<close>.\<close>

fun split_paragraphs :: "ustr \<Rightarrow> ustr list" where
  "split_paragraphs (c # d # s) =
     (if c = 10 \<and> d = 10 then [] # split_paragraphs s
      else case split_paragraphs (d # s) of p # ps \<Rightarrow> (c # p) # ps | [] \<Rightarrow> [[c]])"
| "split_paragraphs s = [s]"

fun heading_names :: "unicode \<Rightarrow> ustr \<Rightarrow> ustr \<Rightarrow> ustr \<Rightarrow> ustr list \<Rightarrow> bool" where
  "heading_names u full leaf heading [] \<longleftrightarrow> False"
| "heading_names u full leaf heading (p # ps) \<longleftrightarrow>
     \<not> 16 < length (split_whitespace p)
     \<and> (let heading' = heading @ (if heading = [] then [] else [32]) @ p;
            normalized = normalize_label_text u heading'
        in normalized \<noteq> [] \<and> (normalized = full \<or> normalized = leaf) \<or> heading_names u full leaf heading' ps)"

fun first_known :: "'a option list \<Rightarrow> 'a option" where
  "first_known [] = None"
| "first_known (Some x # xs) = Some x"
| "first_known (None # xs) = first_known xs"

definition recover_heading ::
  "unicode \<Rightarrow> ustr list \<Rightarrow> parsed_label list \<Rightarrow> spine_section list \<Rightarrow> nat option list \<Rightarrow> nat \<Rightarrow> nat option list option" where
  "recover_heading u titles targets sections matched index =
     (case (matched ! index, first_known (rev (take index matched)), first_known (drop (index + 1) matched)) of
        (None, Some before, Some after) \<Rightarrow>
          if before + 1 < after \<and> length sections < after then None
          else (let full = normalize_label_text u (titles ! index);
                    leaf = (case lb_leaf (targets ! index) of Some l \<Rightarrow> l | None \<Rightarrow> full);
                    candidates = filter (\<lambda>spine. heading_names u full leaf [] (take 3 (split_paragraphs (ss_text (sections ! spine)))))
                      [before + 1..<after]
                in Some (case candidates of [spine] \<Rightarrow> matched[index := Some spine] | _ \<Rightarrow> matched))
      | _ \<Rightarrow> Some matched)"

definition recover_headings ::
  "unicode \<Rightarrow> ustr list \<Rightarrow> parsed_label list \<Rightarrow> spine_section list \<Rightarrow> nat option list \<Rightarrow> nat option list option" where
  "recover_headings u titles targets sections matched =
     foldl (\<lambda>m index. Option.bind m (\<lambda>m. recover_heading u titles targets sections m index)) (Some matched) [0..<length matched]"

text \<open>Pages that show a narrated picture.\<close>

definition picture_words :: "ustr list" where
  "picture_words = map cps [''map'', ''sketchbook'', ''folio'', ''glyphs'', ''illustration'', ''notebook'']"

fun dedup_href :: "spine_section list \<Rightarrow> nat list \<Rightarrow> nat list" where
  "dedup_href sections (x # y # xs) =
     (if ss_href (sections ! y) = ss_href (sections ! x) then dedup_href sections (x # xs)
      else x # dedup_href sections (y # xs))"
| "dedup_href sections xs = xs"

definition place_pictures ::
  "unicode \<Rightarrow> (uchar \<Rightarrow> bool) \<Rightarrow> ustr list \<Rightarrow> spine_section list \<Rightarrow> nat option list \<Rightarrow> (nat \<times> nat) \<times> (nat \<times> nat)
   \<Rightarrow> nat option list" where
  "place_pictures u alphabetic titles sections matched window =
     (let ((before_chapter, before_spine), (after_chapter, after_spine)) = window;
          missing = [before_chapter + 1..<after_chapter];
          image_sections = filter (\<lambda>i. i < length sections \<and> trim (ss_text (sections ! i)) = []) [before_spine + 1..<after_spine];
          trailing = filter (\<lambda>i. ss_href (sections ! i) = ss_href (sections ! before_spine)) image_sections;
          run = (if length trailing = length missing then trailing else image_sections);
          pictures = (if length run \<noteq> length missing then dedup_href sections run else run)
      in if after_chapter \<le> before_chapter + 1 \<or> after_spine \<le> before_spine + 1 then matched
         else if \<not> list_all (\<lambda>i. list_ex (\<lambda>w. w \<in> set picture_words)
                     (split_on 32 (lb_key (parse_label u alphabetic (titles ! i))))) missing then matched
         else if length pictures = length missing
         then foldl (\<lambda>m (chapter, spine). m[chapter := Some spine]) matched (zip missing pictures)
         else matched)"

definition recover_pictures ::
  "unicode \<Rightarrow> (uchar \<Rightarrow> bool) \<Rightarrow> ustr list \<Rightarrow> spine_section list \<Rightarrow> nat option list \<Rightarrow> nat option list" where
  "recover_pictures u alphabetic titles sections matched =
     (let known = match_pairs matched
      in foldl (place_pictures u alphabetic titles sections) matched (zip known (tl known)))"

section \<open>Embedded chapters\<close>

definition least_of :: "nat list \<Rightarrow> nat option" where
  "least_of xs = (case xs of [] \<Rightarrow> None | x # r \<Rightarrow> Some (foldl min x r))"

definition unread_titles :: "ustr list" where
  "unread_titles = map cps
     [''acknowledgments'', ''acknowledgements'', ''about the author'', ''credits'', ''opening credits'', ''closing credits'',
      ''end credits'']"

definition unspoken_titles :: "ustr list" where
  "unspoken_titles = map cps
     [''acknowledgments'', ''acknowledgements'', ''about the author'', ''copyright'', ''copyright page'',
      ''table of contents'', ''contents'']"

text \<open>The first unspoken page between two starts ends the section range early.\<close>

definition scope_stop :: "unicode \<Rightarrow> (uchar \<Rightarrow> bool) \<Rightarrow> toc_entry list \<Rightarrow> nat \<Rightarrow> nat \<Rightarrow> nat" where
  "scope_stop u alphabetic toc start next_start =
     (case least_of (map te_spine (filter (\<lambda>e. let label = parse_label u alphabetic (te_title e) in
             start < te_spine e \<and> te_spine e < next_start \<and> lb_number label = None
             \<and> lb_key label \<in> set unspoken_titles) toc)) of
        Some s \<Rightarrow> s
      | None \<Rightarrow> next_start)"

definition chapter_scope_at ::
  "unicode \<Rightarrow> (uchar \<Rightarrow> bool) \<Rightarrow> parsed_label list \<Rightarrow> toc_entry list \<Rightarrow> bool \<Rightarrow> nat \<Rightarrow> (nat \<times> nat) list \<Rightarrow> nat \<Rightarrow> chapter_scope" where
  "chapter_scope_at u alphabetic targets toc has_sections trailing_end known i =
     (let (chapter, start) = known ! i;
          next_start = (if i + 1 < length known then snd (known ! (i + 1)) else trailing_end)
      in \<lparr>cs_chapter = chapter,
          cs_chapter_end =
            (if i + 1 < length known \<and> has_sections
                \<and> list_ex (\<lambda>k. \<not> is_apparatus (targets ! k)) [chapter + 1..<fst (known ! (i + 1))]
             then fst (known ! (i + 1)) else chapter + 1),
          cs_start = start,
          cs_stop = scope_stop u alphabetic toc start next_start\<rparr>)"

definition unmatched_inside :: "parsed_label list \<Rightarrow> nat option list \<Rightarrow> nat \<Rightarrow> nat \<Rightarrow> nat option" where
  "unmatched_inside targets matched first last_index =
     (case filter (\<lambda>i. first < i \<and> i < last_index \<and> matched ! i = None
             \<and> \<not> (lb_number (targets ! i) = None \<and> lb_key (targets ! i) \<in> set unread_titles)) [0..<length matched] of
        [] \<Rightarrow> None
      | i # _ \<Rightarrow> Some i)"

definition matched_spines ::
  "unicode \<Rightarrow> (uchar \<Rightarrow> bool) \<Rightarrow> ustr list \<Rightarrow> toc_entry list \<Rightarrow> spine_section list option \<Rightarrow> nat option list option" where
  "matched_spines u alphabetic titles toc sections =
     (let targets = map (parse_label u alphabetic) titles;
          ordered_toc = sort_key te_spine toc;
          items = map (\<lambda>e. parse_label u alphabetic (te_title e)) ordered_toc;
          matched = map (map_option (\<lambda>i. te_spine (ordered_toc ! i))) (match_in_order targets items)
      in case sections of
           None \<Rightarrow> Some matched
         | Some ss \<Rightarrow> map_option (recover_pictures u alphabetic titles ss) (recover_headings u titles targets ss matched))"

definition build_chapter_scopes_inner ::
  "unicode \<Rightarrow> (uchar \<Rightarrow> bool) \<Rightarrow> ustr list \<Rightarrow> toc_entry list \<Rightarrow> nat \<Rightarrow> spine_section list option
   \<Rightarrow> (ustr + chapter_scope list) option" where
  "build_chapter_scopes_inner u alphabetic titles toc section_count sections =
     (if toc = [] then Some (Inl (cps ''The EPUB has no usable table of contents to match audio chapters against.''))
      else map_option (\<lambda>matched.
        let targets = map (parse_label u alphabetic) titles;
            known = match_pairs matched
        in if length known < 2
           then Inl (cps ''Fewer than two embedded audio chapters matched the EPUB.'')
           else if list_ex (\<lambda>(a, b). snd b \<le> snd a) (zip known (tl known))
           then Inl (cps ''Embedded chapters share or reverse EPUB documents; use whole-track alignment.'')
           else case (sections, unmatched_inside targets matched (fst (hd known)) (fst (last known))) of
             (None, Some i) \<Rightarrow>
               Inl (cps ''Embedded audio chapter `'' @ titles ! i @ cps ''` could not be matched between two matched chapters.'')
           | _ \<Rightarrow>
               (let last_spine = snd (last known);
                    trailing_end = min (case least_of (filter (\<lambda>s. last_spine < s) (map te_spine toc)) of
                                          Some s \<Rightarrow> s | None \<Rightarrow> section_count) section_count
                in Inr (map (chapter_scope_at u alphabetic targets toc (sections \<noteq> None) trailing_end known) [0..<length known])))
        (matched_spines u alphabetic titles toc sections))"

text \<open>Parts \<open>A\<close>, \<open>B\<close>, ... of one numbered chapter, whose text has it unsplit.\<close>

definition splits_into_parts :: "parsed_label list \<Rightarrow> parsed_label \<Rightarrow> bool" where
  "splits_into_parts items label \<longleftrightarrow>
     lb_number label \<noteq> None \<and> lb_series label = [] \<and> lb_key label = cps ''a''
     \<and> list_ex (\<lambda>item. lb_number item = lb_number label \<and> lb_series item = [] \<and> lb_key item = []) items
     \<and> \<not> list_ex (\<lambda>item. lb_number item = lb_number label \<and> lb_series item = []
          \<and> length (lb_key item) = 1 \<and> u_alpha (hd (lb_key item))) items"

function part_end :: "parsed_label list \<Rightarrow> nat \<Rightarrow> nat \<Rightarrow> nat" where
  "part_end labels index stop =
     (if stop < length labels \<and> stop - index < 26
         \<and> lb_number (labels ! stop) = lb_number (labels ! index) \<and> lb_series (labels ! stop) = []
         \<and> lb_key (labels ! stop) = [97 + of_nat (stop - index)]
      then part_end labels index (stop + 1) else stop)"
  by pat_completeness auto
termination by (relation "measure (\<lambda>(labels, index, stop). length labels - stop)") auto

declare part_end.simps [simp del]

definition group_end :: "parsed_label list \<Rightarrow> parsed_label list \<Rightarrow> nat \<Rightarrow> nat" where
  "group_end labels items index =
     (if splits_into_parts items (labels ! index) then part_end labels index (index + 1) else index + 1)"

lemma part_end_ge: "stop \<le> part_end labels index stop"
  by (induction labels index stop rule: part_end.induct) (subst part_end.simps, auto)

lemma part_end_le: "stop \<le> length labels \<Longrightarrow> part_end labels index stop \<le> length labels"
  by (induction labels index stop rule: part_end.induct) (subst part_end.simps, auto)

lemma group_end_gt: "index < group_end labels items index"
  using part_end_ge [of "index + 1" labels index] by (simp add: group_end_def)

lemma group_end_le: "index < length labels \<Longrightarrow> group_end labels items index \<le> length labels"
  using part_end_le [of "index + 1" labels index] by (simp add: group_end_def)

function chapter_groups :: "parsed_label list \<Rightarrow> parsed_label list \<Rightarrow> nat \<Rightarrow> (nat \<times> nat) list" where
  "chapter_groups labels items index =
     (if index < length labels
      then (index, group_end labels items index) # chapter_groups labels items (group_end labels items index) else [])"
  by pat_completeness auto
termination
  by (relation "measure (\<lambda>(labels, items, index). length labels - index)") (auto simp: group_end_gt diff_less_mono2)

declare chapter_groups.simps [simp del]

definition group_title :: "parsed_label list \<Rightarrow> ustr list \<Rightarrow> nat \<times> nat \<Rightarrow> ustr" where
  "group_title labels titles chapter_run =
     (let (index, stop) = chapter_run in
      if index + 1 < stop then cps (''Chapter '' @ dec (unat (the (lb_number (labels ! index))))) else titles ! index)"

definition build_grouped_chapter_scopes ::
  "unicode \<Rightarrow> (uchar \<Rightarrow> bool) \<Rightarrow> ustr list \<Rightarrow> toc_entry list \<Rightarrow> nat \<Rightarrow> spine_section list option
   \<Rightarrow> (ustr + chapter_scope list) option" where
  "build_grouped_chapter_scopes u alphabetic titles toc section_count sections =
     (let labels = map (parse_label u alphabetic) titles;
          items = map (\<lambda>e. parse_label u alphabetic (te_title e)) toc;
          groups = chapter_groups labels items 0
      in map_option (map_sum id (map (\<lambda>scope. scope\<lparr>
             cs_chapter_end := snd (groups ! (cs_chapter_end scope - 1)), cs_chapter := fst (groups ! cs_chapter scope)\<rparr>)))
           (build_chapter_scopes_inner u alphabetic (map (group_title labels titles) groups) toc section_count sections))"

definition build_chapter_scopes_with_sections ::
  "unicode \<Rightarrow> (uchar \<Rightarrow> bool) \<Rightarrow> ustr list \<Rightarrow> toc_entry list \<Rightarrow> spine_section list \<Rightarrow> (ustr + chapter_scope list) option" where
  "build_chapter_scopes_with_sections u alphabetic titles toc sections =
     build_grouped_chapter_scopes u alphabetic titles toc (length sections) (Some sections)"

section \<open>Scopes do not overlap\<close>

lemma foldl_min_in: "foldl min x xs \<in> insert x (set xs)"
  by (induction xs rule: rev_induct) (auto simp: min_def)

lemma least_of_in: "least_of xs = Some s \<Longrightarrow> s \<in> set xs"
  using foldl_min_in by (cases xs) (auto simp: least_of_def)

lemma scope_stop_between:
  assumes "start < next_start"
  shows "start < scope_stop u alphabetic toc start next_start \<and> scope_stop u alphabetic toc start next_start \<le> next_start"
  using assms least_of_in by (fastforce simp: scope_stop_def Let_def split: option.split dest!: least_of_in)

definition spines_below :: "nat \<Rightarrow> nat option list \<Rightarrow> bool" where
  "spines_below n m \<longleftrightarrow> (\<forall>s. Some s \<in> set m \<longrightarrow> s < n)"

lemma spines_below_update: "spines_below n m \<Longrightarrow> s < n \<Longrightarrow> spines_below n (m[i := Some s])"
  unfolding spines_below_def using set_update_subset_insert by fastforce

lemma first_known_in: "first_known xs = Some x \<Longrightarrow> Some x \<in> set xs"
  by (induction xs rule: first_known.induct) auto

lemma recover_heading_ok:
  assumes "spines_below (length sections) m"
  shows "\<exists>m'. recover_heading u titles targets sections m index = Some m' \<and> length m' = length m \<and> spines_below (length sections) m'"
proof (cases "\<exists>b a. m ! index = None \<and> first_known (rev (take index m)) = Some b \<and> first_known (drop (index + 1) m) = Some a")
  case True
  then obtain b a where k: "m ! index = None" "first_known (rev (take index m)) = Some b" "first_known (drop (index + 1) m) = Some a"
    by blast
  have "a < length sections"
    using assms first_known_in [OF k(3)] by (auto simp: spines_below_def dest: in_set_dropD)
  moreover have "spine < length sections" if "filter P [b + 1..<a] = spine # r" for P spine r
  proof -
    have "spine \<in> set (filter P [b + 1..<a])" using that by simp
    then show ?thesis using calculation by auto
  qed
  ultimately show ?thesis
    using k assms by (auto simp: recover_heading_def Let_def spines_below_update split: list.split)
next
  case False
  then have "recover_heading u titles targets sections m index = Some m"
    by (auto simp: recover_heading_def split: option.split)
  then show ?thesis using assms by blast
qed

lemma recover_headings_ok:
  assumes "spines_below (length sections) m"
  shows "\<exists>m'. recover_headings u titles targets sections m = Some m' \<and> length m' = length m \<and> spines_below (length sections) m'"
proof -
  have "\<exists>m'. foldl (\<lambda>m index. Option.bind m (\<lambda>m. recover_heading u titles targets sections m index)) (Some m) xs = Some m'
      \<and> length m' = length m \<and> spines_below (length sections) m'" for xs
  proof (induction xs rule: rev_induct)
    case (snoc x xs)
    then show ?case using recover_heading_ok by fastforce
  qed (use assms in simp)
  then show ?thesis by (simp add: recover_headings_def)
qed

lemma set_dedup_href: "set (dedup_href sections xs) \<subseteq> set xs"
  by (induction sections xs rule: dedup_href.induct) auto

lemma foldl_update_ok:
  "spines_below n m \<Longrightarrow> (\<forall>(c, s) \<in> set ps. s < n)
   \<Longrightarrow> length (foldl (\<lambda>m (c, s). m[c := Some s]) m ps) = length m \<and> spines_below n (foldl (\<lambda>m (c, s). m[c := Some s]) m ps)"
  by (induction ps arbitrary: m) (auto simp: spines_below_update)

lemma place_pictures_ok:
  assumes "spines_below n m" "snd (snd w) \<le> n"
  shows "length (place_pictures u alphabetic titles sections m w) = length m
    \<and> spines_below n (place_pictures u alphabetic titles sections m w)"
proof -
  obtain bc bs ac as where w: "w = ((bc, bs), (ac, as))" by (metis prod.collapse)
  let ?images = "filter (\<lambda>i. i < length sections \<and> trim (ss_text (sections ! i)) = []) [bs + 1..<as]"
  have low: "\<forall>(c, s) \<in> set (zip missing run). s < n" if "set run \<subseteq> set ?images" for missing :: "nat list" and run
    using that assms(2) w by (fastforce dest: set_zip_rightD)
  have sub: "set (filter P ?images) \<subseteq> set ?images" "set (dedup_href sections ?images) \<subseteq> set ?images"
    "set (dedup_href sections (filter P ?images)) \<subseteq> set ?images" for P
    using set_dedup_href by (auto dest: subsetD [OF set_dedup_href])
  show ?thesis
    unfolding place_pictures_def w Let_def prod.case
    using assms(1) foldl_update_ok [OF assms(1) low] sub by (simp only: if_split_asm split: if_split) auto
qed

lemma recover_pictures_ok:
  assumes "spines_below n m"
  shows "length (recover_pictures u alphabetic titles sections m) = length m
    \<and> spines_below n (recover_pictures u alphabetic titles sections m)"
proof -
  have "length (foldl (place_pictures u alphabetic titles sections) m ws) = length m
      \<and> spines_below n (foldl (place_pictures u alphabetic titles sections) m ws)" if "\<forall>w \<in> set ws. snd (snd w) \<le> n" for ws
    using that
  proof (induction ws rule: rev_induct)
    case (snoc w ws)
    then show ?case using place_pictures_ok [of n _ w] by simp
  qed (use assms in simp)
  moreover have "snd (snd w) \<le> n" if "w \<in> set (zip (match_pairs m) (tl (match_pairs m)))" for w
  proof -
    have "snd w \<in> set (match_pairs m)"
      using that by (metis list.set_sel(2) prod.collapse set_zip_rightD tl_Nil)
    then have "m ! fst (snd w) = Some (snd (snd w))" "fst (snd w) < length m"
      using set_match_pairs [of "fst (snd w)" "snd (snd w)" m] by simp_all
    then show ?thesis using assms unfolding spines_below_def by (metis less_imp_le nth_mem)
  qed
  ultimately show ?thesis by (simp add: recover_pictures_def Let_def)
qed

lemma matched_spines_ok:
  assumes "\<forall>e \<in> set toc. te_spine e < n" "\<forall>ss. sections = Some ss \<longrightarrow> length ss = n"
  shows "\<exists>m. matched_spines u alphabetic titles toc sections = Some m \<and> length m = length titles \<and> spines_below n m"
proof -
  let ?targets = "map (parse_label u alphabetic) titles" and ?toc = "sort_key te_spine toc"
  let ?items = "map (\<lambda>e. parse_label u alphabetic (te_title e)) ?toc"
  let ?m = "match_in_order ?targets ?items"
  let ?spines = "map (map_option (\<lambda>i. te_spine (?toc ! i))) ?m"
  have ok: "match_ok (length titles) (length toc) ?m" using match_in_order_ok [of ?targets ?items] by simp
  have len: "length ?m = length titles" using ok by (simp add: match_ok_def)
  have below: "spines_below n ?spines"
    unfolding spines_below_def
  proof (intro allI impI)
    fix s assume "Some s \<in> set ?spines"
    then obtain k where "k < length ?m" "map_option (\<lambda>i. te_spine (?toc ! i)) (?m ! k) = Some s"
      unfolding in_set_conv_nth by (metis length_map nth_map)
    then obtain i where k: "k < length ?m" "?m ! k = Some i" "s = te_spine (?toc ! i)" by auto
    then have "i < length ?toc" using match_okD [OF ok k(2)] len by simp
    then have "?toc ! i \<in> set toc" by (metis nth_mem set_sort)
    then show "s < n" using assms(1) k(3) by simp
  qed
  show ?thesis
  proof (cases sections)
    case None
    then show ?thesis using below len by (simp add: matched_spines_def Let_def)
  next
    case (Some ss)
    then have n: "length ss = n" using assms(2) by simp
    obtain m where m: "recover_headings u titles ?targets ss ?spines = Some m" "length m = length ?spines" "spines_below n m"
      using recover_headings_ok [of ss ?spines u titles ?targets] below n by blast
    then show ?thesis
      using Some recover_pictures_ok [OF m(3), of u alphabetic titles ss] len by (simp add: matched_spines_def Let_def)
  qed
qed

definition chapters_disjoint :: "nat \<Rightarrow> nat \<Rightarrow> chapter_scope list \<Rightarrow> bool" where
  "chapters_disjoint chapters section_count scopes \<longleftrightarrow>
     sorted_wrt (\<lambda>a b. cs_chapter_end a \<le> cs_chapter b \<and> cs_stop a \<le> cs_start b) scopes
     \<and> list_all (\<lambda>s. cs_chapter s < cs_chapter_end s \<and> cs_chapter_end s \<le> chapters
                  \<and> cs_start s < cs_stop s \<and> cs_stop s \<le> section_count) scopes"

lemma chapter_scope_at_ok:
  assumes order: "in_order known" and i: "i < length known" and last: "snd (last known) < trailing_end"
    and s_def: "s = chapter_scope_at u alphabetic targets toc has_sections trailing_end known i"
  shows "cs_chapter s = fst (known ! i) \<and> cs_start s = snd (known ! i) \<and> cs_chapter s < cs_chapter_end s \<and> cs_start s < cs_stop s
    \<and> (if i + 1 < length known then cs_chapter_end s \<le> fst (known ! (i + 1)) \<and> cs_stop s \<le> snd (known ! (i + 1))
       else cs_chapter_end s = fst (known ! i) + 1 \<and> cs_stop s \<le> trailing_end)"
proof (cases "i + 1 < length known")
  case True
  then have "fst (known ! i) < fst (known ! (i + 1)) \<and> snd (known ! i) < snd (known ! (i + 1))"
    using sorted_wrt_nth_less [OF order, of i "i + 1"] by simp
  then show ?thesis
    using True scope_stop_between [of "snd (known ! i)" "snd (known ! (i + 1))" u alphabetic toc]
    by (simp add: s_def chapter_scope_at_def Let_def split_def)
next
  case False
  then have "i = length known - 1" "known \<noteq> []" using i by auto
  then have "known ! i = last known" by (simp add: last_conv_nth)
  then show ?thesis
    using False last scope_stop_between [of "snd (known ! i)" trailing_end u alphabetic toc]
    by (simp add: s_def chapter_scope_at_def Let_def split_def)
qed

lemma chapter_scopes_at_disjoint:
  assumes order: "in_order known" and last: "snd (last known) < trailing_end" "trailing_end \<le> n"
    and chapters: "\<forall>p \<in> set known. fst p < rows"
  shows "chapters_disjoint rows n (map (chapter_scope_at u alphabetic targets toc has_sections trailing_end known) [0..<length known])"
proof -
  let ?at = "chapter_scope_at u alphabetic targets toc has_sections trailing_end known"
  note at_ok = chapter_scope_at_ok [OF order _ last(1) refl, where u = u and alphabetic = alphabetic and targets = targets
      and toc = toc and has_sections = has_sections]
  have step: "cs_chapter_end (?at i) \<le> cs_chapter (?at j) \<and> cs_stop (?at i) \<le> cs_start (?at j)" if "i < j" "j < length known" for i j
  proof -
    have i: "i + 1 < length known" using that by simp
    have "fst (known ! (i + 1)) \<le> fst (known ! j) \<and> snd (known ! (i + 1)) \<le> snd (known ! j)"
      using sorted_wrt_nth_less [OF order _ that(2), of "i + 1"] that(1) by (cases "i + 1 = j") auto
    then show ?thesis
      using at_ok [of i] at_ok [OF that(2)] i by auto
  qed
  have each: "cs_chapter (?at i) < cs_chapter_end (?at i) \<and> cs_chapter_end (?at i) \<le> rows
      \<and> cs_start (?at i) < cs_stop (?at i) \<and> cs_stop (?at i) \<le> n" if i: "i < length known" for i
  proof (cases "i + 1 < length known")
    case True
    then have "fst (known ! (i + 1)) < rows" using chapters by simp
    moreover have "snd (known ! (i + 1)) \<le> n"
      using rising_last_max [OF in_order_rising [OF order], of "known ! (i + 1)"] last True by simp
    ultimately show ?thesis using True at_ok [OF i] by auto
  next
    case False
    moreover have "fst (known ! i) < rows" using chapters i by simp
    ultimately show ?thesis using at_ok [OF i] last(2) by auto
  qed
  show ?thesis using step each by (simp add: chapters_disjoint_def sorted_wrt_iff_nth_less list_all_length)
qed

lemma rising_windows:
  assumes "\<not> list_ex (\<lambda>(a, b). snd b \<le> snd a) (zip ps (tl ps))"
  shows "rising (ps :: (nat \<times> nat) list)"
proof -
  have "snd (ps ! i) < snd (ps ! Suc i)" if "Suc i < length ps" for i
  proof -
    have "(ps ! i, ps ! Suc i) \<in> set (zip ps (tl ps))"
      using that by (auto simp: set_zip nth_tl intro!: exI [of _ i])
    then show ?thesis using assms by (fastforce simp: list_ex_iff)
  qed
  then have "sorted_wrt (\<lambda>a b. snd a < snd b) ps"
    by (subst sorted_wrt_iff_nth_Suc_transp) (auto simp: transp_def)
  then show ?thesis .
qed

lemma match_pairs_sorted: "sorted_wrt (\<lambda>a b. fst a < fst b) (match_pairs m)"
  by (simp add: match_pairs_def sorted_wrt_map sorted_wrt_filter)

lemma chapter_scopes_inner_ok:
  assumes "\<forall>e \<in> set toc. te_spine e < n" "\<forall>ss. sections = Some ss \<longrightarrow> length ss = n"
  shows "\<exists>r. build_chapter_scopes_inner u alphabetic titles toc n sections = Some r
    \<and> (\<forall>scopes. r = Inr scopes \<longrightarrow> 2 \<le> length scopes \<and> chapters_disjoint (length titles) n scopes)"
proof -
  obtain m where m: "matched_spines u alphabetic titles toc sections = Some m" "length m = length titles" "spines_below n m"
    using matched_spines_ok [OF assms] by blast
  let ?known = "match_pairs m"
  have known: "fst p < length titles \<and> snd p < n" if "p \<in> set ?known" for p
    using that set_match_pairs [of "fst p" "snd p" m] m(2,3) unfolding spines_below_def by simp (metis nth_mem)
  define te where "te = min (case least_of (filter (\<lambda>s. snd (last ?known) < s) (map te_spine toc)) of Some s \<Rightarrow> s | None \<Rightarrow> n) n"
  have te: "snd (last ?known) < te" "te \<le> n" if "?known \<noteq> []"
    using known [OF last_in_set [OF that]] by (auto simp: te_def dest: least_of_in split: option.split)
  have disjoint: "chapters_disjoint (length titles) n (map (chapter_scope_at u alphabetic (map (parse_label u alphabetic) titles) toc
      (sections \<noteq> None) te ?known) [0..<length ?known])"
    if "\<not> length ?known < 2" "\<not> list_ex (\<lambda>(a, b). snd b \<le> snd a) (zip ?known (tl ?known))"
  proof (rule chapter_scopes_at_disjoint [OF _ te])
    show "?known \<noteq> []" "?known \<noteq> []" using that(1) by auto
    show "in_order ?known"
      using rising_windows [OF that(2)] match_pairs_sorted [of m] by (simp add: sorted_wrt_iff_nth_less)
  qed (use known in blast)
  show ?thesis
    using m(1) disjoint
    by (auto simp: build_chapter_scopes_inner_def Let_def te_def split: option.split)
qed

lemma chapter_groups_ok:
  "index \<le> length labels
   \<Longrightarrow> sorted_wrt (\<lambda>a b. snd a \<le> fst b) (chapter_groups labels items index)
     \<and> (\<forall>(a, b) \<in> set (chapter_groups labels items index). index \<le> a \<and> a < b \<and> b \<le> length labels)"
proof (induction labels items index rule: chapter_groups.induct)
  case (1 labels items index)
  show ?case
  proof (cases "index < length labels")
    case True
    let ?stop = "group_end labels items index"
    have stop: "index < ?stop" "?stop \<le> length labels" using group_end_gt group_end_le [OF True] by auto
    then have "sorted_wrt (\<lambda>a b. snd a \<le> fst b) (chapter_groups labels items ?stop)
      \<and> (\<forall>(a, b) \<in> set (chapter_groups labels items ?stop). ?stop \<le> a \<and> a < b \<and> b \<le> length labels)"
      using 1 True by simp
    then show ?thesis
      using stop True by (subst (1 2) chapter_groups.simps) (fastforce dest: less_le_trans)
  next
    case False
    then show ?thesis by (subst (1 2) chapter_groups.simps) simp
  qed
qed

lemma regroup_disjoint:
  assumes scopes: "chapters_disjoint (length groups) n scopes"
    and groups: "sorted_wrt (\<lambda>a b. snd a \<le> fst b) groups" "\<forall>(a, b) \<in> set groups. a < b \<and> b \<le> rows"
  shows "chapters_disjoint rows n (map (\<lambda>scope. scope\<lparr>
    cs_chapter_end := snd (groups ! (cs_chapter_end scope - 1)), cs_chapter := fst (groups ! cs_chapter scope)\<rparr>) scopes)"
proof -
  have each: "fst (groups ! i) < snd (groups ! i) \<and> snd (groups ! i) \<le> rows" if "i < length groups" for i
    using groups(2) nth_mem [OF that] by (metis (mono_tags, lifting) case_prod_unfold)
  have order: "snd (groups ! i) \<le> fst (groups ! j)" if "i < j" "j < length groups" for i j
    using sorted_wrt_nth_less [OF groups(1) that] .
  have mono: "fst (groups ! i) < snd (groups ! j)" if "i \<le> j" "j < length groups" for i j
    using that order [of i j] each [of i] each [of j] by (cases "i = j") auto
  have "cs_chapter s < cs_chapter_end s \<and> cs_chapter_end s \<le> length groups \<and> cs_start s < cs_stop s \<and> cs_stop s \<le> n"
    if "s \<in> set scopes" for s using scopes that by (auto simp: chapters_disjoint_def list_all_iff)
  then have "fst (groups ! cs_chapter s) < snd (groups ! (cs_chapter_end s - 1)) \<and> snd (groups ! (cs_chapter_end s - 1)) \<le> rows
      \<and> cs_start s < cs_stop s \<and> cs_stop s \<le> n" if "s \<in> set scopes" for s
    using that mono [of "cs_chapter s" "cs_chapter_end s - 1"] each [of "cs_chapter_end s - 1"] by fastforce
  moreover have "sorted_wrt (\<lambda>a b. snd (groups ! (cs_chapter_end a - 1)) \<le> fst (groups ! cs_chapter b) \<and> cs_stop a \<le> cs_start b) scopes"
  proof (rule sorted_wrt_mono_rel)
    show "sorted_wrt (\<lambda>a b. cs_chapter_end a \<le> cs_chapter b \<and> cs_stop a \<le> cs_start b) scopes"
      using scopes by (simp add: chapters_disjoint_def)
    fix a b assume ab: "a \<in> set scopes" "b \<in> set scopes" "cs_chapter_end a \<le> cs_chapter b \<and> cs_stop a \<le> cs_start b"
    then have "cs_chapter_end a - 1 < cs_chapter b" "cs_chapter b < length groups"
      using scopes by (fastforce simp: chapters_disjoint_def list_all_iff)+
    then show "snd (groups ! (cs_chapter_end a - 1)) \<le> fst (groups ! cs_chapter b) \<and> cs_stop a \<le> cs_start b"
      using order ab(3) by blast
  qed
  ultimately show ?thesis by (simp add: chapters_disjoint_def sorted_wrt_map list_all_iff)
qed

text \<open>
  C19: \<open>build_chapter_scopes_with_sections\<close> (\<open>alignment.rs\<close>) never runs past the sections when every contents entry
  points at one, and when it gives scopes, there are at least two, each covers at least one audio
  chapter and one section that exist, and no two share an audio chapter or a section: they go
  through audio and text in the same order.
\<close>

theorem chapter_scopes_never_overlap:
  assumes "list_all (\<lambda>e. te_spine e < length sections) toc"
  shows "\<exists>r. build_chapter_scopes_with_sections u alphabetic titles toc sections = Some r
    \<and> (\<forall>scopes. r = Inr scopes \<longrightarrow> 2 \<le> length scopes \<and> chapters_disjoint (length titles) (length sections) scopes)"
proof -
  let ?labels = "map (parse_label u alphabetic) titles" and ?items = "map (\<lambda>e. parse_label u alphabetic (te_title e)) toc"
  let ?groups = "chapter_groups ?labels ?items 0"
  have in_range: "\<forall>e \<in> set toc. te_spine e < length sections" using assms by (simp add: list_all_iff)
  obtain r where r: "build_chapter_scopes_inner u alphabetic (map (group_title ?labels titles) ?groups) toc (length sections)
      (Some sections) = Some r"
    "\<forall>scopes. r = Inr scopes \<longrightarrow> 2 \<le> length scopes \<and> chapters_disjoint (length ?groups) (length sections) scopes"
    using chapter_scopes_inner_ok [OF in_range, of "Some sections" u alphabetic "map (group_title ?labels titles) ?groups"]
    unfolding length_map by blast
  have groups: "sorted_wrt (\<lambda>a b. snd a \<le> fst b) ?groups" "\<forall>(a, b) \<in> set ?groups. a < b \<and> b \<le> length titles"
    using chapter_groups_ok [of 0 ?labels ?items] by auto
  show ?thesis
  proof (cases r)
    case (Inl e)
    then show ?thesis
      using r(1) by (simp add: build_chapter_scopes_with_sections_def build_grouped_chapter_scopes_def Let_def)
  next
    case (Inr scopes)
    then show ?thesis
      using r(1) r(2) [rule_format, OF Inr] regroup_disjoint [OF _ groups]
      by (simp add: build_chapter_scopes_with_sections_def build_grouped_chapter_scopes_def Let_def)
  qed
qed

definition ex_sections :: "spine_section list" where
  "ex_sections = replicate 4 \<lparr>ss_href = cps ''a'', ss_text = cps ''b''\<rparr>"

theorem chapter_scopes_never_overlap_witness:
  "build_chapter_scopes_with_sections ascii_tables (is_alphanumeric ascii_tables) ex_titles ex_toc ex_sections \<noteq> None"
proof -
  have "list_all (\<lambda>e. te_spine e < length ex_sections) ex_toc" by (simp add: ex_toc_def ex_sections_def)
  from chapter_scopes_never_overlap [OF this] show ?thesis by (metis option.distinct(1))
qed

end
