(* ===== verification/Addresses.thy ===== *)
theory Addresses
  imports Util
begin

text \<open>
  IP addresses as the standard library has them: printing (the longest run of zero segments
  of an IPv6 address is compressed), parsing (\<open>str::parse::<IpAddr>\<close>), the canonical
  form of an IPv4-mapped address and the loopback test. The throttle's keys are built from
  the printed form, and the address a reverse proxy reports is parsed.
\<close>

unbundle bit_operations_syntax

section \<open>Printing\<close>

datatype ip_addr = V4 u32 | V6 "128 word"

definition octet :: "u32 \<Rightarrow> nat \<Rightarrow> nat" where
  "octet a i = unat (drop_bit (8 * (3 - i)) a AND 0xff)"

definition show_v4 :: "u32 \<Rightarrow> string" where
  "show_v4 a = join ''.'' (map (\<lambda>i. dec (octet a i)) [0, 1, 2, 3])"

type_synonym u16 = "16 word"

definition segment :: "128 word \<Rightarrow> nat \<Rightarrow> u16" where
  "segment a i = ucast (drop_bit (16 * (7 - i)) a)"

definition segments :: "128 word \<Rightarrow> u16 list" where
  "segments a = map (segment a) [0, 1, 2, 3, 4, 5, 6, 7]"

text \<open>\<open>{:x}\<close>: lower-case hexadecimal without leading zeros.\<close>

definition hex_digits :: "u16 \<Rightarrow> string" where
  "hex_digits w = map (\<lambda>i. hex_lower (unat (drop_bit (4 * i) w AND 15))) [3, 2, 1, 0]"

definition hex :: "u16 \<Rightarrow> string" where
  "hex w = (if w = 0 then ''0'' else dropWhile (\<lambda>c. c = CHR ''0'') (hex_digits w))"

text \<open>The longest run of zero segments, the first of equal length: (start, length).\<close>

fun zero_spans :: "nat \<Rightarrow> u16 list \<Rightarrow> nat \<times> nat \<Rightarrow> nat \<times> nat \<Rightarrow> nat \<times> nat" where
  "zero_spans i [] current longest = longest"
| "zero_spans i (s # ss) (start, len) longest =
     (if s = 0
      then let grown = (if len = 0 then i else start, Suc len)
           in zero_spans (Suc i) ss grown (if snd grown > snd longest then grown else longest)
      else zero_spans (Suc i) ss (0, 0) longest)"

definition show_segments :: "u16 list \<Rightarrow> string" where
  "show_segments ss = join '':'' (map hex ss)"

definition to_ipv4_mapped :: "128 word \<Rightarrow> u32 option" where
  "to_ipv4_mapped a = (if drop_bit 32 a = 0xffff then Some (ucast a) else None)"

definition show_v6 :: "128 word \<Rightarrow> string" where
  "show_v6 a =
     (case to_ipv4_mapped a of
        Some v4 \<Rightarrow> ''::ffff:'' @ show_v4 v4
      | None \<Rightarrow>
          (case zero_spans 0 (segments a) (0, 0) (0, 0) of
             (start, len) \<Rightarrow>
               if len > 1
               then show_segments (take start (segments a)) @ ''::''
                    @ show_segments (drop (start + len) (segments a))
               else show_segments (segments a)))"

fun show_ip :: "ip_addr \<Rightarrow> string" where
  "show_ip (V4 a) = show_v4 a"
| "show_ip (V6 a) = show_v6 a"

fun to_canonical :: "ip_addr \<Rightarrow> ip_addr" where
  "to_canonical (V4 a) = V4 a"
| "to_canonical (V6 a) = (case to_ipv4_mapped a of Some v4 \<Rightarrow> V4 v4 | None \<Rightarrow> V6 a)"

section \<open>Parsing\<close>

text \<open>The parsers take a prefix of the text and return what is left.\<close>

definition hex_value :: "char \<Rightarrow> nat" where
  "hex_value c =
     (if is_ascii_digit c then byte c - 48 else if 97 \<le> byte c then byte c - 87 else byte c - 55)"

definition read_decimal :: "string \<Rightarrow> (nat \<times> string) option" where
  "read_decimal s =
     (let ds = takeWhile is_ascii_digit s in
      if ds = [] \<or> 3 < length ds \<or> (hd ds = CHR ''0'' \<and> 1 < length ds) \<or> 255 < dec_val ds
      then None else Some (dec_val ds, dropWhile is_ascii_digit s))"

definition read_hex :: "string \<Rightarrow> (u16 \<times> string) option" where
  "read_hex s =
     (let ds = takeWhile is_ascii_hexdigit s in
      if ds = [] \<or> 4 < length ds then None
      else Some (foldl (\<lambda>n c. 16 * n + of_nat (hex_value c)) 0 ds, dropWhile is_ascii_hexdigit s))"

fun read_char :: "char \<Rightarrow> string \<Rightarrow> string option" where
  "read_char c [] = None"
| "read_char c (x # s) = (if x = c then Some s else None)"

text \<open>A number and the dot after it.\<close>

definition read_octet :: "string \<Rightarrow> (nat \<times> string) option" where
  "read_octet s =
     Option.bind (read_decimal s) (\<lambda>(n, r). map_option (Pair n) (read_char CHR ''.'' r))"

definition read_v4 :: "string \<Rightarrow> (u32 \<times> string) option" where
  "read_v4 s =
     Option.bind (read_octet s) (\<lambda>(a, s). Option.bind (read_octet s) (\<lambda>(b, s).
     Option.bind (read_octet s) (\<lambda>(c, s). Option.bind (read_decimal s) (\<lambda>(d, s).
       Some (push_bit 24 (of_nat a) OR push_bit 16 (of_nat b) OR push_bit 8 (of_nat c) OR of_nat d, s)))))"

text \<open>\<open>read_groups\<close>: up to \<open>n\<close> groups separated by colons, the last two of which may be
  an embedded IPv4 address.\<close>

definition separated :: "nat \<Rightarrow> string \<Rightarrow> string option" where
  "separated i s = (if i = 0 then Some s else read_char CHR '':'' s)"

fun read_groups :: "nat \<Rightarrow> nat \<Rightarrow> string \<Rightarrow> u16 list \<times> bool \<times> string" where
  "read_groups i 0 s = ([], False, s)"
| "read_groups i (Suc n) s =
     (case (if n = 0 then None else Option.bind (separated i s) read_v4) of
        Some (v4, r) \<Rightarrow> ([ucast (drop_bit 16 v4), ucast v4], True, r)
      | None \<Rightarrow>
          (case Option.bind (separated i s) read_hex of
             None \<Rightarrow> ([], False, s)
           | Some (g, r) \<Rightarrow> (case read_groups (Suc i) n r of (gs, v4, t) \<Rightarrow> (g # gs, v4, t))))"

definition of_segments :: "u16 list \<Rightarrow> 128 word" where
  "of_segments gs = foldl (\<lambda>w g. push_bit 16 w OR ucast g) 0 gs"

definition read_v6 :: "string \<Rightarrow> (128 word \<times> string) option" where
  "read_v6 s =
     (case read_groups 0 8 s of (head, head_v4, r) \<Rightarrow>
        if length head = 8 then Some (of_segments head, r)
        else if head_v4 then None
        else Option.bind (Option.bind (read_char CHR '':'' r) (read_char CHR '':'')) (\<lambda>r.
               case read_groups 0 (7 - length head) r of (tail, _, t) \<Rightarrow>
                 Some (of_segments (head @ replicate (8 - length head - length tail) 0 @ tail), t)))"

definition parse_ip :: "string \<Rightarrow> ip_addr option" where
  "parse_ip s =
     (case (case read_v4 s of
              Some (a, r) \<Rightarrow> Some (V4 a, r)
            | None \<Rightarrow> map_option (map_prod V6 id) (read_v6 s)) of
        Some (a, []) \<Rightarrow> Some a
      | _ \<Rightarrow> None)"

fun is_loopback :: "ip_addr \<Rightarrow> bool" where
  "is_loopback (V4 a) \<longleftrightarrow> octet a 0 = 127"
| "is_loopback (V6 a) \<longleftrightarrow> a = 1"

section \<open>A printed IPv4 address reads back\<close>

lemma dec_length_le: "n < 10 ^ k \<Longrightarrow> 0 < k \<Longrightarrow> length (dec n) \<le> k"
proof (induction k arbitrary: n)
  case (Suc k)
  show ?case
  proof (cases "n < 10")
    case True
    then show ?thesis by (subst dec.simps) simp
  next
    case False
    then have k: "0 < k" using Suc.prems(1) by (cases k) auto
    have "n div 10 < 10 ^ k" using Suc.prems(1) by (simp add: less_mult_imp_div_less mult.commute)
    then show ?thesis using Suc.IH [of "n div 10"] k False by (subst dec.simps) simp
  qed
qed simp

lemma dec_no_leading_zero: "1 < length (dec n) \<Longrightarrow> hd (dec n) \<noteq> CHR ''0''"
proof (induction n rule: dec.induct)
  case (1 n)
  show ?case
  proof (cases "n < 10")
    case True
    then show ?thesis using 1(2) by (subst (asm) dec.simps) simp
  next
    case False
    have digit: "digit m \<noteq> CHR ''0''" if "0 < m" "m < 10" for m
    proof
      assume "digit m = CHR ''0''"
      then have "byte (digit m) = 48" by (simp add: byte_def)
      then show False using that byte_digit by simp
    qed
    have "hd (dec (n div 10)) \<noteq> CHR ''0''"
    proof (cases "n div 10 < 10")
      case True
      then show ?thesis using False digit [of "n div 10"] by (subst dec.simps) simp
    next
      case big: False
      then have "1 < length (dec (n div 10))" by (subst dec.simps) (simp add: Suc_lessI)
      then show ?thesis using 1(1) False by simp
    qed
    then show ?thesis using False by (subst dec.simps) simp
  qed
qed

lemma read_decimal_dec:
  assumes "n < 256" "s = [] \<or> \<not> is_ascii_digit (hd s)"
  shows "read_decimal (dec n @ s) = Some (n, s)"
proof -
  have digits: "\<forall>c \<in> set (dec n). is_ascii_digit c" using dec_digits by (simp add: list_all_iff)
  have "takeWhile is_ascii_digit (dec n @ s) = dec n"
    using digits assms(2) by (cases s) (simp_all add: takeWhile_append)
  moreover have "dropWhile is_ascii_digit (dec n @ s) = s"
    using digits assms(2) by (cases s) (simp_all add: dropWhile_append)
  moreover have "length (dec n) \<le> 3" using dec_length_le [of n 3] assms(1) by simp
  ultimately show ?thesis
    using dec_no_leading_zero [of n] assms(1) by (auto simp: read_decimal_def Let_def)
qed

lemma octet_less: "octet a i < 256"
proof -
  have "drop_bit k a AND 255 < 256" for k
    using and_mask_less' [of 8 "drop_bit k a"] by (simp add: mask_eq_exp_minus_1)
  then show ?thesis by (simp add: octet_def word_less_nat_alt)
qed

lemma octets_join:
  "push_bit 24 (of_nat (octet a 0)) OR push_bit 16 (of_nat (octet a 1))
     OR push_bit 8 (of_nat (octet a 2)) OR of_nat (octet a 3) = a"
proof -
  have m: "(0xff :: u32) = mask 8" by (simp add: mask_eq_exp_minus_1)
  show ?thesis
    unfolding octet_def m
  proof (rule bit_word_eqI)
    fix n assume "n < LENGTH(32)"
    then consider "n < 8" | "8 \<le> n" "n < 16" | "16 \<le> n" "n < 24" | "24 \<le> n" "n < 32" by fastforce
    then show "bit (push_bit 24 (of_nat (unat (drop_bit (8 * (3 - 0)) a AND mask 8)))
        OR push_bit 16 (of_nat (unat (drop_bit (8 * (3 - 1)) a AND mask 8)))
        OR push_bit 8 (of_nat (unat (drop_bit (8 * (3 - 2)) a AND mask 8)))
        OR of_nat (unat (drop_bit (8 * (3 - 3)) a AND mask 8)) :: u32) n = bit a n"
      by cases (simp_all add: bit_simps, linarith+)
  qed
qed

lemma read_v4_show:
  assumes "s = [] \<or> \<not> is_ascii_digit (hd s)"
  shows "read_v4 (show_v4 a @ s) = Some (a, s)"
proof -
  have dot: "\<not> is_ascii_digit CHR ''.''" by (simp add: is_ascii_digit_def byte_def)
  have shown: "show_v4 a @ s = dec (octet a 0) @ CHR ''.'' # dec (octet a 1) @ CHR ''.''
      # dec (octet a 2) @ CHR ''.'' # dec (octet a 3) @ s"
    by (simp add: show_v4_def)
  show ?thesis
    unfolding shown read_v4_def read_octet_def
    by (simp add: read_decimal_dec octet_less dot assms octets_join [unfolded One_nat_def])
qed

lemma parse_ip_v4: "parse_ip (show_v4 a) = Some (V4 a)"
  using read_v4_show [of "[]" a] by (simp add: parse_ip_def)

end
