(* ===== verification/Sessions.thy ===== *)
theory Sessions
  imports Accounts Table "HOL-Library.Multiset"
begin

text \<open>
  Sessions (\<open>auth.rs\<close>, \<open>SessionStore\<close> of \<open>storage.rs\<close>): how a sign-in opens one, how
  many may live, how a request finds its user by session token or by media token, and what
  ends a session: signing out, expiry, a password change, the deletion of its account. The
  store keeps digests of the tokens; SHA-256, base64 and the random tokens are parameters.

  The theorems bound the table, tie the media index to it, and show that a session works
  only while the password it was opened with is still its account's, however sign-ins and
  password changes interleave.
\<close>

definition MAX_SESSIONS_PER_USER :: nat where "MAX_SESSIONS_PER_USER = 20"
definition MAX_SESSIONS_TOTAL :: nat where "MAX_SESSIONS_TOTAL = 1000"
definition SESSION_COOKIE_MAX_AGE_SECONDS :: u64 where
  "SESSION_COOKIE_MAX_AGE_SECONDS = 60 * 60 * 24 * 30"

section \<open>Tokens\<close>

record digests =
  dg_sha256 :: "string \<Rightarrow> string"
  dg_base64 :: "string \<Rightarrow> string"

definition media_token_for_session :: "digests \<Rightarrow> string \<Rightarrow> string" where
  "media_token_for_session d token =
     dg_base64 d (dg_sha256 d (''operalibre-media-v1'' @ [CHR 0x00] @ token))"

definition session_id_for_token :: "digests \<Rightarrow> string \<Rightarrow> string" where
  "session_id_for_token d token =
     dg_base64 d (dg_sha256 d (''operalibre-session-id-v1'' @ [CHR 0x00] @ token))"

definition media_token_lookup_key :: "digests \<Rightarrow> string \<Rightarrow> string" where
  "media_token_lookup_key d token =
     dg_base64 d (dg_sha256 d (''operalibre-media-lookup-v1'' @ [CHR 0x00] @ token))"

section \<open>The store\<close>

record session =
  se_user_id :: string
  se_created_at :: u64
  se_media_token_hash :: string

definition session_new :: "digests \<Rightarrow> string \<Rightarrow> u64 \<Rightarrow> string \<Rightarrow> session" where
  "session_new d user_id created_at token =
     \<lparr>se_user_id = user_id, se_created_at = created_at,
      se_media_token_hash = media_token_lookup_key d (media_token_for_session d token)\<rparr>"

definition is_expired :: "session \<Rightarrow> u64 \<Rightarrow> bool" where
  "is_expired s now \<longleftrightarrow> SESSION_COOKIE_MAX_AGE_SECONDS < sat_sub now (se_created_at s)"

type_synonym sessions = "(string, session) table"

definition media_token_index :: "sessions \<Rightarrow> (string, string) table" where
  "media_token_index m =
     fold (\<lambda>e. tinsert (se_media_token_hash (snd e)) (fst e))
       (filter (\<lambda>e. se_media_token_hash (snd e) \<noteq> []) m) []"

record sign_ins =
  si_accounts :: users_store
  si_sessions :: sessions
  si_by_media_token :: "(string, string) table"

text \<open>\<open>SessionStore::mutate\<close>: the index is rebuilt after every change.\<close>

definition mutate_sessions :: "(sessions \<Rightarrow> sessions) \<Rightarrow> sign_ins \<Rightarrow> sign_ins" where
  "mutate_sessions change s =
     s\<lparr>si_sessions := change (si_sessions s),
       si_by_media_token := media_token_index (change (si_sessions s))\<rparr>"

definition session_for_media_token :: "digests \<Rightarrow> string \<Rightarrow> sign_ins \<Rightarrow> string option" where
  "session_for_media_token d media_token s =
     tget (si_by_media_token s) (media_token_lookup_key d media_token)"

section \<open>Opening a session\<close>

definition evict_oldest_sessions :: "nat \<Rightarrow> (session \<Rightarrow> bool) \<Rightarrow> sessions \<Rightarrow> sessions" where
  "evict_oldest_sessions limit matches m =
     (let candidates = sort_key (\<lambda>e. se_created_at (snd e)) (filter (\<lambda>e. matches (snd e)) m)
      in fold tremove (map fst (take (length candidates + 1 - limit) candidates)) m)"

definition prune_sessions_for_new_session :: "string \<Rightarrow> u64 \<Rightarrow> sessions \<Rightarrow> sessions" where
  "prune_sessions_for_new_session user_id now m =
     evict_oldest_sessions MAX_SESSIONS_TOTAL (\<lambda>_. True)
       (evict_oldest_sessions MAX_SESSIONS_PER_USER (\<lambda>s. se_user_id s = user_id)
         (tretain (\<lambda>_ s. \<not> is_expired s now) m))"

definition create_session :: "digests \<Rightarrow> string \<Rightarrow> string \<Rightarrow> u64 \<Rightarrow> sign_ins \<Rightarrow> sign_ins" where
  "create_session d token user_id now =
     mutate_sessions (\<lambda>m. tinsert (session_id_for_token d token) (session_new d user_id now token)
       (prune_sessions_for_new_session user_id now m))"

text \<open>
  Under the issuance lock: the account is looked up again, and its password must still be the
  one that was verified.
\<close>

definition finish_password_login ::
  "digests \<Rightarrow> user \<Rightarrow> string \<Rightarrow> u64 \<Rightarrow> sign_ins \<Rightarrow> sign_ins \<times> user result" where
  "finish_password_login d verified token now s =
     (case List.find (\<lambda>c. u_id c = u_id verified \<and> u_password_hash c = u_password_hash verified)
             (users (si_accounts s)) of
        None \<Rightarrow> (s, Inl (unauthorized ''Invalid username or password.''))
      | Some user \<Rightarrow> (create_session d token (u_id user) now s, Inr user))"

section \<open>Requests\<close>

definition resolve_session_id :: "string \<Rightarrow> u64 \<Rightarrow> sign_ins \<Rightarrow> sign_ins \<times> auth_user option" where
  "resolve_session_id session_id now s =
     (case tget (si_sessions s) session_id of
        None \<Rightarrow> (s, None)
      | Some session \<Rightarrow>
          if is_expired session now then (mutate_sessions (tremove session_id) s, None)
          else (s, map_option auth_of_user
                 (List.find (\<lambda>u. u_id u = se_user_id session) (users (si_accounts s)))))"

definition resolve_session :: "digests \<Rightarrow> string \<Rightarrow> u64 \<Rightarrow> sign_ins \<Rightarrow> sign_ins \<times> auth_user option" where
  "resolve_session d token = resolve_session_id (session_id_for_token d token)"

record current_session =
  cs_id :: string
  cs_media_token :: string

definition resolve_media_session ::
  "digests \<Rightarrow> string \<Rightarrow> u64 \<Rightarrow> sign_ins \<Rightarrow> sign_ins \<times> (auth_user \<times> current_session) option" where
  "resolve_media_session d media_token now s =
     (case session_for_media_token d media_token s of
        None \<Rightarrow> (s, None)
      | Some session_id \<Rightarrow>
          map_prod id (map_option (\<lambda>user. (user, \<lparr>cs_id = session_id, cs_media_token = media_token\<rparr>)))
            (resolve_session_id session_id now s))"

definition logout :: "digests \<Rightarrow> string option \<Rightarrow> sign_ins \<Rightarrow> sign_ins" where
  "logout d token s =
     (case token of None \<Rightarrow> s | Some t \<Rightarrow> mutate_sessions (tremove (session_id_for_token d t)) s)"

section \<open>Password changes and deletion\<close>

definition revoke_password_change_sessions :: "string \<Rightarrow> string option \<Rightarrow> sessions \<Rightarrow> sessions" where
  "revoke_password_change_sessions user_id current_session_id =
     tretain (\<lambda>session_id s. se_user_id s \<noteq> user_id \<or> current_session_id = Some session_id)"

text \<open>
  The second half of \<open>change_password\<close>, under the issuance lock: the account store is
  committed first and the sessions after it. \<open>saved\<close> is the outcome of writing the
  sessions; when it fails the password has changed and the sessions have not.
\<close>

definition change_password_finish ::
  "auth_user \<Rightarrow> string \<Rightarrow> string \<Rightarrow> string \<Rightarrow> string \<Rightarrow> unit result \<Rightarrow> sign_ins \<Rightarrow> sign_ins \<times> unit result" where
  "change_password_finish auth current_session_id user_id current_hash new_hash saved s =
     (case change_password_commit auth user_id current_hash new_hash (si_accounts s) of
        Inl e \<Rightarrow> (s, Inl e)
      | Inr accounts \<Rightarrow>
          (case saved of
             Inl e \<Rightarrow> (s\<lparr>si_accounts := accounts\<rparr>, Inl e)
           | Inr _ \<Rightarrow>
               (mutate_sessions (revoke_password_change_sessions user_id
                  (if a_id auth = user_id then Some current_session_id else None))
                  (s\<lparr>si_accounts := accounts\<rparr>), Inr ())))"

definition delete_user_sessions :: "string \<Rightarrow> sign_ins \<Rightarrow> sign_ins" where
  "delete_user_sessions user_id = mutate_sessions (tretain (\<lambda>_ s. se_user_id s \<noteq> user_id))"

text \<open>\<open>delete_user\<close> as far as its session step, and \<open>setup_admin\<close> with the session it opens.\<close>

definition delete_user_start ::
  "auth_user \<Rightarrow> unit result \<Rightarrow> string \<Rightarrow> sign_ins \<Rightarrow> sign_ins \<times> unit result" where
  "delete_user_start auth removed user_id s =
     (case delete_account auth removed user_id (si_accounts s) of
        Inl e \<Rightarrow> (s, Inl e)
      | Inr accounts \<Rightarrow> (s\<lparr>si_accounts := accounts\<rparr>, Inr ()))"

definition setup_sign_in ::
  "digests \<Rightarrow> unit result \<Rightarrow> (ustr \<Rightarrow> string result) \<Rightarrow> setup_request \<Rightarrow> string \<Rightarrow> string \<Rightarrow> string \<Rightarrow> u64
   \<Rightarrow> sign_ins \<Rightarrow> sign_ins \<times> unit result" where
  "setup_sign_in d gate hash_password req new_id created token now s =
     (case setup_admin gate hash_password req new_id created (si_accounts s) of
        Inl e \<Rightarrow> (s, Inl e)
      | Inr accounts \<Rightarrow> (create_session d token new_id now (s\<lparr>si_accounts := accounts\<rparr>), Inr ()))"

section \<open>Histories\<close>

text \<open>
  The steps other requests cannot interrupt, in the order they take their locks. \<open>Edit\<close>
  is any account request other than the ones below, \<open>Sweep\<close> the session step of a deletion.
\<close>

datatype sign_in_event =
    Setup "unit result" setup_request "string result" string string string u64
  | Login user string u64
  | Use string u64
  | UseMedia string u64
  | Logout "string option"
  | Edit account_request
  | NewPassword auth_user string string string string
  | Remove auth_user "unit result" string
  | Sweep string

fun sign_in_apply :: "digests \<Rightarrow> sign_in_event \<Rightarrow> sign_ins \<Rightarrow> sign_ins" where
  "sign_in_apply d (Setup gate req hash new_id created token now) s =
     fst (setup_sign_in d gate (\<lambda>_. hash) req new_id created token now s)"
| "sign_in_apply d (Login verified token now) s = fst (finish_password_login d verified token now s)"
| "sign_in_apply d (Use token now) s = fst (resolve_session d token now s)"
| "sign_in_apply d (UseMedia token now) s = fst (resolve_media_session d token now s)"
| "sign_in_apply d (Logout token) s = logout d token s"
| "sign_in_apply d (Edit e) s = s\<lparr>si_accounts := account_step e (si_accounts s)\<rparr>"
| "sign_in_apply d (NewPassword auth current k old new) s =
     fst (change_password_finish auth current k old new (Inr ()) s)"
| "sign_in_apply d (Remove auth removed k) s = fst (delete_user_start auth removed k s)"
| "sign_in_apply d (Sweep k) s = delete_user_sessions k s"

text \<open>
  What the server guarantees of an event: a new account's identifier is one no session was
  ever opened for, and who changes a password is the user of the session in use.
\<close>

fun edit_new_id :: "account_request \<Rightarrow> string option" where
  "edit_new_id (SetUp gate req hash new_id now) = Some new_id"
| "edit_new_id (Create a req hash new_id now) = Some new_id"
| "edit_new_id _ = None"

fun plain_edit :: "account_request \<Rightarrow> bool" where
  "plain_edit (SetPassword a k old new) \<longleftrightarrow> False"
| "plain_edit (Delete a removed k) \<longleftrightarrow> False"
| "plain_edit (SetUp gate req hash new_id now) \<longleftrightarrow> False"
| "plain_edit _ \<longleftrightarrow> True"

fun new_account_id :: "sign_in_event \<Rightarrow> string option" where
  "new_account_id (Setup gate req hash new_id created token now) = Some new_id"
| "new_account_id (Edit e) = edit_new_id e"
| "new_account_id _ = None"

fun event_ok :: "sign_in_event \<Rightarrow> sign_ins \<Rightarrow> bool" where
  "event_ok e s \<longleftrightarrow>
     (case e of
        Edit r \<Rightarrow> plain_edit r \<and> account_ok r (si_accounts s)
      | NewPassword auth current k old new \<Rightarrow>
          (case tget (si_sessions s) current of None \<Rightarrow> True | Some se \<Rightarrow> se_user_id se = a_id auth)
      | _ \<Rightarrow> True)
     \<and> (case new_account_id e of
          None \<Rightarrow> True
        | Some k \<Rightarrow> k \<notin> u_id ` set (users (si_accounts s))
            \<and> k \<notin> se_user_id ` snd ` set (si_sessions s))"

text \<open>
  Beside the state, the password each session stands for: the one its sign-in verified,
  or the one its owner set while using it.
\<close>

type_synonym standing = "string \<Rightarrow> string option"

fun stands :: "digests \<Rightarrow> sign_in_event \<Rightarrow> sign_ins \<Rightarrow> standing \<Rightarrow> standing" where
  "stands d (Setup gate req hash new_id created token now) s g =
     (case setup_admin gate (\<lambda>_. hash) req new_id created (si_accounts s) of
        Inl e \<Rightarrow> g
      | Inr accounts \<Rightarrow> g(session_id_for_token d token :=
          map_option u_password_hash (List.find (\<lambda>u. u_id u = new_id) (users accounts))))"
| "stands d (Login verified token now) s g =
     (case snd (finish_password_login d verified token now s) of
        Inl e \<Rightarrow> g
      | Inr u \<Rightarrow> g(session_id_for_token d token \<mapsto> u_password_hash verified))"
| "stands d (NewPassword auth current k old new) s g =
     (case change_password_commit auth k old new (si_accounts s) of
        Inl e \<Rightarrow> g
      | Inr accounts \<Rightarrow> if a_id auth = k then g(current \<mapsto> new) else g)"
| "stands d _ s g = g"

fun sign_in_run :: "digests \<Rightarrow> sign_in_event list \<Rightarrow> sign_ins \<times> standing \<Rightarrow> (sign_ins \<times> standing) option" where
  "sign_in_run d [] st = Some st"
| "sign_in_run d (e # es) (s, g) =
     (if event_ok e s then sign_in_run d es (sign_in_apply d e s, stands d e s g) else None)"

definition no_sign_ins :: sign_ins where
  "no_sign_ins = \<lparr>si_accounts = no_users, si_sessions = [], si_by_media_token = []\<rparr>"

section \<open>The table as a list of entries\<close>

lemma tremove_filter: "tremove k m = filter (\<lambda>e. fst e \<noteq> k) m"
  by (auto simp: tremove_def AList.delete_eq case_prod_unfold intro: filter_cong)

lemma fold_tremove_filter: "fold tremove ks m = filter (\<lambda>e. fst e \<notin> set ks) m"
proof (induction ks arbitrary: m)
  case (Cons k ks)
  then show ?case by (simp add: tremove_filter conj_commute)
qed simp

lemma length_filter_insert:
  "length (filter P (tinsert k v m)) \<le> length (filter P m) + (if P (k, v) then 1 else 0)"
  unfolding tinsert_def by (induction m) auto

lemma media_index_lookup:
  "tget (fold (\<lambda>e. tinsert (se_media_token_hash (snd e)) (fst e)) xs acc) h =
     (case List.find (\<lambda>e. se_media_token_hash (snd e) = h) (rev xs) of
        Some e \<Rightarrow> Some (fst e) | None \<Rightarrow> tget acc h)"
proof (induction xs rule: rev_induct)
  case (snoc x xs)
  then show ?case by (auto simp: tbl.lookup_insert)
qed simp

lemma media_token_index_some:
  assumes "tvalid m" "tget (media_token_index m) h = Some k"
  shows "\<exists>se. tget m k = Some se \<and> se_media_token_hash se = h \<and> h \<noteq> []"
proof -
  obtain e where e: "List.find (\<lambda>e. se_media_token_hash (snd e) = h)
      (rev (filter (\<lambda>e. se_media_token_hash (snd e) \<noteq> []) m)) = Some e" "fst e = k"
    using assms(2) unfolding media_token_index_def media_index_lookup
    by (auto split: option.splits)
  then have "e \<in> set m" "se_media_token_hash (snd e) = h" "h \<noteq> []"
    using find_Some_in [OF e(1)] by auto
  then show ?thesis using in_tget [OF assms(1), of k "snd e"] e(2) by auto
qed

lemma media_token_index_none:
  assumes "tget (media_token_index m) h = None" "tget m k = Some se" "se_media_token_hash se = h"
  shows "h = []"
proof (rule ccontr)
  assume "h \<noteq> []"
  then have "(k, se) \<in> set (rev (filter (\<lambda>e. se_media_token_hash (snd e) \<noteq> []) m))"
    using tget_in [OF assms(2)] assms(3) by simp
  moreover have "List.find (\<lambda>e. se_media_token_hash (snd e) = h)
      (rev (filter (\<lambda>e. se_media_token_hash (snd e) \<noteq> []) m)) = None"
    using assms(1) unfolding media_token_index_def media_index_lookup
    by (auto split: option.splits)
  ultimately show False using assms(3) by (force simp: find_None_iff)
qed

section \<open>Evictions\<close>

definition oldest :: "nat \<Rightarrow> (session \<Rightarrow> bool) \<Rightarrow> sessions \<Rightarrow> sessions" where
  "oldest limit matches m =
     (let candidates = sort_key (\<lambda>e. se_created_at (snd e)) (filter (\<lambda>e. matches (snd e)) m)
      in take (length candidates + 1 - limit) candidates)"

lemma evict_filter:
  "evict_oldest_sessions limit matches m = filter (\<lambda>e. fst e \<notin> fst ` set (oldest limit matches m)) m"
  by (simp add: evict_oldest_sessions_def oldest_def fold_tremove_filter Let_def)

lemma oldest_in: "e \<in> set (oldest limit matches m) \<Longrightarrow> e \<in> set m \<and> matches (snd e)"
  by (auto simp: oldest_def Let_def dest!: in_set_takeD)

lemma evict_oldest_order:
  assumes "e \<in> set (oldest limit matches m)" "f \<in> set m" "matches (snd f)"
    "f \<in> set (evict_oldest_sessions limit matches m)"
  shows "se_created_at (snd e) \<le> se_created_at (snd f)"
proof -
  define S where "S = sort_key (\<lambda>e. se_created_at (snd e)) (filter (\<lambda>e. matches (snd e)) m)"
  define n where "n = length S + 1 - limit"
  have e: "e \<in> set (take n S)" using assms(1) by (simp add: oldest_def S_def n_def Let_def)
  have "f \<in> set S" using assms(2,3) by (simp add: S_def)
  moreover have "f \<notin> set (take n S)"
    using assms(4) by (auto simp: evict_filter oldest_def S_def n_def Let_def)
  ultimately have f: "f \<in> set (drop n S)"
    by (metis append_take_drop_id set_append Un_iff)
  have "sorted (map (\<lambda>e. se_created_at (snd e)) S)" by (simp add: S_def)
  then have "sorted (map (\<lambda>e. se_created_at (snd e)) (take n S @ drop n S))" by simp
  then show ?thesis using e f unfolding map_append sorted_append by fastforce
qed

lemma evict_count:
  assumes "tvalid m" "0 < limit"
  shows "length (filter (\<lambda>e. matches (snd e)) (evict_oldest_sessions limit matches m)) < limit"
proof -
  define C where "C = filter (\<lambda>e. matches (snd e)) m"
  define S where "S = sort_key (\<lambda>e. se_created_at (snd e)) C"
  define n where "n = length S + 1 - limit"
  let ?P = "\<lambda>e. fst e \<notin> fst ` set (take n S)"
  have "distinct (map fst C)" using assms(1) by (simp add: C_def tvalid_def distinct_map_filter)
  moreover have "mset (map fst S) = mset (map fst C)" by (simp add: S_def mset_map)
  ultimately have "distinct (map fst S)" by (metis mset_eq_imp_distinct_iff)
  then have "distinct (map fst (take n S @ drop n S))" by simp
  then have apart: "fst ` set (take n S) \<inter> fst ` set (drop n S) = {}"
    unfolding map_append distinct_append by simp
  have "length (filter ?P C) = size (filter_mset ?P (mset C))" by (metis mset_filter size_mset)
  also have "mset C = mset S" by (simp add: S_def)
  also have "size (filter_mset ?P (mset S)) = length (filter ?P S)" by (metis mset_filter size_mset)
  also have "filter ?P S = filter ?P (take n S) @ filter ?P (drop n S)"
    by (metis append_take_drop_id filter_append)
  also have "filter ?P (take n S) = []" by (simp add: filter_empty_conv)
  also have "filter ?P (drop n S) = drop n S"
    using apart by (intro filter_True) blast
  finally have "length (filter ?P C) = length S - n" by simp
  moreover have "filter (\<lambda>e. matches (snd e)) (evict_oldest_sessions limit matches m) = filter ?P C"
    by (simp add: evict_filter oldest_def S_def n_def C_def Let_def conj_commute)
  ultimately show ?thesis using assms(2) by (simp add: n_def)
qed

lemma evict_valid: "tvalid m \<Longrightarrow> tvalid (evict_oldest_sessions limit matches m)"
  by (simp add: evict_oldest_sessions_def Let_def tbl.valid_remove_all)

lemma prune_valid: "tvalid m \<Longrightarrow> tvalid (prune_sessions_for_new_session k now m)"
  by (simp add: prune_sessions_for_new_session_def evict_valid tvalid_retain)

text \<open>Pruning is a filter of the table.\<close>

lemma prune_filter:
  "\<exists>P. prune_sessions_for_new_session k now m = filter P m"
  by (auto simp: prune_sessions_for_new_session_def evict_filter tretain_def)

lemma filter_sub: "tvalid m \<Longrightarrow> tget (filter P m) k = Some se \<Longrightarrow> tget m k = Some se"
proof -
  assume "tvalid m" "tget (filter P m) k = Some se"
  then have "(k, se) \<in> set m" using tget_in by fastforce
  then show ?thesis by (rule in_tget [OF \<open>tvalid m\<close>])
qed

lemma filter_valid: "tvalid m \<Longrightarrow> tvalid (filter P m)"
  by (simp add: tvalid_def distinct_map_filter)

section \<open>How many sessions live\<close>

definition sessions_of :: "string \<Rightarrow> sessions \<Rightarrow> nat" where
  "sessions_of k m = length (filter (\<lambda>e. se_user_id (snd e) = k) m)"

definition bounded :: "sign_ins \<Rightarrow> bool" where
  "bounded s \<longleftrightarrow> tvalid (si_sessions s) \<and> length (si_sessions s) \<le> MAX_SESSIONS_TOTAL
     \<and> (\<forall>k. sessions_of k (si_sessions s) \<le> MAX_SESSIONS_PER_USER)
     \<and> si_by_media_token s = media_token_index (si_sessions s)"

lemma sessions_of_filter: "sessions_of k (filter P m) \<le> sessions_of k m"
  unfolding sessions_of_def by (induction m) auto

lemma bounded_filter: "bounded s \<Longrightarrow> bounded (mutate_sessions (filter P) s)"
  unfolding bounded_def mutate_sessions_def
  by (auto simp: filter_valid intro: le_trans [OF length_filter_le] le_trans [OF sessions_of_filter])

lemma bounded_accounts: "bounded s \<Longrightarrow> bounded (s\<lparr>si_accounts := a\<rparr>)"
  by (simp add: bounded_def)

lemma bounded_retain: "bounded s \<Longrightarrow> bounded (mutate_sessions (tretain P) s)"
  using bounded_filter [of s "\<lambda>(k, v). P k v"] by (simp add: mutate_sessions_def tretain_def)

lemma bounded_remove: "bounded s \<Longrightarrow> bounded (mutate_sessions (tremove k) s)"
  using bounded_filter [of s "\<lambda>e. fst e \<noteq> k"] by (simp add: mutate_sessions_def tremove_filter)

lemma prune_counts:
  assumes "tvalid m" "\<And>k. sessions_of k m \<le> MAX_SESSIONS_PER_USER"
  shows "length (prune_sessions_for_new_session user now m) < MAX_SESSIONS_TOTAL"
    and "sessions_of user (prune_sessions_for_new_session user now m) < MAX_SESSIONS_PER_USER"
    and "sessions_of k (prune_sessions_for_new_session user now m) \<le> MAX_SESSIONS_PER_USER"
proof -
  let ?kept = "tretain (\<lambda>_ s. \<not> is_expired s now) m"
  let ?own = "evict_oldest_sessions MAX_SESSIONS_PER_USER (\<lambda>s. se_user_id s = user) ?kept"
  have v: "tvalid ?kept" "tvalid ?own" by (simp_all add: assms(1) tvalid_retain evict_valid)
  show "length (prune_sessions_for_new_session user now m) < MAX_SESSIONS_TOTAL"
    using evict_count [OF v(2), of MAX_SESSIONS_TOTAL "\<lambda>_. True"]
    by (simp add: prune_sessions_for_new_session_def MAX_SESSIONS_TOTAL_def)
  have "sessions_of user ?own < MAX_SESSIONS_PER_USER"
    unfolding sessions_of_def by (rule evict_count [OF v(1)]) (simp add: MAX_SESSIONS_PER_USER_def)
  moreover have "sessions_of user (prune_sessions_for_new_session user now m) \<le> sessions_of user ?own"
    unfolding prune_sessions_for_new_session_def evict_filter [of MAX_SESSIONS_TOTAL]
    by (rule sessions_of_filter)
  ultimately show "sessions_of user (prune_sessions_for_new_session user now m) < MAX_SESSIONS_PER_USER"
    by simp
  obtain P where "prune_sessions_for_new_session user now m = filter P m" using prune_filter by blast
  then have "sessions_of k (prune_sessions_for_new_session user now m) \<le> sessions_of k m"
    by (simp add: sessions_of_filter)
  also have "\<dots> \<le> MAX_SESSIONS_PER_USER" by (rule assms(2))
  finally show "sessions_of k (prune_sessions_for_new_session user now m) \<le> MAX_SESSIONS_PER_USER" .
qed

lemma length_tinsert_le: "length (tinsert k v m) \<le> Suc (length m)"
  using length_filter_insert [of "\<lambda>_. True" k v m] by simp

lemma bounded_create:
  assumes "bounded s"
  shows "bounded (create_session d token user now s)"
proof -
  let ?m = "prune_sessions_for_new_session user now (si_sessions s)"
  let ?n = "tinsert (session_id_for_token d token) (session_new d user now token) ?m"
  have v: "tvalid (si_sessions s)" and few: "\<And>k. sessions_of k (si_sessions s) \<le> MAX_SESSIONS_PER_USER"
    using assms by (auto simp: bounded_def)
  note counts = prune_counts [OF v few]
  have "sessions_of k ?n \<le> MAX_SESSIONS_PER_USER" for k
  proof -
    have "sessions_of k ?n \<le> sessions_of k ?m + (if user = k then 1 else 0)"
      using length_filter_insert [of "\<lambda>e. se_user_id (snd e) = k" "session_id_for_token d token"
          "session_new d user now token" ?m]
      by (simp add: sessions_of_def session_new_def)
    then show ?thesis using counts(2) [of user now] counts(3) [of k user now] by (auto split: if_splits)
  qed
  moreover have "length ?n \<le> MAX_SESSIONS_TOTAL"
    using counts(1) [of user now] length_tinsert_le [of "session_id_for_token d token" _ ?m]
    by (meson Suc_leI order_trans)
  ultimately show ?thesis
    by (simp add: bounded_def create_session_def mutate_sessions_def prune_valid v tbl.valid_insert)
qed

lemma bounded_resolve: "bounded s \<Longrightarrow> bounded (fst (resolve_session_id k now s))"
  by (auto simp: resolve_session_id_def bounded_remove split: option.splits)

lemma bounded_apply: "bounded s \<Longrightarrow> bounded (sign_in_apply d e s)"
  by (cases e)
    (auto simp: setup_sign_in_def finish_password_login_def resolve_session_def resolve_media_session_def
      logout_def change_password_finish_def delete_user_start_def delete_user_sessions_def
      revoke_password_change_sessions_def
      intro!: bounded_create bounded_accounts bounded_resolve bounded_remove bounded_retain
      split: sum.splits option.splits)

lemma run_bounded:
  "sign_in_run d es (s, g) = Some (s', g') \<Longrightarrow> bounded s \<Longrightarrow> bounded s'"
proof (induction es arbitrary: s g)
  case (Cons e es)
  then show ?case using bounded_apply [of s d e] by (auto split: if_splits simp del: event_ok.simps)
qed simp

lemma bounded_start: "bounded no_sign_ins"
  by (simp add: bounded_def no_sign_ins_def sessions_of_def media_token_index_def)

text \<open>C6: However many sign-ins, sign-outs, password changes and deletions there are, an account
  never has more than twenty sessions and the server never more than a thousand; a media token
  resolves exactly to the live sessions that hand it out.\<close>

theorem sessions_bounded:
  assumes "sign_in_run d es (no_sign_ins, Map.empty) = Some (s, g)"
  shows "length (si_sessions s) \<le> 1000
    \<and> length (filter (\<lambda>e. se_user_id (snd e) = k) (si_sessions s)) \<le> 20
    \<and> (case session_for_media_token d m s of
         Some i \<Rightarrow> (\<exists>se. tget (si_sessions s) i = Some se
            \<and> se_media_token_hash se = media_token_lookup_key d m \<and> media_token_lookup_key d m \<noteq> [])
       | None \<Rightarrow> media_token_lookup_key d m = []
           \<or> media_token_lookup_key d m \<notin> se_media_token_hash ` snd ` set (si_sessions s))"
proof -
  have b: "bounded s" by (rule run_bounded [OF assms bounded_start])
  then have v: "tvalid (si_sessions s)"
    and index: "si_by_media_token s = media_token_index (si_sessions s)" by (auto simp: bounded_def)
  have "case session_for_media_token d m s of
         Some i \<Rightarrow> (\<exists>se. tget (si_sessions s) i = Some se
            \<and> se_media_token_hash se = media_token_lookup_key d m \<and> media_token_lookup_key d m \<noteq> [])
       | None \<Rightarrow> media_token_lookup_key d m = []
           \<or> media_token_lookup_key d m \<notin> se_media_token_hash ` snd ` set (si_sessions s)"
  proof (cases "session_for_media_token d m s")
    case (Some i)
    then show ?thesis using media_token_index_some [OF v, of "media_token_lookup_key d m" i]
      by (simp add: session_for_media_token_def index)
  next
    case None
    then have none: "tget (media_token_index (si_sessions s)) (media_token_lookup_key d m) = None"
      by (simp add: session_for_media_token_def index)
    have "media_token_lookup_key d m = []"
      if "(i, se) \<in> set (si_sessions s)" "se_media_token_hash se = media_token_lookup_key d m" for i se
      using media_token_index_none [OF none in_tget [OF v that(1)] that(2)] .
    then show ?thesis using None by (auto simp: image_iff)
  qed
  then show ?thesis using b
    by (simp add: bounded_def sessions_of_def MAX_SESSIONS_TOTAL_def MAX_SESSIONS_PER_USER_def)
qed

text \<open>Opening a session keeps the new one and gives up only old ones. Each session lost was
  expired, or belongs to the same account and is no newer than any session of that account that
  is kept, or is no newer than any session kept at all.\<close>

theorem create_session_keeps_newest:
  assumes "tvalid (si_sessions s)" and "s' = create_session d token user now s"
    and "tget (si_sessions s) i = Some se" and "tget (si_sessions s') i = None"
  shows "tget (si_sessions s') (session_id_for_token d token) = Some (session_new d user now token)
    \<and> (is_expired se now
       \<or> se_user_id se = user \<and> (\<forall>j se'. tget (si_sessions s') j = Some se' \<and> j \<noteq> session_id_for_token d token
            \<and> se_user_id se' = user \<longrightarrow> se_created_at se \<le> se_created_at se')
       \<or> (\<forall>j se'. tget (si_sessions s') j = Some se' \<and> j \<noteq> session_id_for_token d token
            \<longrightarrow> se_created_at se \<le> se_created_at se'))"
proof -
  let ?m = "si_sessions s" and ?new = "session_id_for_token d token"
  let ?kept = "tretain (\<lambda>_ x. \<not> is_expired x now) ?m"
  let ?own = "evict_oldest_sessions MAX_SESSIONS_PER_USER (\<lambda>x. se_user_id x = user) ?kept"
  let ?all = "evict_oldest_sessions MAX_SESSIONS_TOTAL (\<lambda>_. True) ?own"
  have s': "si_sessions s' = tinsert ?new (session_new d user now token) ?all"
    by (simp add: assms(2) create_session_def mutate_sessions_def prune_sessions_for_new_session_def)
  have v: "tvalid ?kept" "tvalid ?own" "tvalid ?all"
    by (simp_all add: assms(1) tvalid_retain evict_valid)
  have lost: "(i, se) \<notin> set ?all"
    using assms(4) in_tget [OF v(3), of i se] by (auto simp: s' tbl.lookup_insert split: if_splits)
  have later: "(j, x) \<in> set ?all \<and> (j, x) \<in> set ?own \<and> (j, x) \<in> set ?kept"
    if "tget (si_sessions s') j = Some x" "j \<noteq> ?new" for j x
  proof -
    have "(j, x) \<in> set ?all" using that tget_in by (fastforce simp: s' tbl.lookup_insert)
    then show ?thesis by (simp add: evict_filter)
  qed
  consider (expired) "is_expired se now" | (own) "(i, se) \<in> set ?kept" "(i, se) \<notin> set ?own"
    | (all) "(i, se) \<in> set ?own"
    using tget_in [OF assms(3)] by (auto simp: tretain_def)
  then have "is_expired se now
       \<or> se_user_id se = user \<and> (\<forall>j se'. tget (si_sessions s') j = Some se' \<and> j \<noteq> ?new
            \<and> se_user_id se' = user \<longrightarrow> se_created_at se \<le> se_created_at se')
       \<or> (\<forall>j se'. tget (si_sessions s') j = Some se' \<and> j \<noteq> ?new
            \<longrightarrow> se_created_at se \<le> se_created_at se')"
  proof cases
    case own
    then obtain x where x: "(i, x) \<in> set (oldest MAX_SESSIONS_PER_USER (\<lambda>x. se_user_id x = user) ?kept)"
      by (auto simp: evict_filter)
    then have "x = se"
      using oldest_in [OF x] own(1) in_tget [OF v(1), of i x] in_tget [OF v(1), of i se] by simp
    then have e: "(i, se) \<in> set (oldest MAX_SESSIONS_PER_USER (\<lambda>x. se_user_id x = user) ?kept)" using x by simp
    have "se_created_at se \<le> se_created_at se'"
      if "tget (si_sessions s') j = Some se'" "j \<noteq> ?new" "se_user_id se' = user" for j se'
      using evict_oldest_order [OF e, of "(j, se')"] later [OF that(1,2)] that(3) by simp
    moreover have "se_user_id se = user" using oldest_in [OF e] by simp
    ultimately show ?thesis by blast
  next
    case all
    then obtain x where x: "(i, x) \<in> set (oldest MAX_SESSIONS_TOTAL (\<lambda>_. True) ?own)"
      using lost by (auto simp: evict_filter [of MAX_SESSIONS_TOTAL])
    then have "x = se"
      using oldest_in [OF x] all in_tget [OF v(2), of i x] in_tget [OF v(2), of i se] by simp
    then have e: "(i, se) \<in> set (oldest MAX_SESSIONS_TOTAL (\<lambda>_. True) ?own)" using x by simp
    have "se_created_at se \<le> se_created_at se'"
      if "tget (si_sessions s') j = Some se'" "j \<noteq> ?new" for j se'
      using evict_oldest_order [OF e, of "(j, se')"] later [OF that] by simp
    then show ?thesis by blast
  qed simp
  then show ?thesis by (simp add: s' tbl.lookup_insert)
qed

section \<open>A session stands for the current password\<close>

definition standing_ok :: "sign_ins \<Rightarrow> standing \<Rightarrow> bool" where
  "standing_ok s g \<longleftrightarrow> tvalid (si_sessions s) \<and> distinct (map u_id (users (si_accounts s)))
     \<and> (\<forall>i se u. tget (si_sessions s) i = Some se \<longrightarrow> u \<in> set (users (si_accounts s))
           \<longrightarrow> u_id u = se_user_id se \<longrightarrow> g i = Some (u_password_hash u))"

lemma standing_okD:
  "standing_ok s g \<Longrightarrow> tget (si_sessions s) i = Some se \<Longrightarrow> u \<in> set (users (si_accounts s))
     \<Longrightarrow> u_id u = se_user_id se \<Longrightarrow> g i = Some (u_password_hash u)"
  by (simp add: standing_ok_def)

lemma standing_filter:
  assumes "standing_ok s g"
  shows "standing_ok (mutate_sessions (filter P) s) g"
proof -
  have v: "tvalid (si_sessions s)" using assms by (simp add: standing_ok_def)
  show ?thesis using assms filter_sub [OF v]
    unfolding standing_ok_def mutate_sessions_def by (auto intro: filter_valid)
qed

lemma standing_retain: "standing_ok s g \<Longrightarrow> standing_ok (mutate_sessions (tretain P) s) g"
  using standing_filter [of s g "\<lambda>(k, v). P k v"] by (simp add: mutate_sessions_def tretain_def)

lemma standing_remove: "standing_ok s g \<Longrightarrow> standing_ok (mutate_sessions (tremove k) s) g"
  using standing_filter [of s g "\<lambda>e. fst e \<noteq> k"] by (simp add: mutate_sessions_def tremove_filter)

lemma standing_resolve: "standing_ok s g \<Longrightarrow> standing_ok (fst (resolve_session_id k now s)) g"
  by (auto simp: resolve_session_id_def standing_remove split: option.splits)

text \<open>Opening a session for an account that exists now with the given password.\<close>

lemma standing_create:
  assumes ok: "standing_ok s g" and u: "u \<in> set (users (si_accounts s))"
  shows "standing_ok (create_session d token (u_id u) now s) (g(session_id_for_token d token \<mapsto> u_password_hash u))"
proof -
  let ?id = "session_id_for_token d token"
  have v: "tvalid (si_sessions s)" and ids: "distinct (map u_id (users (si_accounts s)))"
    using ok by (simp_all add: standing_ok_def)
  obtain P where P: "prune_sessions_for_new_session (u_id u) now (si_sessions s) = filter P (si_sessions s)"
    using prune_filter by blast
  have only: "v = u" if "v \<in> set (users (si_accounts s))" "u_id v = u_id u" for v
    using that u ids by (metis distinct_map inj_onD)
  have "tvalid (tinsert ?id (session_new d (u_id u) now token) (filter P (si_sessions s)))"
    by (simp add: v filter_valid tbl.valid_insert)
  moreover have "(g(?id \<mapsto> u_password_hash u)) i = Some (u_password_hash w)"
    if "tget (tinsert ?id (session_new d (u_id u) now token) (filter P (si_sessions s))) i = Some se"
      "w \<in> set (users (si_accounts s))" "u_id w = se_user_id se" for i se w
  proof (cases "i = ?id")
    case True
    then have "se = session_new d (u_id u) now token" using that(1) by (simp add: tbl.lookup_insert)
    then have "w = u" using only that(2,3) by (simp add: session_new_def)
    then show ?thesis using True by simp
  next
    case False
    then have "tget (si_sessions s) i = Some se"
      using that(1) filter_sub [OF v] by (simp add: tbl.lookup_insert)
    then show ?thesis using standing_okD [OF ok] that(2,3) False by simp
  qed
  ultimately show ?thesis
    using ids by (simp add: standing_ok_def create_session_def mutate_sessions_def P)
qed

text \<open>An account request that changes no password keeps every account's, bar a new account's.\<close>

lemma plain_edit_hashes:
  assumes "account_apply e a = Inr a'" "plain_edit e" "v \<in> set (users a')"
  shows "(\<exists>u \<in> set (users a). u_id u = u_id v \<and> u_password_hash u = u_password_hash v)
    \<or> edit_new_id e = Some (u_id v)"
proof -
  have edited: "\<exists>u \<in> set (users a). u_id u = u_id v \<and> u_password_hash u = u_password_hash v"
    if "v \<in> set (update_first P f (users a))"
      "\<And>u. u_id (f u) = u_id u \<and> u_password_hash (f u) = u_password_hash u" for P f
    using in_update_first [OF that(1)] that(2) by (metis (no_types))
  show ?thesis
  proof (cases e)
    case (Create auth req hash new_id now)
    then obtain h where "a' = a\<lparr>users := users a @ [created_user auth req h new_id now]\<rparr>"
      using assms(1) by (auto simp: create_user_def split: if_splits dest!: bind_InrD)
    then have "v \<in> set (users a) \<or> u_id v = new_id"
      using assms(3) by (auto simp: created_user_def Let_def)
    then show ?thesis using Create by auto
  next
    case (SetBooks auth available k ids)
    then obtain allowed where "v \<in> set (update_first (\<lambda>u. u_id u = k)
        (\<lambda>u. u\<lparr>u_allowed_book_ids := (if u_is_admin u then None else allowed)\<rparr>) (users a))"
      using assms by (auto simp: update_book_access_def split: if_splits dest!: bind_InrD)
    from edited [OF this] show ?thesis by simp
  next
    case (SetRole auth k adm own)
    then have "v \<in> set (update_first (\<lambda>u. u_id u = k) (role_change adm own) (users a))"
      using assms by (auto simp: update_user_role_def split: if_splits option.splits dest!: bind_InrD)
    from edited [OF this] show ?thesis by (simp add: role_change_def Let_def)
  next
    case (SetSharing auth x y z)
    then have "v \<in> set (update_first (\<lambda>u. u_id u = a_id auth)
             (\<lambda>u. u\<lparr>u_share_progress := x,
                u_announce_finishes := (case y of Some v \<Rightarrow> v | None \<Rightarrow> u_announce_finishes u),
                u_notify_finishes := (case z of Some v \<Rightarrow> v | None \<Rightarrow> u_notify_finishes u)\<rparr>)
             (users a))"
      using assms by (auto simp: update_progress_sharing_def split: if_splits)
    from edited [OF this] show ?thesis by simp
  next
    case (SetAvatar auth x)
    then have "v \<in> set (update_first (\<lambda>u. u_id u = a_id auth) (\<lambda>u. u\<lparr>u_avatar := x\<rparr>) (users a))"
      using assms by (auto simp: update_avatar_def split: if_splits dest!: bind_InrD)
    from edited [OF this] show ?thesis by simp
  next
    case (SetLibation auth k x)
    then have "v \<in> set (update_first (\<lambda>u. u_id u = k) (\<lambda>u. u\<lparr>u_libation_access := x\<rparr>) (users a))"
      using assms by (auto simp: update_libation_access_def split: if_splits option.splits dest!: bind_InrD)
    from edited [OF this] show ?thesis by simp
  next
    case (SetApproval auth k x)
    then have "v \<in> set (update_first (\<lambda>u. u_id u = k) (\<lambda>u. u\<lparr>u_can_approve := x\<rparr>) (users a))"
      using assms by (auto simp: update_libation_approval_def split: if_splits option.splits dest!: bind_InrD)
    from edited [OF this] show ?thesis by simp
  qed (use assms(2) in simp_all)
qed

lemma account_ids_distinct:
  "accounts_inv a \<Longrightarrow> distinct (map u_id (users a))"
  by (simp add: accounts_inv_def)

lemma change_password_commit_cases:
  assumes "change_password_commit auth k old new a = Inr a'"
  shows "users a' = update_first (\<lambda>u. u_id u = k) (\<lambda>u. u\<lparr>u_password_hash := new\<rparr>) (users a)"
  using assms by (auto simp: change_password_commit_def split: option.splits if_splits)

lemma standing_password:
  assumes ok: "standing_ok s g"
    and commit: "change_password_commit auth k old new (si_accounts s) = Inr a'"
    and mine: "case tget (si_sessions s) current of None \<Rightarrow> True | Some se \<Rightarrow> se_user_id se = a_id auth"
  shows "standing_ok
      (mutate_sessions (revoke_password_change_sessions k (if a_id auth = k then Some current else None))
        (s\<lparr>si_accounts := a'\<rparr>))
      (if a_id auth = k then g(current \<mapsto> new) else g)"
proof -
  let ?keep = "if a_id auth = k then Some current else None"
  let ?g = "if a_id auth = k then g(current \<mapsto> new) else g"
  have v: "tvalid (si_sessions s)" and ids: "distinct (map u_id (users (si_accounts s)))"
    using ok by (simp_all add: standing_ok_def)
  note users' = change_password_commit_cases [OF commit]
  have ids': "map u_id (users a') = map u_id (users (si_accounts s))"
    unfolding users' by (rule map_update_first) simp
  have users_map: "users a' =
      map (\<lambda>u. if u_id u = k then u\<lparr>u_password_hash := new\<rparr> else u) (users (si_accounts s))"
    unfolding users' by (rule update_first_key [OF ids])
  have new_hash: "u_password_hash w = new" if "w \<in> set (users a')" "u_id w = k" for w
  proof -
    obtain u where "w = (if u_id u = k then u\<lparr>u_password_hash := new\<rparr> else u)"
      using \<open>w \<in> set (users a')\<close> unfolding users_map set_map by (rule imageE)
    then show ?thesis using \<open>u_id w = k\<close> by (cases "u_id u = k") simp_all
  qed
  have old_hash: "w \<in> set (users (si_accounts s))" if "w \<in> set (users a')" "u_id w \<noteq> k" for w
    using in_update_first [OF that(1) [unfolded users']] that(2) by auto
  have "?g i = Some (u_password_hash w)"
    if i: "tget (revoke_password_change_sessions k ?keep (si_sessions s)) i = Some se"
      and w: "w \<in> set (users a')" "u_id w = se_user_id se" for i se w
  proof -
    have se: "tget (si_sessions s) i = Some se" "se_user_id se \<noteq> k \<or> ?keep = Some i"
      using i by (auto simp: revoke_password_change_sessions_def tget_retain [OF v] split: option.splits if_splits)
    show ?thesis
    proof (cases "se_user_id se = k")
      case True
      then show ?thesis using se(2) new_hash [OF w(1)] w(2) by (auto split: if_splits)
    next
      case False
      have "i \<noteq> current" if "a_id auth = k" using mine se(1) False that by auto
      then show ?thesis
        using standing_okD [OF ok se(1) old_hash [OF w(1)] w(2)] w(2) False by auto
    qed
  qed
  moreover have "tvalid (revoke_password_change_sessions k ?keep (si_sessions s))"
    by (simp add: revoke_password_change_sessions_def tvalid_retain v)
  ultimately show ?thesis using ids ids' by (simp add: standing_ok_def mutate_sessions_def)
qed

lemma standing_edit:
  assumes ok: "standing_ok s g" and inv: "accounts_inv (si_accounts s)"
    and e: "event_ok (Edit r) s"
  shows "standing_ok (s\<lparr>si_accounts := account_step r (si_accounts s)\<rparr>) g"
proof (cases "account_apply r (si_accounts s)")
  case (Inl err)
  then show ?thesis using ok by (simp add: account_step_def)
next
  case (Inr a')
  have plain: "plain_edit r" "account_ok r (si_accounts s)" using e by simp_all
  have inv': "accounts_inv a'" by (rule account_step_inv [OF inv plain(2) Inr])
  have "g i = Some (u_password_hash v)"
    if i: "tget (si_sessions s) i = Some se" and v: "v \<in> set (users a')" "u_id v = se_user_id se" for i se v
  proof -
    have "se_user_id se \<in> se_user_id ` snd ` set (si_sessions s)"
      using tget_in [OF i] by force
    then have "edit_new_id r \<noteq> Some (u_id v)" using e v(2) by (auto split: option.splits)
    then obtain u where "u \<in> set (users (si_accounts s))" "u_id u = u_id v"
      "u_password_hash u = u_password_hash v"
      using plain_edit_hashes [OF Inr plain(1) v(1)] by blast
    then show ?thesis using standing_okD [OF ok i, of u] v(2) by simp
  qed
  then show ?thesis using ok account_ids_distinct [OF inv'] Inr
    by (simp add: standing_ok_def account_step_def)
qed

lemma standing_setup:
  assumes ok: "standing_ok s g" and inv: "accounts_inv (si_accounts s)"
    and set_up: "setup_admin gate hash req new_id created (si_accounts s) = Inr a'"
  shows "standing_ok (create_session d token new_id now (s\<lparr>si_accounts := a'\<rparr>))
    (g(session_id_for_token d token :=
        map_option u_password_hash (List.find (\<lambda>u. u_id u = new_id) (users a'))))
    \<or> new_id \<in> se_user_id ` snd ` set (si_sessions s)"
proof (rule disjCI)
  assume fresh: "new_id \<notin> se_user_id ` snd ` set (si_sessions s)"
  obtain h where a': "users (si_accounts s) = []"
    "a' = si_accounts s\<lparr>users := [setup_user req h new_id created]\<rparr>"
    using set_up by (auto simp: setup_admin_def setup_commit_def split: if_splits dest!: bind_InrD)
  have "se_user_id se \<noteq> new_id" if "tget (si_sessions s) i = Some se" for i se
    using tget_in [OF that] fresh by force
  then have ok': "standing_ok (s\<lparr>si_accounts := a'\<rparr>) g"
    using ok by (auto simp: standing_ok_def a'(2) setup_user_def)
  have user: "setup_user req h new_id created \<in> set (users (si_accounts (s\<lparr>si_accounts := a'\<rparr>)))"
    by (simp add: a'(2))
  show "standing_ok (create_session d token new_id now (s\<lparr>si_accounts := a'\<rparr>))
    (g(session_id_for_token d token :=
        map_option u_password_hash (List.find (\<lambda>u. u_id u = new_id) (users a'))))"
    using standing_create [OF ok' user, of d token now] by (simp add: a'(2) setup_user_def)
qed

definition history_ok :: "sign_ins \<Rightarrow> standing \<Rightarrow> bool" where
  "history_ok s g \<longleftrightarrow> accounts_inv (si_accounts s) \<and> standing_ok s g"

lemma si_accounts_sessions [simp]:
  "si_accounts (mutate_sessions f s) = si_accounts s"
  "si_accounts (create_session d token k now s) = si_accounts s"
  "si_accounts (fst (resolve_session_id i now s)) = si_accounts s"
  by (simp_all add: mutate_sessions_def create_session_def resolve_session_id_def split: option.splits)

lemma history_step:
  assumes hist: "history_ok s g" and e: "event_ok e s"
  shows "history_ok (sign_in_apply d e s) (stands d e s g)"
proof -
  have inv: "accounts_inv (si_accounts s)" and ok: "standing_ok s g"
    using hist by (simp_all add: history_ok_def)
  show ?thesis
  proof (cases e)
    case (Setup gate req hash new_id created token now)
    show ?thesis
    proof (cases "setup_admin gate (\<lambda>_. hash) req new_id created (si_accounts s)")
      case (Inr a')
      have "new_id \<notin> se_user_id ` snd ` set (si_sessions s)" using e Setup by simp
      then show ?thesis
        using standing_setup [OF ok inv Inr, of d token now] setup_admin_inv [OF inv Inr] Inr Setup
        by (simp add: history_ok_def setup_sign_in_def)
    qed (use hist Setup in \<open>simp add: setup_sign_in_def\<close>)
  next
    case (Login verified token now)
    show ?thesis
    proof (cases "List.find (\<lambda>c. u_id c = u_id verified \<and> u_password_hash c = u_password_hash verified)
        (users (si_accounts s))")
      case (Some u)
      have u: "u \<in> set (users (si_accounts s))" "u_id u = u_id verified"
        "u_password_hash u = u_password_hash verified"
        using find_Some_in [OF Some] by auto
      show ?thesis using standing_create [OF ok u(1), of d token now] inv u Some Login
        by (simp add: history_ok_def finish_password_login_def)
    qed (use hist Login in \<open>simp add: finish_password_login_def\<close>)
  next
    case (Use token now)
    then show ?thesis using inv standing_resolve [OF ok] by (simp add: history_ok_def resolve_session_def)
  next
    case (UseMedia token now)
    then show ?thesis using inv ok standing_resolve [OF ok]
      by (simp add: history_ok_def resolve_media_session_def split: option.splits)
  next
    case (Logout token)
    then show ?thesis using inv ok standing_remove [OF ok]
      by (simp add: history_ok_def logout_def split: option.splits)
  next
    case (Edit r)
    have "event_ok (Edit r) s" using e Edit by simp
    moreover have "accounts_inv (account_step r (si_accounts s))"
      using account_step_inv [OF inv, of r] inv e Edit by (auto simp: account_step_def split: sum.splits)
    ultimately show ?thesis using standing_edit [OF ok inv] Edit by (simp add: history_ok_def)
  next
    case (NewPassword auth current k old new)
    show ?thesis
    proof (cases "change_password_commit auth k old new (si_accounts s)")
      case (Inr a')
      have "account_apply (SetPassword auth k old new) (si_accounts s) = Inr a'" using Inr by simp
      moreover have "account_ok (SetPassword auth k old new) (si_accounts s)"
        using Inr by (auto simp: change_password_commit_def split: option.splits)
      ultimately have "accounts_inv a'" using account_step_inv [OF inv] by blast
      moreover have "case tget (si_sessions s) current of None \<Rightarrow> True | Some se \<Rightarrow> se_user_id se = a_id auth"
        using e NewPassword by simp
      ultimately show ?thesis using standing_password [OF ok Inr] Inr NewPassword
        by (simp add: history_ok_def change_password_finish_def)
    qed (use hist NewPassword in \<open>simp add: change_password_finish_def\<close>)
  next
    case (Remove auth removed k)
    show ?thesis
    proof (cases "delete_account auth removed k (si_accounts s)")
      case (Inr a')
      have "a' = si_accounts s\<lparr>users := filter (\<lambda>u. u_id u \<noteq> k) (users (si_accounts s))\<rparr>"
        using Inr by (auto simp: delete_account_def split: if_splits option.splits dest!: bind_InrD)
      then have "standing_ok (s\<lparr>si_accounts := a'\<rparr>) g"
        using ok by (simp add: standing_ok_def distinct_map_filter)
      then show ?thesis using delete_account_inv [OF inv Inr] Inr Remove
        by (simp add: history_ok_def delete_user_start_def)
    qed (use hist Remove in \<open>simp add: delete_user_start_def\<close>)
  next
    case (Sweep k)
    then show ?thesis using inv standing_retain [OF ok] by (simp add: history_ok_def delete_user_sessions_def)
  qed
qed

lemma history_run: "sign_in_run d es (s, g) = Some (s', g') \<Longrightarrow> history_ok s g \<Longrightarrow> history_ok s' g'"
proof (induction es arbitrary: s g)
  case (Cons e es)
  then show ?case using history_step [of s g e d] by (auto split: if_splits simp del: event_ok.simps)
qed simp

lemma history_start: "history_ok no_sign_ins Map.empty"
  by (simp add: history_ok_def standing_ok_def no_sign_ins_def accounts_inv_def no_users_def distinct_names_def)


section \<open>Examples\<close>

text \<open>Code equations that count on integers.\<close>

definition evict_int :: "int \<Rightarrow> (session \<Rightarrow> bool) \<Rightarrow> sessions \<Rightarrow> sessions" where
  "evict_int limit matches m =
     (let candidates = sort_key (\<lambda>e. se_created_at (snd e)) (filter (\<lambda>e. matches (snd e)) m)
      in fold tremove (map fst (take (nat (int (length candidates) + 1 - limit)) candidates)) m)"

lemma evict_int: "evict_oldest_sessions n matches m = evict_int (int n) matches m"
proof -
  have "nat (int k + 1 - int n) = k + 1 - n" for k by arith
  then show ?thesis by (simp add: evict_oldest_sessions_def evict_int_def Let_def)
qed

lemma prune_code [code]:
  "prune_sessions_for_new_session user_id now m =
     evict_int 1000 (\<lambda>_. True) (evict_int 20 (\<lambda>s. se_user_id s = user_id)
       (tretain (\<lambda>_ s. \<not> is_expired s now) m))"
  by (simp add: prune_sessions_for_new_session_def evict_int MAX_SESSIONS_TOTAL_def MAX_SESSIONS_PER_USER_def)

definition ex_digests :: digests where
  "ex_digests = \<lparr>dg_sha256 = (\<lambda>s. [List.last s]), dg_base64 = (\<lambda>s. s)\<rparr>"

definition ex_sign_ins :: "sign_in_event list" where
  "ex_sign_ins =
     [Setup (Inr ()) ex_setup (Inr ''h'') ''u1'' ''1'' ''1'' 100,
      Login (setup_user ex_setup ''h'' ''u1'' ''1'') ''2'' 101,
      NewPassword ex_owner (session_id_for_token ex_digests ''1'') ''u1'' ''h'' ''h9'',
      Login (setup_user ex_setup ''h'' ''u1'' ''1'') ''3'' 102]"

definition ex_outcome :: "sign_ins \<times> standing \<Rightarrow> bool" where
  "ex_outcome st \<longleftrightarrow>
     snd (resolve_session ex_digests ''1'' 103 (fst st)) \<noteq> None
     \<and> snd (resolve_session ex_digests ''2'' 103 (fst st)) = None
     \<and> snd (resolve_session ex_digests ''3'' 103 (fst st)) = None
     \<and> session_for_media_token ex_digests (media_token_for_session ex_digests ''1'') (fst st) = Some ''1''"

lemma ex_sign_ins_run:
  "\<exists>s g. sign_in_run ex_digests ex_sign_ins (no_sign_ins, Map.empty) = Some (s, g) \<and> ex_outcome (s, g)"
proof -
  have "(case sign_in_run ex_digests ex_sign_ins (no_sign_ins, Map.empty) of
      None \<Rightarrow> False | Some st \<Rightarrow> ex_outcome st)"
    by code_simp
  then obtain st where "sign_in_run ex_digests ex_sign_ins (no_sign_ins, Map.empty) = Some st" "ex_outcome st"
    by (rule case_SomeE)
  then show ?thesis by (cases st) blast
qed


lemma sessions_bounded_witness:
  "\<exists>s g. sign_in_run ex_digests ex_sign_ins (no_sign_ins, Map.empty) = Some (s, g)
    \<and> length (si_sessions s) \<le> 1000
    \<and> session_for_media_token ex_digests (media_token_for_session ex_digests ''1'') s = Some ''1''"
proof -
  obtain s g where run: "sign_in_run ex_digests ex_sign_ins (no_sign_ins, Map.empty) = Some (s, g)"
    and out: "ex_outcome (s, g)" using ex_sign_ins_run by blast
  have "length (si_sessions s) \<le> 1000" using sessions_bounded [OF run, of "''u1''" "[]"] by simp
  moreover have "session_for_media_token ex_digests (media_token_for_session ex_digests ''1'') s = Some ''1''"
    using out by (simp add: ex_outcome_def)
  ultimately show ?thesis using run by (intro exI conjI)
qed

definition ex_old_session :: sign_ins where
  "ex_old_session = create_session ex_digests ''1'' ''u1'' 100 no_sign_ins"

lemma create_session_keeps_newest_witness:
  "tget (si_sessions (create_session ex_digests ''4'' ''u1'' 2600000 ex_old_session))
     (session_id_for_token ex_digests ''4'') = Some (session_new ex_digests ''u1'' 2600000 ''4'')"
proof -
  have se: "tget (si_sessions ex_old_session) ''1'' = Some (session_new ex_digests ''u1'' 100 ''1'')"
    by code_simp
  have "tvalid (si_sessions ex_old_session)" by code_simp
  moreover have "tget (si_sessions (create_session ex_digests ''4'' ''u1'' 2600000 ex_old_session)) ''1'' = None"
    by code_simp
  ultimately show ?thesis using create_session_keeps_newest [OF _ refl se] by blast
qed

end
