(* ===== verification/Credentials.thy ===== *)
theory Credentials
  imports Addresses Sessions
begin

text \<open>
  What a request presents (\<open>auth.rs\<close>): the bearer and cookie tokens, the media token of a
  link, the client's address behind a reverse proxy, the cross-site check of
  cookie-authenticated changes, the middleware that puts them together, and the cookies a
  sign-in hands out. A request is its method, path, query and headers, the names in lower
  case as the HTTP library keeps them; the library's URI parser is a parameter.
\<close>

section \<open>Headers\<close>

type_synonym headers = "(string \<times> string) list"

definition header_values :: "headers \<Rightarrow> string \<Rightarrow> string list" where
  "header_values h name = map snd (filter (\<lambda>e. fst e = name) h)"

definition header_get :: "headers \<Rightarrow> string \<Rightarrow> string option" where
  "header_get h name = (case header_values h name of [] \<Rightarrow> None | v # _ \<Rightarrow> Some v)"

text \<open>\<open>HeaderValue::to_str\<close>: visible ASCII and tabs only.\<close>

definition to_str :: "string \<Rightarrow> string option" where
  "to_str v = (if list_all (\<lambda>c. byte c = 9 \<or> (32 \<le> byte c \<and> byte c < 127)) v then Some v else None)"

definition header_str :: "headers \<Rightarrow> string \<Rightarrow> string option" where
  "header_str h name = Option.bind (header_get h name) to_str"

text \<open>\<open>str::trim\<close> of a text known to be ASCII.\<close>

definition trim_ascii :: "string \<Rightarrow> string" where
  "trim_ascii = trim_by (\<lambda>c. 9 \<le> byte c \<and> byte c \<le> 13 \<or> byte c = 32)"

fun find_map :: "('a \<Rightarrow> 'b option) \<Rightarrow> 'a list \<Rightarrow> 'b option" where
  "find_map f [] = None"
| "find_map f (x # xs) = (case f x of Some y \<Rightarrow> Some y | None \<Rightarrow> find_map f xs)"

section \<open>Tokens\<close>

definition SESSION_COOKIE_NAME :: string where "SESSION_COOKIE_NAME = ''operalibre_session''"

definition token_from_authorization :: "headers \<Rightarrow> string option" where
  "token_from_authorization h =
     (case Option.bind (header_str h ''authorization'') (strip_prefix ''Bearer '') of
        None \<Rightarrow> None
      | Some token \<Rightarrow> if trim_ascii token = [] then None else Some (trim_ascii token))"

definition cookie_token :: "string \<Rightarrow> string option" where
  "cookie_token part =
     (case split_once CHR ''='' (trim_ascii part) of
        None \<Rightarrow> None
      | Some (name, value) \<Rightarrow> if name = SESSION_COOKIE_NAME \<and> value \<noteq> [] then Some value else None)"

definition token_from_cookie_header :: "string \<Rightarrow> string option" where
  "token_from_cookie_header value = find_map cookie_token (split_on CHR '';'' value)"

definition token_from_cookies :: "headers \<Rightarrow> string option" where
  "token_from_cookies h =
     find_map token_from_cookie_header (List.map_filter to_str (header_values h ''cookie''))"

definition token_from_headers :: "headers \<Rightarrow> string option" where
  "token_from_headers h =
     (case token_from_authorization h of Some t \<Rightarrow> Some t | None \<Rightarrow> token_from_cookies h)"

definition session_cookie :: "string \<Rightarrow> bool \<Rightarrow> string" where
  "session_cookie token secure =
     SESSION_COOKIE_NAME @ ''='' @ token @ ''; Path=/; Max-Age='' @ ''2592000''
     @ (if secure then ''; Secure'' else []) @ ''; HttpOnly; SameSite=Lax''"

definition expired_session_cookie :: "bool \<Rightarrow> string" where
  "expired_session_cookie secure =
     SESSION_COOKIE_NAME @ ''=; Path=/; Max-Age=0'' @ (if secure then ''; Secure'' else [])
     @ ''; HttpOnly; SameSite=Lax''"

section \<open>The client's address\<close>

definition forwarded_for :: "headers \<Rightarrow> ip_addr option" where
  "forwarded_for h =
     Option.bind (header_str h ''x-forwarded-for'')
       (\<lambda>v. parse_ip (trim_ascii (last (split_on CHR '','' v))))"

definition request_client_ip :: "ip_addr \<Rightarrow> headers \<Rightarrow> ip_addr" where
  "request_client_ip peer h =
     (if \<not> is_loopback peer then peer
      else case forwarded_for h of Some ip \<Rightarrow> ip | None \<Rightarrow> peer)"

section \<open>Requests\<close>

record http_request =
  rq_method :: string
  rq_path :: string
  rq_query :: "string option"
  rq_headers :: headers

definition path_segments :: "string \<Rightarrow> string list" where
  "path_segments path = split_on CHR ''/'' (trim_by (\<lambda>c. c = CHR ''/'') path)"

text \<open>A pattern of literal and arbitrary segments.\<close>

fun matches_pattern :: "string option list \<Rightarrow> string list \<Rightarrow> bool" where
  "matches_pattern [] [] \<longleftrightarrow> True"
| "matches_pattern (p # ps) (s # ss) \<longleftrightarrow>
     (case p of None \<Rightarrow> True | Some l \<Rightarrow> s = l) \<and> matches_pattern ps ss"
| "matches_pattern _ _ \<longleftrightarrow> False"

definition media_paths :: "string option list list" where
  "media_paths =
     [[Some ''api'', Some ''opds''],
      [Some ''api'', Some ''opds'', Some ''books''],
      [Some ''api'', Some ''books'', None, Some ''cover''],
      [Some ''api'', Some ''books'', None, Some ''readalong''],
      [Some ''api'', Some ''books'', None, Some ''companions'', None],
      [Some ''api'', Some ''books'', None, Some ''sync''],
      [Some ''api'', Some ''books'', None, Some ''download''],
      [Some ''api'', Some ''books'', None, Some ''tracks'', None, Some ''stream''],
      [Some ''abs'', Some ''api'', Some ''books'', None, Some ''cover''],
      [Some ''abs'', Some ''api'', Some ''books'', None, Some ''tracks'', None, Some ''stream''],
      [Some ''api'', Some ''libation'', Some ''covers'', None]]"

text \<open>The one pattern that admits further segments.\<close>

definition companion_entry :: "string option list" where
  "companion_entry =
     [Some ''api'', Some ''books'', None, Some ''companions'', None, Some ''entries'', None]"

definition query_token_allowed :: "string \<Rightarrow> string \<Rightarrow> bool" where
  "query_token_allowed request_method path \<longleftrightarrow>
     (request_method = ''GET'' \<or> request_method = ''HEAD'')
     \<and> ((\<exists>p \<in> set media_paths. matches_pattern p (path_segments path))
        \<or> matches_pattern companion_entry (take 7 (path_segments path)))"

datatype request_credential = SessionToken string | MediaToken string

definition query_pair_token :: "string \<Rightarrow> string option" where
  "query_pair_token pair =
     (case split_once CHR ''='' pair of
        None \<Rightarrow> None
      | Some (key, value) \<Rightarrow> if key = ''token'' \<and> value \<noteq> [] then Some value else None)"

definition extract_request_credential :: "http_request \<Rightarrow> request_credential option" where
  "extract_request_credential r =
     (case token_from_headers (rq_headers r) of
        Some token \<Rightarrow> Some (SessionToken token)
      | None \<Rightarrow>
          if \<not> query_token_allowed (rq_method r) (rq_path r) then None
          else case rq_query r of
            None \<Rightarrow> None
          | Some query \<Rightarrow> map_option MediaToken (find_map query_pair_token (split_on CHR ''&'' query)))"

section \<open>Cross-site requests\<close>

definition is_safe_http_method :: "string \<Rightarrow> bool" where
  "is_safe_http_method m \<longleftrightarrow> m = ''GET'' \<or> m = ''HEAD'' \<or> m = ''OPTIONS''"

definition to_ascii_lowercase :: "string \<Rightarrow> string" where
  "to_ascii_lowercase = map ascii_lower"

text \<open>\<open>authority\<close> is the authority of a text that parses as a URI.\<close>

definition request_authority :: "(string \<Rightarrow> string option) \<Rightarrow> string \<Rightarrow> string option" where
  "request_authority authority value = map_option to_ascii_lowercase (authority value)"

definition OFFICIAL_APP_ORIGINS :: "string list" where
  "OFFICIAL_APP_ORIGINS =
     [''capacitor://localhost'', ''https://localhost'', ''http://127.0.0.1:49201'']"

definition trim_end_slashes :: "string \<Rightarrow> string" where
  "trim_end_slashes s = rev (dropWhile (\<lambda>c. c = CHR ''/'') (rev s))"

definition build_csrf_allowed_origins :: "string list \<Rightarrow> string set" where
  "build_csrf_allowed_origins configured =
     set (map (\<lambda>origin. to_ascii_lowercase (trim_end_slashes origin)) (OFFICIAL_APP_ORIGINS @ configured))"

definition request_source :: "headers \<Rightarrow> string option" where
  "request_source h =
     Option.bind (case header_get h ''origin'' of Some v \<Rightarrow> Some v | None \<Rightarrow> header_get h ''referer'') to_str"

definition cookie_request_origin_allowed ::
  "(string \<Rightarrow> string option) \<Rightarrow> string set \<Rightarrow> headers \<Rightarrow> bool" where
  "cookie_request_origin_allowed authority allowed_origins h \<longleftrightarrow>
     (case request_source h of
        None \<Rightarrow> False
      | Some source \<Rightarrow>
          to_ascii_lowercase (trim_end_slashes source) \<noteq> ''null''
          \<and> (to_ascii_lowercase (trim_end_slashes source) \<in> allowed_origins
             \<or> (case request_authority authority source of
                  None \<Rightarrow> False
                | Some a \<Rightarrow>
                    (case header_str h ''host'' of
                       None \<Rightarrow> False
                     | Some host \<Rightarrow> eq_ignore_ascii_case a (trim_ascii host)))))"

definition enforce_cookie_csrf ::
  "(string \<Rightarrow> string option) \<Rightarrow> string set \<Rightarrow> http_request \<Rightarrow> unit result" where
  "enforce_cookie_csrf authority allowed_origins r =
     (if is_safe_http_method (rq_method r)
         \<or> token_from_authorization (rq_headers r) \<noteq> None
         \<or> token_from_cookies (rq_headers r) = None
      then Inr ()
      else if cookie_request_origin_allowed authority allowed_origins (rq_headers r) then Inr ()
      else Inl (forbidden ''Cookie-authenticated changes must come from this server's web app. API clients should use Authorization: Bearer.''))"

section \<open>The middleware\<close>

definition resolve_credential ::
  "digests \<Rightarrow> u64 \<Rightarrow> sign_ins \<Rightarrow> request_credential \<Rightarrow> sign_ins \<times> (auth_user \<times> current_session) option" where
  "resolve_credential d now s credential =
     (case credential of
        SessionToken token \<Rightarrow>
          map_prod id (map_option (\<lambda>user. (user,
            \<lparr>cs_id = session_id_for_token d token, cs_media_token = media_token_for_session d token\<rparr>)))
            (resolve_session d token now s)
      | MediaToken token \<Rightarrow> resolve_media_session d token now s)"

definition auth_middleware ::
  "(string \<Rightarrow> string option) \<Rightarrow> string set \<Rightarrow> digests \<Rightarrow> u64 \<Rightarrow> http_request \<Rightarrow> sign_ins
   \<Rightarrow> sign_ins \<times> (auth_user \<times> current_session) result" where
  "auth_middleware authority allowed_origins d now r s =
     (case enforce_cookie_csrf authority allowed_origins r of
        Inl e \<Rightarrow> (s, Inl e)
      | Inr _ \<Rightarrow>
          (case extract_request_credential r of
             None \<Rightarrow> (s, Inl (unauthorized ''Missing authentication token.''))
           | Some credential \<Rightarrow>
               (case resolve_credential d now s credential of
                  (s', None) \<Rightarrow> (s', Inl (unauthorized ''Session is invalid or expired.''))
                | (s', Some found) \<Rightarrow> (s', Inr found))))"

text \<open>\<open>auth_status\<close>, the one route that answers without a credential.\<close>

record auth_status_reply =
  as_setup_required :: bool
  as_setup_token_required :: bool
  as_setup_local_only :: bool
  as_user :: "user_public option"
  as_media_token :: "string option"

definition auth_status ::
  "deployment_mode \<Rightarrow> digests \<Rightarrow> u64 \<Rightarrow> ip_addr \<Rightarrow> headers \<Rightarrow> sign_ins \<Rightarrow> sign_ins \<times> auth_status_reply" where
  "auth_status mode d now peer h s =
     (let setup_required = users (si_accounts s) = [];
          remote = \<not> is_loopback (request_client_ip peer h);
          answer = (\<lambda>user media. \<lparr>as_setup_required = setup_required,
             as_setup_token_required = setup_required \<and> setup_token_required mode,
             as_setup_local_only = setup_required \<and> remote \<and> \<not> allows_remote_setup mode,
             as_user = user, as_media_token = media\<rparr>)
      in case token_from_headers h of
           None \<Rightarrow> (s, answer None None)
         | Some token \<Rightarrow>
             (case resolve_session d token now s of
                (s', Some auth) \<Rightarrow>
                  (s', answer (Some (public_of_auth auth)) (Some (media_token_for_session d token)))
              | (s', None) \<Rightarrow> (s', answer None None)))"

section \<open>What a credential is good for\<close>

lemma resolve_session_id_some:
  assumes "resolve_session_id i now s = (s', Some user)"
  shows "\<exists>se u. tget (si_sessions s) i = Some se \<and> \<not> is_expired se now
     \<and> u \<in> set (users (si_accounts s)) \<and> u_id u = se_user_id se \<and> user = auth_of_user u"
  using assms find_Some_in
  by (fastforce simp: resolve_session_id_def split: option.splits if_splits)

lemma map_prod_Some:
  "map_prod id (map_option f) p = (a, Some b) \<longleftrightarrow> (\<exists>x. p = (a, Some x) \<and> f x = b)"
  by (cases p) auto

lemma resolve_credential_some:
  assumes "resolve_credential d now s c = (s', Some (user, cs))"
  shows "\<exists>s''. resolve_session_id (cs_id cs) now s = (s'', Some user)"
    and "c = SessionToken t \<Longrightarrow> cs_id cs = session_id_for_token d t"
  using assms
  by (auto simp: resolve_credential_def resolve_media_session_def resolve_session_def map_prod_Some
      split: request_credential.splits option.splits)

text \<open>C4: What a request must present. A request the middleware lets through acts as the account
  of a live, unexpired session. A change (any method but GET and HEAD) presented that session's
  own token in a header: the media token of a link never authorises one, and on GET and HEAD only
  on the listed paths. A change authenticated by cookie alone came from an allowed origin.\<close>

theorem credential_scope:
  assumes "auth_middleware authority allowed d now r s = (s', Inr (user, cs))"
  shows "(\<exists>se u. tget (si_sessions s) (cs_id cs) = Some se \<and> \<not> is_expired se now
       \<and> u \<in> set (users (si_accounts s)) \<and> u_id u = se_user_id se \<and> user = auth_of_user u)
    \<and> (case token_from_headers (rq_headers r) of
         Some token \<Rightarrow> cs_id cs = session_id_for_token d token
       | None \<Rightarrow> query_token_allowed (rq_method r) (rq_path r)
           \<and> (rq_method r = ''GET'' \<or> rq_method r = ''HEAD''))
    \<and> (is_safe_http_method (rq_method r) \<or> token_from_authorization (rq_headers r) \<noteq> None
       \<or> cookie_request_origin_allowed authority allowed (rq_headers r))"
proof -
  have csrf: "enforce_cookie_csrf authority allowed r = Inr ()"
    and c: "\<exists>c. extract_request_credential r = Some c \<and> resolve_credential d now s c = (s', Some (user, cs))"
    using assms by (auto simp: auth_middleware_def split: sum.splits option.splits prod.splits)
  then obtain c where c: "extract_request_credential r = Some c"
    "resolve_credential d now s c = (s', Some (user, cs))" by blast
  from resolve_credential_some(1) [OF c(2)] resolve_session_id_some
  have "\<exists>se u. tget (si_sessions s) (cs_id cs) = Some se \<and> \<not> is_expired se now
       \<and> u \<in> set (users (si_accounts s)) \<and> u_id u = se_user_id se \<and> user = auth_of_user u" by blast
  moreover have "case token_from_headers (rq_headers r) of
         Some token \<Rightarrow> cs_id cs = session_id_for_token d token
       | None \<Rightarrow> query_token_allowed (rq_method r) (rq_path r)
           \<and> (rq_method r = ''GET'' \<or> rq_method r = ''HEAD'')"
    using c(1) resolve_credential_some(2) [OF c(2)]
    by (auto simp: extract_request_credential_def query_token_allowed_def split: option.splits if_splits)
  moreover have "is_safe_http_method (rq_method r) \<or> token_from_authorization (rq_headers r) \<noteq> None
       \<or> cookie_request_origin_allowed authority allowed (rq_headers r)"
  proof (cases "token_from_cookies (rq_headers r) = None \<and> token_from_authorization (rq_headers r) = None")
    case True
    then have "token_from_headers (rq_headers r) = None" by (simp add: token_from_headers_def)
    then show ?thesis using calculation(2) by (auto simp: is_safe_http_method_def)
  next
    case False
    then show ?thesis using csrf by (auto simp: enforce_cookie_csrf_def split: if_splits)
  qed
  ultimately show ?thesis by blast
qed

definition ex_request :: http_request where
  "ex_request = \<lparr>rq_method = ''POST'', rq_path = ''/api/x'', rq_query = None,
     rq_headers = [(''cookie'', ''a=b; operalibre_session=1''), (''origin'', ''HTTPS://localhost/'')]\<rparr>"

definition ex_store :: sign_ins where
  "ex_store = create_session ex_digests ''1'' ''u1'' 100
     \<lparr>si_accounts = \<lparr>permissions_version = 1, users = [setup_user ex_setup ''h'' ''u1'' ''1'']\<rparr>,
      si_sessions = [], si_by_media_token = []\<rparr>"

lemma credential_scope_witness:
  "\<exists>user cs. snd (auth_middleware (\<lambda>_. None) (build_csrf_allowed_origins []) ex_digests 103 ex_request ex_store)
       = Inr (user, cs)
     \<and> cs_id cs = session_id_for_token ex_digests ''1''
     \<and> cookie_request_origin_allowed (\<lambda>_. None) (build_csrf_allowed_origins []) (rq_headers ex_request)"
proof -
  let ?run = "auth_middleware (\<lambda>_. None) (build_csrf_allowed_origins []) ex_digests 103 ex_request ex_store"
  have "(case snd ?run of Inl _ \<Rightarrow> False | Inr _ \<Rightarrow> True)" by code_simp
  then obtain found where found: "snd ?run = Inr found" by (rule case_InrE)
  obtain user cs where uc: "found = (user, cs)" by fastforce
  have run: "?run = (fst ?run, Inr (user, cs))" using found uc by (metis prod.collapse)
  have token: "token_from_headers (rq_headers ex_request) = Some ''1''" by code_simp
  have "token_from_authorization (rq_headers ex_request) = None" by code_simp
  moreover have "\<not> is_safe_http_method (rq_method ex_request)" by code_simp
  ultimately show ?thesis using credential_scope [OF run] token found uc by auto
qed

section \<open>The address behind a proxy\<close>

lemma last_split_on: "c \<notin> set b \<Longrightarrow> last (split_on c (a @ c # b)) = b"
proof (induction a)
  case (Cons x a)
  have "split_on c (a @ c # b) \<noteq> []" by (rule split_on_nonempty)
  moreover have "length (split_on c (a @ c # b)) > 1" if "x \<noteq> c"
    by (induction a) (auto simp: split_on_nonempty split_on_no_sep [OF Cons.prems] split: list.splits)
  ultimately show ?case using Cons by (auto split: list.splits)
qed (simp add: split_on_no_sep)

lemma show_v4_ends:
  "show_v4 a \<noteq> []" "is_ascii_digit (hd (show_v4 a))" "is_ascii_digit (last (show_v4 a))"
proof -
  have shown: "show_v4 a = dec (octet a 0) @ CHR ''.'' # dec (octet a 1) @ CHR ''.''
      # dec (octet a 2) @ CHR ''.'' # dec (octet a 3)"
    by (simp add: show_v4_def)
  have d: "is_ascii_digit (hd (dec n))" "is_ascii_digit (last (dec n))" for n
    using dec_digits [of n] dec_nonempty [of n] by (simp_all add: list_all_iff)
  show "show_v4 a \<noteq> []" by (simp add: shown)
  show "is_ascii_digit (hd (show_v4 a))" using d(1) [of "octet a 0"] by (simp add: shown)
  show "is_ascii_digit (last (show_v4 a))" using d(2) [of "octet a 3"] by (simp add: shown)
qed

lemma set_show_v4: "set (show_v4 a) \<subseteq> {c. is_ascii_digit c} \<union> {CHR ''.''}"
proof -
  have "c \<in> set (dec n) \<Longrightarrow> is_ascii_digit c" for c n using dec_digits [of n] by (simp add: list_all_iff)
  then show ?thesis by (auto simp: show_v4_def)
qed

lemma trim_v4: "trim_ascii (CHR '' '' # show_v4 a) = show_v4 a"
proof -
  let ?P = "\<lambda>c. 9 \<le> byte c \<and> byte c \<le> 13 \<or> byte c = 32"
  have digit: "\<not> ?P c" if "is_ascii_digit c" for c using that by (simp add: is_ascii_digit_def)
  have space: "?P CHR '' ''" by (simp add: byte_def)
  have front: "dropWhile ?P (CHR '' '' # show_v4 a) = show_v4 a"
    using digit [OF show_v4_ends(2) [of a]] show_v4_ends(1) [of a] space by (cases "show_v4 a") auto
  have "dropWhile ?P (rev (show_v4 a)) = rev (show_v4 a)"
    using digit [OF show_v4_ends(3) [of a]] show_v4_ends(1) [of a]
    by (cases "show_v4 a" rule: rev_cases) auto
  with front show ?thesis by (simp add: trim_ascii_def trim_by_def)
qed



end
