(* ===== verification/Agents.thy ===== *)
theory Agents
  imports Credentials Json
begin

text \<open>
  Agent access (\<open>agent.rs\<close>): the tokens a listener creates for an assistant, the middleware that
  accepts them, and the choice of the tool a message may run. The digest of a secret, fresh ids and
  secrets, clocks and the outcome of a write are parameters; a failed write leaves the store alone.
\<close>

section \<open>Scopes\<close>

datatype agent_scope = LibraryScope | ProgressScope | HistoryScope | TextScope | GetBooksScope | UnknownScope

text \<open>The derived order of the scopes.\<close>

fun scope_rank :: "agent_scope \<Rightarrow> nat" where
  "scope_rank LibraryScope = 0"
| "scope_rank ProgressScope = 1"
| "scope_rank HistoryScope = 2"
| "scope_rank TextScope = 3"
| "scope_rank GetBooksScope = 4"
| "scope_rank UnknownScope = 5"

lemma scope_rank_inj: "scope_rank a = scope_rank b \<Longrightarrow> a = b"
  by (cases a; cases b) simp_all

instantiation agent_scope :: linorder
begin

definition less_eq_agent_scope :: "agent_scope \<Rightarrow> agent_scope \<Rightarrow> bool" where
  "less_eq_agent_scope a b \<longleftrightarrow> scope_rank a \<le> scope_rank b"

definition less_agent_scope :: "agent_scope \<Rightarrow> agent_scope \<Rightarrow> bool" where
  "less_agent_scope a b \<longleftrightarrow> scope_rank a < scope_rank b"

instance
  by standard (auto simp: less_eq_agent_scope_def less_agent_scope_def intro: scope_rank_inj)

end

section \<open>Tokens\<close>

record agent_token =
  at_id :: string
  at_user_id :: string
  at_name :: ustr
  at_scopes :: "agent_scope list"
  at_token_hash :: string
  at_created_at_ms :: u64
  at_last_used_at_ms :: "u64 option"

record agent_store =
  ag_enabled :: bool
  ag_tokens :: "agent_token list"

record agent_server =
  gs_agents :: agent_store
  gs_sign_ins :: sign_ins

definition AGENT_TOKEN_PREFIX :: string where "AGENT_TOKEN_PREFIX = ''olagent_''"
definition MAX_AGENT_TOKENS_PER_USER :: nat where "MAX_AGENT_TOKENS_PER_USER = 10"
definition AGENT_TOKEN_NAME_MAX_CHARS :: nat where "AGENT_TOKEN_NAME_MAX_CHARS = 64"
definition LAST_USED_RESOLUTION_MS :: u64 where "LAST_USED_RESOLUTION_MS = 600000"
definition AGENT_ACCESS_OFF :: string where "AGENT_ACCESS_OFF = ''AI assistants are not turned on for this server.''"

text \<open>\<open>CachedStore::mutate\<close>: a draft is changed and written before it is published.\<close>

definition mutate_agents ::
  "unit result \<Rightarrow> (agent_store \<Rightarrow> (agent_store \<times> 'a) result) \<Rightarrow> agent_server \<Rightarrow> agent_server \<times> 'a result" where
  "mutate_agents saved change s =
     (case change (gs_agents s) of
        Inl e \<Rightarrow> (s, Inl e)
      | Inr (draft, outcome) \<Rightarrow>
          (case saved of Inl e \<Rightarrow> (s, Inl e) | Inr _ \<Rightarrow> (s\<lparr>gs_agents := draft\<rparr>, Inr outcome)))"

record agent_access_status =
  aa_enabled :: bool
  aa_assistants :: nat
  aa_listeners :: nat

definition access_status :: "agent_store \<Rightarrow> agent_access_status" where
  "access_status store =
     \<lparr>aa_enabled = ag_enabled store, aa_assistants = length (ag_tokens store),
      aa_listeners = length (remdups (map at_user_id (ag_tokens store)))\<rparr>"

definition agent_access_experiment :: "auth_user \<Rightarrow> agent_server \<Rightarrow> agent_access_status result" where
  "agent_access_experiment auth s = map_sum (\<lambda>e. e) (\<lambda>_. access_status (gs_agents s)) (require_admin auth)"

definition set_agent_access_enabled ::
  "auth_user \<Rightarrow> bool \<Rightarrow> unit result \<Rightarrow> agent_server \<Rightarrow> agent_server \<times> agent_access_status result" where
  "set_agent_access_enabled auth enabled saved s =
     (case require_owner auth of
        Inl e \<Rightarrow> (s, Inl e)
      | Inr _ \<Rightarrow> mutate_agents saved (\<lambda>store. let store' = store\<lparr>ag_enabled := enabled\<rparr> in Inr (store', access_status store')) s)"

definition list_agent_tokens :: "auth_user \<Rightarrow> agent_server \<Rightarrow> agent_token list result" where
  "list_agent_tokens auth s =
     (if \<not> ag_enabled (gs_agents s) then Inl (not_found AGENT_ACCESS_OFF)
      else Inr (sort_key (\<lambda>t. u64_max - at_created_at_ms t)
                  (filter (\<lambda>t. at_user_id t = a_id auth) (ag_tokens (gs_agents s)))))"

definition checked_agent_name :: "ustr \<Rightarrow> ustr result" where
  "checked_agent_name raw =
     (let name = trim raw in
      if name = [] then Inl (bad_request ''Give the agent a name.'')
      else if AGENT_TOKEN_NAME_MAX_CHARS < length name \<or> list_ex is_control name
      then Inl (bad_request ''An agent name is at most 64 characters on one line.'')
      else Inr name)"

definition checked_agent_scopes :: "agent_scope list \<Rightarrow> agent_scope list result" where
  "checked_agent_scopes raw =
     (if UnknownScope \<in> set raw then Inl (bad_request ''That access level is not recognized.'')
      else (let scopes = remdups_adj (sort raw) in
            if scopes = [] then Inl (bad_request ''Choose at least one thing the agent may read.'') else Inr scopes))"

definition session_current :: "string \<Rightarrow> string \<Rightarrow> u64 \<Rightarrow> sign_ins \<Rightarrow> bool" where
  "session_current session_id user_id now_seconds s \<longleftrightarrow>
     (case tget (si_sessions s) session_id of
        None \<Rightarrow> False
      | Some current \<Rightarrow> se_user_id current = user_id \<and> \<not> is_expired current now_seconds)"

definition push_agent_token :: "agent_token \<Rightarrow> agent_store \<Rightarrow> (agent_store \<times> unit) result" where
  "push_agent_token token store =
     (if \<not> ag_enabled store then Inl (not_found AGENT_ACCESS_OFF)
      else if MAX_AGENT_TOKENS_PER_USER \<le> length (filter (\<lambda>t. at_user_id t = at_user_id token) (ag_tokens store))
      then Inl (conflict ''You can connect at most 10 agents. Remove one first.'')
      else Inr (store\<lparr>ag_tokens := ag_tokens store @ [token]\<rparr>, ()))"

text \<open>Under the issuance lock from the check of the session on. \<open>key\<close> is \<open>agent_token_lookup_key\<close>.\<close>

record create_agent_request =
  ca_name :: ustr
  ca_scopes :: "agent_scope list"

definition create_agent_token ::
  "(string \<Rightarrow> string) \<Rightarrow> auth_user \<Rightarrow> string \<Rightarrow> create_agent_request \<Rightarrow> u64 \<Rightarrow> string \<Rightarrow> string \<Rightarrow> u64 \<Rightarrow> unit result
   \<Rightarrow> agent_server \<Rightarrow> agent_server \<times> (string \<times> agent_token) result" where
  "create_agent_token key auth session_id payload now_seconds random_token new_id now saved s =
     (case checked_agent_name (ca_name payload) of
        Inl e \<Rightarrow> (s, Inl e)
      | Inr name \<Rightarrow>
          (case checked_agent_scopes (ca_scopes payload) of
             Inl e \<Rightarrow> (s, Inl e)
           | Inr scopes \<Rightarrow>
               if \<not> session_current session_id (a_id auth) now_seconds (gs_sign_ins s)
               then (s, Inl (unauthorized ''Sign in again before connecting an agent.''))
               else (let secret = AGENT_TOKEN_PREFIX @ random_token;
                         token = \<lparr>at_id = new_id, at_user_id = a_id auth, at_name = name, at_scopes = scopes,
                                  at_token_hash = key secret, at_created_at_ms = now, at_last_used_at_ms = None\<rparr>
                     in map_prod (\<lambda>s. s) (map_sum (\<lambda>e. e) (\<lambda>_. (secret, token))) (mutate_agents saved (push_agent_token token) s))))"

definition revoke_agent_token :: "auth_user \<Rightarrow> string \<Rightarrow> unit result \<Rightarrow> agent_server \<Rightarrow> agent_server \<times> unit result" where
  "revoke_agent_token auth token_id saved s =
     mutate_agents saved (\<lambda>store.
       let kept = filter (\<lambda>t. \<not> (at_id t = token_id \<and> at_user_id t = a_id auth)) (ag_tokens store) in
       if length kept = length (ag_tokens store) then Inl (not_found ''Agent not found.'')
       else Inr (store\<lparr>ag_tokens := kept\<rparr>, ())) s"

definition revoke_agent_tokens_for_user :: "string \<Rightarrow> unit result \<Rightarrow> agent_server \<Rightarrow> agent_server \<times> unit result" where
  "revoke_agent_tokens_for_user user_id saved s =
     (if \<not> list_ex (\<lambda>t. at_user_id t = user_id) (ag_tokens (gs_agents s)) then (s, Inr ())
      else mutate_agents saved (\<lambda>store.
        Inr (store\<lparr>ag_tokens := filter (\<lambda>t. at_user_id t \<noteq> user_id) (ag_tokens store)\<rparr>, ())) s)"

section \<open>Requests\<close>

record agent_caller =
  ac_scopes :: "agent_scope list"
  ac_user :: auth_user

definition allows :: "agent_caller \<Rightarrow> agent_scope \<Rightarrow> bool" where
  "allows caller scope \<longleftrightarrow> scope \<in> set (ac_scopes caller)"

definition last_used_due :: "agent_token \<Rightarrow> u64 \<Rightarrow> bool" where
  "last_used_due token now \<longleftrightarrow>
     (case at_last_used_at_ms token of None \<Rightarrow> True | Some last_used \<Rightarrow> LAST_USED_RESOLUTION_MS \<le> sat_sub now last_used)"

definition record_use :: "string \<Rightarrow> u64 \<Rightarrow> agent_store \<Rightarrow> agent_store" where
  "record_use token_id now store =
     store\<lparr>ag_tokens := update_first (\<lambda>t. at_id t = token_id) (\<lambda>t. t\<lparr>at_last_used_at_ms := Some now\<rparr>) (ag_tokens store)\<rparr>"

definition resolve_agent_token ::
  "(string \<Rightarrow> string) \<Rightarrow> string \<Rightarrow> u64 \<Rightarrow> unit result \<Rightarrow> agent_server \<Rightarrow> agent_server \<times> agent_caller option" where
  "resolve_agent_token key secret now saved s =
     (case List.find (\<lambda>t. at_token_hash t = key secret) (ag_tokens (gs_agents s)) of
        None \<Rightarrow> (s, None)
      | Some token \<Rightarrow>
          (case List.find (\<lambda>u. u_id u = at_user_id token) (users (si_accounts (gs_sign_ins s))) of
             None \<Rightarrow> (s, None)
           | Some user \<Rightarrow>
               (if last_used_due token now then fst (mutate_agents saved (\<lambda>store. Inr (record_use (at_id token) now store, ())) s)
                else s,
                Some \<lparr>ac_scopes = at_scopes token, ac_user = auth_of_user user\<rparr>)))"

definition agent_auth_middleware ::
  "(string \<Rightarrow> string) \<Rightarrow> headers \<Rightarrow> u64 \<Rightarrow> unit result \<Rightarrow> agent_server \<Rightarrow> agent_server \<times> agent_caller result" where
  "agent_auth_middleware key h now saved s =
     (if \<not> ag_enabled (gs_agents s) then (s, Inl (forbidden AGENT_ACCESS_OFF))
      else case token_from_authorization h of
        None \<Rightarrow> (s, Inl (unauthorized ''Agent access needs an agent token from Settings, sent as Authorization: Bearer.''))
      | Some secret \<Rightarrow>
          if strip_prefix AGENT_TOKEN_PREFIX secret = None
          then (s, Inl (unauthorized ''Agent access needs an agent token from Settings, sent as Authorization: Bearer.''))
          else (case resolve_agent_token key secret now saved s of
                  (s', None) \<Rightarrow> (s', Inl (unauthorized ''This agent token was removed or is not valid.''))
                | (s', Some caller) \<Rightarrow> (s', Inr caller)))"

section \<open>Tools\<close>

datatype agent_tool =
    SearchLibrary | GetBook | GetCurrentlyListening | GetListeningSessions | GetFinishedBooks | GetListeningStats
  | GetAchievements | GetSeriesProgress | GetTextSoFar | FindStoreBooks | GetBookOntoServer

definition all_tools :: "agent_tool list" where
  "all_tools =
     [SearchLibrary, GetBook, GetSeriesProgress, GetCurrentlyListening, GetListeningSessions, GetFinishedBooks,
      GetListeningStats, GetAchievements, GetTextSoFar, FindStoreBooks, GetBookOntoServer]"

fun tool_name :: "agent_tool \<Rightarrow> string" where
  "tool_name SearchLibrary = ''search_library''"
| "tool_name GetBook = ''get_book''"
| "tool_name GetCurrentlyListening = ''get_currently_listening''"
| "tool_name GetListeningSessions = ''get_listening_sessions''"
| "tool_name GetFinishedBooks = ''get_finished_books''"
| "tool_name GetListeningStats = ''get_listening_stats''"
| "tool_name GetAchievements = ''get_achievements''"
| "tool_name GetSeriesProgress = ''get_series_progress''"
| "tool_name GetTextSoFar = ''get_text_so_far''"
| "tool_name FindStoreBooks = ''find_store_books''"
| "tool_name GetBookOntoServer = ''get_book_onto_server''"

fun tool_scope :: "agent_tool \<Rightarrow> agent_scope" where
  "tool_scope SearchLibrary = LibraryScope"
| "tool_scope GetBook = LibraryScope"
| "tool_scope GetSeriesProgress = LibraryScope"
| "tool_scope GetCurrentlyListening = ProgressScope"
| "tool_scope GetListeningSessions = HistoryScope"
| "tool_scope GetFinishedBooks = HistoryScope"
| "tool_scope GetListeningStats = HistoryScope"
| "tool_scope GetAchievements = HistoryScope"
| "tool_scope GetTextSoFar = TextScope"
| "tool_scope FindStoreBooks = GetBooksScope"
| "tool_scope GetBookOntoServer = GetBooksScope"

definition named_tool :: "ustr \<Rightarrow> agent_caller \<Rightarrow> agent_tool option" where
  "named_tool name caller = List.find (\<lambda>t. cps (tool_name t) = name \<and> allows caller (tool_scope t)) all_tools"

definition tool_list :: "agent_caller \<Rightarrow> agent_tool list" where
  "tool_list caller = filter (\<lambda>t. allows caller (tool_scope t)) all_tools"

text \<open>
  \<open>mcp_endpoint\<close>: what a parsed message asks for. \<open>Some\<close> tool with its arguments runs, everything else is
  answered at once.
\<close>

datatype mcp_reply =
    ParseError | NotAnObject | Accepted
  | Initialized json
  | Pong
  | ToolsListed "agent_tool list"
  | UnknownTool
  | RunTool agent_tool json
  | MethodNotFound

definition mcp_method :: "agent_caller \<Rightarrow> ustr \<Rightarrow> json \<Rightarrow> mcp_reply" where
  "mcp_method caller meth params =
     (if meth = cps ''initialize'' then Initialized params
      else if meth = cps ''ping'' then Pong
      else if meth = cps ''tools/list'' then ToolsListed (tool_list caller)
      else if meth = cps ''tools/call''
      then (let arguments = (case json_get ''arguments'' params of Some a \<Rightarrow> a | None \<Rightarrow> JObject [])
            in case Option.bind (Option.bind (json_get ''name'' params) as_str) (\<lambda>name. named_tool name caller) of
                 None \<Rightarrow> UnknownTool
               | Some tool \<Rightarrow> RunTool tool arguments)
      else MethodNotFound)"

definition mcp_endpoint :: "agent_caller \<Rightarrow> json option \<Rightarrow> mcp_reply" where
  "mcp_endpoint caller body =
     (case body of
        None \<Rightarrow> ParseError
      | Some (JObject members) \<Rightarrow>
          (case (map_of members ''id'', Option.bind (map_of members ''method'') as_str) of
             (Some _, Some meth) \<Rightarrow>
               mcp_method caller meth (case map_of members ''params'' of Some p \<Rightarrow> p | None \<Rightarrow> JNull)
           | _ \<Rightarrow> Accepted)
      | Some _ \<Rightarrow> NotAnObject)"

definition MCP_PROTOCOL_VERSIONS :: "ustr list" where
  "MCP_PROTOCOL_VERSIONS = map cps [''2025-11-25'', ''2025-06-18'', ''2025-03-26'', ''2024-11-05'']"

definition initialize_version :: "json \<Rightarrow> ustr" where
  "initialize_version params =
     (case Option.bind (json_get ''protocolVersion'' params) as_str of
        Some v \<Rightarrow> if v \<in> set MCP_PROTOCOL_VERSIONS then v else hd MCP_PROTOCOL_VERSIONS
      | None \<Rightarrow> hd MCP_PROTOCOL_VERSIONS)"

definition tool_failure :: "api_error \<Rightarrow> string" where
  "tool_failure e =
     (if 500 \<le> status e \<and> status e < 600 then ''The server could not answer that. Try again later.'' else message e)"

section \<open>Histories\<close>

text \<open>
  Everything that touches the tokens, in any order. Accounts and sessions may change in any way between
  two steps.
\<close>

datatype agent_event =
    SetAgentAccess auth_user bool "unit result"
  | CreateAgent auth_user string create_agent_request u64 string string u64 "unit result"
  | RevokeAgent auth_user string "unit result"
  | RevokeAgentsOf string "unit result"
  | AgentRequest headers u64 "unit result"
  | AccountsChange sign_ins

fun agent_apply :: "(string \<Rightarrow> string) \<Rightarrow> agent_event \<Rightarrow> agent_server \<Rightarrow> agent_server" where
  "agent_apply key (SetAgentAccess auth enabled saved) s = fst (set_agent_access_enabled auth enabled saved s)"
| "agent_apply key (CreateAgent auth session_id payload now_seconds random_token new_id now saved) s =
     fst (create_agent_token key auth session_id payload now_seconds random_token new_id now saved s)"
| "agent_apply key (RevokeAgent auth token_id saved) s = fst (revoke_agent_token auth token_id saved s)"
| "agent_apply key (RevokeAgentsOf user_id saved) s = fst (revoke_agent_tokens_for_user user_id saved s)"
| "agent_apply key (AgentRequest h now saved) s = fst (agent_auth_middleware key h now saved s)"
| "agent_apply key (AccountsChange sign_ins) s = s\<lparr>gs_sign_ins := sign_ins\<rparr>"

definition no_agents :: agent_server where
  "no_agents = \<lparr>gs_agents = \<lparr>ag_enabled = False, ag_tokens = []\<rparr>, gs_sign_ins = no_sign_ins\<rparr>"

abbreviation agent_run :: "(string \<Rightarrow> string) \<Rightarrow> agent_event list \<Rightarrow> agent_server" where
  "agent_run key events \<equiv> foldl (\<lambda>s e. agent_apply key e s) no_agents events"

abbreviation tokens_of :: "agent_server \<Rightarrow> agent_token list" where
  "tokens_of s \<equiv> ag_tokens (gs_agents s)"

text \<open>What a token is for, which no use of it changes.\<close>

definition grant_of :: "agent_token \<Rightarrow> string \<times> string \<times> ustr \<times> agent_scope list \<times> string" where
  "grant_of t = (at_id t, at_user_id t, at_name t, at_scopes t, at_token_hash t)"

lemma grants_update_first:
  "map grant_of (update_first P (\<lambda>t. t\<lparr>at_last_used_at_ms := x\<rparr>) ts) = map grant_of ts"
  by (induction ts) (auto simp: grant_of_def)

lemma resolve_keeps_grants:
  "map grant_of (tokens_of (fst (resolve_agent_token key secret now saved s))) = map grant_of (tokens_of s)"
  by (auto simp: resolve_agent_token_def mutate_agents_def record_use_def grants_update_first split: option.split sum.split)

lemma fst_case_outcome: "fst (case p of (x, None) \<Rightarrow> (x, a) | (x, Some c) \<Rightarrow> (x, f c)) = fst p"
  by (cases p; cases "snd p") auto

lemma middleware_keeps_grants:
  "map grant_of (tokens_of (fst (agent_auth_middleware key h now saved s))) = map grant_of (tokens_of s)"
  by (simp add: agent_auth_middleware_def fst_case_outcome resolve_keeps_grants split: option.split)

definition pushes :: "(string \<Rightarrow> string) \<Rightarrow> agent_event \<Rightarrow> agent_server \<Rightarrow> (string \<times> agent_token) option" where
  "pushes key e s =
     (case e of
        CreateAgent auth session_id payload now_seconds random_token new_id now saved \<Rightarrow>
          (case snd (create_agent_token key auth session_id payload now_seconds random_token new_id now saved s) of
             Inr r \<Rightarrow> Some r | Inl _ \<Rightarrow> None)
      | _ \<Rightarrow> None)"

text \<open>A successful removal by its owner, or of everything the owner holds.\<close>

definition revokes :: "string \<Rightarrow> string \<Rightarrow> agent_event \<Rightarrow> agent_server \<Rightarrow> bool" where
  "revokes user_id token_id e s \<longleftrightarrow>
     (case e of
        RevokeAgent auth i saved \<Rightarrow> a_id auth = user_id \<and> i = token_id \<and> \<not> isl (snd (revoke_agent_token auth i saved s))
      | RevokeAgentsOf u saved \<Rightarrow> u = user_id \<and> \<not> isl (snd (revoke_agent_tokens_for_user u saved s))
      | _ \<Rightarrow> False)"

fun kept_through :: "(string \<Rightarrow> string) \<Rightarrow> string \<Rightarrow> string \<Rightarrow> agent_event list \<Rightarrow> agent_server \<Rightarrow> bool" where
  "kept_through key user_id token_id [] s \<longleftrightarrow> True"
| "kept_through key user_id token_id (e # es) s \<longleftrightarrow>
     \<not> revokes user_id token_id e s \<and> kept_through key user_id token_id es (agent_apply key e s)"

lemma kept_through_snoc:
  "kept_through key u i (es @ [e]) s \<longleftrightarrow>
     kept_through key u i es s \<and> \<not> revokes u i e (foldl (\<lambda>s e. agent_apply key e s) s es)"
  by (induction es arbitrary: s) auto

lemma create_success:
  assumes "create_agent_token key auth session_id payload now_seconds random_token new_id now saved s = (s', Inr (secret, token))"
  shows "tokens_of s' = tokens_of s @ [token]" "ag_enabled (gs_agents s)"
    "session_current session_id (a_id auth) now_seconds (gs_sign_ins s)"
    "at_user_id token = a_id auth" "at_token_hash token = key secret"
    "checked_agent_name (ca_name payload) = Inr (at_name token)"
    "checked_agent_scopes (ca_scopes payload) = Inr (at_scopes token)"
    "length (filter (\<lambda>t. at_user_id t = a_id auth) (tokens_of s)) < 10"
  using assms
  by (auto simp: create_agent_token_def Let_def mutate_agents_def push_agent_token_def MAX_AGENT_TOKENS_PER_USER_def
      split: sum.splits if_splits)

lemma create_failure:
  "create_agent_token key auth session_id payload now_seconds random_token new_id now saved s = (s', Inl e) \<Longrightarrow> s' = s"
  by (auto simp: create_agent_token_def Let_def mutate_agents_def split: sum.splits if_splits)

text \<open>A token after a step was there before and not revoked, or the step made it.\<close>

lemma agent_apply_tokens:
  assumes "t \<in> set (tokens_of (agent_apply key e s))"
  shows "(\<exists>t' \<in> set (tokens_of s). grant_of t' = grant_of t) \<and> \<not> revokes (at_user_id t) (at_id t) e s
    \<or> (\<exists>secret. pushes key e s = Some (secret, t))"
proof (cases e)
  case (SetAgentAccess auth enabled saved)
  then show ?thesis
    using assms by (auto simp: set_agent_access_enabled_def mutate_agents_def revokes_def Let_def split: sum.splits)
next
  case (CreateAgent auth session_id payload now_seconds random_token new_id now saved)
  obtain s' r where c: "create_agent_token key auth session_id payload now_seconds random_token new_id now saved s = (s', r)"
    by (cases "create_agent_token key auth session_id payload now_seconds random_token new_id now saved s")
  show ?thesis
  proof (cases r)
    case (Inl e)
    then have "s' = s" using create_failure c by simp
    then show ?thesis using assms c by (auto simp: CreateAgent revokes_def)
  next
    case (Inr x)
    then show ?thesis
      using assms c create_success(1) [of key] by (cases x) (auto simp: CreateAgent revokes_def pushes_def)
  qed
next
  case (RevokeAgent auth token_id saved)
  then show ?thesis
    using assms by (auto simp: revoke_agent_token_def mutate_agents_def revokes_def Let_def split: sum.splits if_splits)
next
  case (RevokeAgentsOf user_id saved)
  then show ?thesis
    using assms by (auto simp: revoke_agent_tokens_for_user_def mutate_agents_def revokes_def list_ex_iff split: sum.splits if_splits)
next
  case (AgentRequest h now saved)
  have "grant_of t \<in> grant_of ` set (tokens_of s)"
    using assms middleware_keeps_grants [of key h now saved s] unfolding AgentRequest agent_apply.simps
    by (metis image_eqI list.set_map)
  then show ?thesis by (auto simp: AgentRequest revokes_def)
qed (use assms in \<open>auto simp: revokes_def\<close>)

lemma token_was_granted:
  "t \<in> set (tokens_of (agent_run key events))
   \<Longrightarrow> \<exists>before e after secret token.
         events = before @ e # after \<and> pushes key e (agent_run key before) = Some (secret, token)
         \<and> grant_of token = grant_of t
         \<and> kept_through key (at_user_id t) (at_id t) after (agent_run key (before @ [e]))"
proof (induction events arbitrary: t rule: rev_induct)
  case Nil
  then show ?case by (simp add: no_agents_def)
next
  case (snoc e events)
  let ?s = "agent_run key events"
  from snoc.prems have "t \<in> set (tokens_of (agent_apply key e ?s))" by simp
  from agent_apply_tokens [OF this] show ?case
  proof
    assume "(\<exists>t' \<in> set (tokens_of ?s). grant_of t' = grant_of t) \<and> \<not> revokes (at_user_id t) (at_id t) e ?s"
    then obtain t' where t': "t' \<in> set (tokens_of ?s)" "grant_of t' = grant_of t" "\<not> revokes (at_user_id t) (at_id t) e ?s"
      by blast
    then have same: "at_user_id t' = at_user_id t" "at_id t' = at_id t" by (auto simp: grant_of_def)
    obtain before d after secret token where d: "events = before @ d # after"
      "pushes key d (agent_run key before) = Some (secret, token)" "grant_of token = grant_of t'"
      "kept_through key (at_user_id t') (at_id t') after (agent_run key (before @ [d]))"
      using snoc.IH [OF t'(1)] by blast
    have "kept_through key (at_user_id t) (at_id t) (after @ [e]) (agent_run key (before @ [d]))"
      using d(1,4) t'(3) unfolding kept_through_snoc same by simp
    then show ?thesis using d t'(2) by - (rule exI [of _ before], rule exI [of _ d], rule exI [of _ "after @ [e]"], auto)
  next
    assume "\<exists>secret. pushes key e ?s = Some (secret, t)"
    then show ?thesis by - (rule exI [of _ events], rule exI [of _ e], rule exI [of _ "[]"], auto)
  qed
qed

section \<open>What a token lets an assistant do\<close>

lemma named_tool_allowed: "named_tool name caller = Some tool \<Longrightarrow> allows caller (tool_scope tool)"
  by (auto simp: named_tool_def find_Some_iff)

lemma endpoint_tool_allowed: "mcp_endpoint caller body = RunTool tool arguments \<Longrightarrow> allows caller (tool_scope tool)"
  by (auto simp: mcp_endpoint_def mcp_method_def Let_def named_tool_allowed
      split: option.splits json.splits if_splits bind_splits)

lemma middleware_caller:
  assumes "agent_auth_middleware key h now saved s = (s', Inr caller)"
  obtains secret t u where "ag_enabled (gs_agents s)" "token_from_authorization h = Some secret"
    "t \<in> set (tokens_of s)" "at_token_hash t = key secret" "ac_scopes caller = at_scopes t"
    "u \<in> set (users (si_accounts (gs_sign_ins s)))" "u_id u = at_user_id t" "ac_user caller = auth_of_user u"
  using assms
  by (auto simp: agent_auth_middleware_def resolve_agent_token_def dest!: find_Some_in split: if_splits option.splits prod.splits)

lemma checked_scopes_set: "checked_agent_scopes raw = Inr scopes \<Longrightarrow> set scopes = set raw"
  by (auto simp: checked_agent_scopes_def Let_def split: if_splits)

text \<open>
  C10: a tool runs for a request (\<open>agent.rs\<close>) only while the owner has assistants turned on, with a secret
  in the \<open>Authorization\<close> header that stands for a token some listener created while signed in, choosing
  the scope of that tool; since then neither that token nor all tokens of the listener were
  removed; and it runs with what the listener's account may see at that moment.
\<close>

theorem agent_runs_only_granted_tools:
  assumes "agent_auth_middleware key h now saved (agent_run key events) = (s', Inr caller)"
    and "mcp_endpoint caller body = RunTool tool arguments"
  shows "ag_enabled (gs_agents (agent_run key events))
    \<and> (\<exists>secret auth session_id payload now_seconds random_token new_id made_at saved' before after.
         token_from_authorization h = Some secret
         \<and> events = before @ CreateAgent auth session_id payload now_seconds random_token new_id made_at saved' # after
         \<and> key (AGENT_TOKEN_PREFIX @ random_token) = key secret
         \<and> session_current session_id (a_id auth) now_seconds (gs_sign_ins (agent_run key before))
         \<and> tool_scope tool \<in> set (ca_scopes payload)
         \<and> kept_through key (a_id auth) new_id after (agent_run key (before
              @ [CreateAgent auth session_id payload now_seconds random_token new_id made_at saved']))
         \<and> a_id (ac_user caller) = a_id auth)
    \<and> ac_user caller \<in> auth_of_user ` set (users (si_accounts (gs_sign_ins (agent_run key events))))"
proof -
  let ?s = "agent_run key events"
  obtain secret t u where m: "ag_enabled (gs_agents ?s)" "token_from_authorization h = Some secret"
    "t \<in> set (tokens_of ?s)" "at_token_hash t = key secret" "ac_scopes caller = at_scopes t"
    "u \<in> set (users (si_accounts (gs_sign_ins ?s)))" "u_id u = at_user_id t" "ac_user caller = auth_of_user u"
    by (rule middleware_caller [OF assms(1)])
  obtain before e after secret' token where g: "events = before @ e # after"
    "pushes key e (agent_run key before) = Some (secret', token)" "grant_of token = grant_of t"
    "kept_through key (at_user_id t) (at_id t) after (agent_run key (before @ [e]))"
    using token_was_granted [OF m(3)] by blast
  obtain auth session_id payload now_seconds random_token new_id made_at saved' s2 where e:
    "e = CreateAgent auth session_id payload now_seconds random_token new_id made_at saved'"
    "create_agent_token key auth session_id payload now_seconds random_token new_id made_at saved' (agent_run key before)
       = (s2, Inr (secret', token))"
    using g(2) by (auto simp: pushes_def split: agent_event.splits sum.splits) (metis prod.collapse)
  note c = create_success [OF e(2)]
  have t: "at_user_id t = a_id auth" "at_token_hash t = at_token_hash token" "at_scopes t = at_scopes token" "at_id t = at_id token"
    using g(3) c(4) by (auto simp: grant_of_def)
  have shown: "secret' = AGENT_TOKEN_PREFIX @ random_token" "at_id token = new_id"
    using e(2) by (auto simp: create_agent_token_def Let_def mutate_agents_def split: sum.splits if_splits)
  have "tool_scope tool \<in> set (ca_scopes payload)"
    using endpoint_tool_allowed [OF assms(2)] checked_scopes_set [OF c(7)] m(5) t(3) by (simp add: allows_def)
  moreover have "a_id (ac_user caller) = a_id auth" using m(7,8) t(1) by (simp add: auth_of_user_def)
  ultimately have "token_from_authorization h = Some secret
    \<and> events = before @ CreateAgent auth session_id payload now_seconds random_token new_id made_at saved' # after
    \<and> key (AGENT_TOKEN_PREFIX @ random_token) = key secret
    \<and> session_current session_id (a_id auth) now_seconds (gs_sign_ins (agent_run key before))
    \<and> tool_scope tool \<in> set (ca_scopes payload)
    \<and> kept_through key (a_id auth) new_id after (agent_run key (before
         @ [CreateAgent auth session_id payload now_seconds random_token new_id made_at saved']))
    \<and> a_id (ac_user caller) = a_id auth"
    using m(2,4) g(1,4) c(3,5) t shown unfolding e(1) by metis
  then show ?thesis using m(1,6,8) by blast
qed

definition ex_agent_events :: "agent_event list" where
  "ex_agent_events =
     [AccountsChange ex_store,
      SetAgentAccess ex_owner True (Inr ()),
      CreateAgent ex_owner (session_id_for_token ex_digests ''1'')
        \<lparr>ca_name = cps ''Helper'', ca_scopes = [TextScope, LibraryScope]\<rparr> 103 ''s1'' ''t1'' 103000 (Inr ())]"

definition ex_agent_headers :: headers where
  "ex_agent_headers = [(''authorization'', ''Bearer olagent_s1'')]"

definition ex_message :: json where
  "ex_message =
     JObject [(''id'', JNull), (''method'', JString (cps ''tools/call'')),
       (''params'', JObject [(''name'', JString (cps ''get_text_so_far''))])]"

theorem agent_runs_only_granted_tools_witness:
  "\<exists>caller. snd (agent_auth_middleware (\<lambda>x. x) ex_agent_headers 103001 (Inr ()) (agent_run (\<lambda>x. x) ex_agent_events)) = Inr caller
     \<and> ac_user caller \<in> auth_of_user ` set (users (si_accounts (gs_sign_ins (agent_run (\<lambda>x. x) ex_agent_events))))"
proof -
  let ?run = "agent_auth_middleware (\<lambda>x. x) ex_agent_headers 103001 (Inr ()) (agent_run (\<lambda>x. x) ex_agent_events)"
  have "(case snd ?run of Inl _ \<Rightarrow> False | Inr caller \<Rightarrow> mcp_endpoint caller (Some ex_message) = RunTool GetTextSoFar (JObject []))"
    by code_simp
  then obtain caller where c: "snd ?run = Inr caller" "mcp_endpoint caller (Some ex_message) = RunTool GetTextSoFar (JObject [])"
    by (auto split: sum.splits)
  have "?run = (fst ?run, Inr caller)" using c(1) by (metis prod.collapse)
  from agent_runs_only_granted_tools [OF this c(2)] show ?thesis using c(1) by blast
qed

definition token_ok :: "agent_token \<Rightarrow> bool" where
  "token_ok t \<longleftrightarrow>
     trim (at_name t) = at_name t \<and> at_name t \<noteq> [] \<and> length (at_name t) \<le> 64 \<and> \<not> list_ex is_control (at_name t)
     \<and> at_scopes t \<noteq> [] \<and> sorted_wrt (<) (at_scopes t) \<and> UnknownScope \<notin> set (at_scopes t)"

lemma token_ok_grant: "grant_of t' = grant_of t \<Longrightarrow> token_ok t' \<longleftrightarrow> token_ok t"
  by (simp add: grant_of_def token_ok_def)

lemma trim_by_trimmed: "trim_by P (trim_by P s) = trim_by P s"
proof (cases "trim_by P s")
  case (Cons c r)
  then have "\<not> P c" "\<not> P (last (c # r))" using trim_by_hd [of P s] trim_by_last [of P s] by simp_all
  then have "dropWhile P (rev (c # r)) = rev (c # r)" by (simp only: dropWhile_eq_self_iff hd_rev) simp
  then have "trim_by P (c # r) = c # r" using \<open>\<not> P c\<close> by (simp add: trim_by_def)
  then show ?thesis using Cons by simp
next
  case Nil
  have "trim_by P [] = []" by (simp add: trim_by_def)
  then show ?thesis using Nil by simp
qed

lemma checked_name_ok:
  "checked_agent_name raw = Inr name
   \<Longrightarrow> trim name = name \<and> name \<noteq> [] \<and> length name \<le> 64 \<and> \<not> list_ex is_control name"
  by (auto simp: checked_agent_name_def Let_def AGENT_TOKEN_NAME_MAX_CHARS_def not_less trim_by_trimmed split: if_splits)

lemma sorted_remdups_adj_strict: "sorted xs \<Longrightarrow> sorted_wrt (<) (remdups_adj (xs :: 'a :: linorder list))"
  by (induction xs rule: remdups_adj.induct) (auto intro: le_neq_trans order_trans)

lemma checked_scopes_ok:
  "checked_agent_scopes raw = Inr scopes \<Longrightarrow> scopes \<noteq> [] \<and> sorted_wrt (<) scopes \<and> UnknownScope \<notin> set scopes"
  by (auto simp: checked_agent_scopes_def Let_def sorted_remdups_adj_strict split: if_splits)

lemma pushed_ok: "pushes key e s = Some (secret, t) \<Longrightarrow> token_ok t"
proof -
  assume "pushes key e s = Some (secret, t)"
  then obtain auth session_id payload now_seconds random_token new_id now saved s' where
    "create_agent_token key auth session_id payload now_seconds random_token new_id now saved s = (s', Inr (secret, t))"
    by (auto simp: pushes_def split: agent_event.splits sum.splits) (metis prod.collapse)
  note c = create_success [OF this]
  show "token_ok t" using checked_name_ok [OF c(6)] checked_scopes_ok [OF c(7)] by (simp add: token_ok_def)
qed

lemma tokens_ok: "list_all token_ok (tokens_of (agent_run key events))"
proof (induction events rule: rev_induct)
  case Nil
  then show ?case by (simp add: no_agents_def)
next
  case (snoc e events)
  show ?case
    unfolding list_all_iff
  proof
    fix t assume "t \<in> set (tokens_of (agent_run key (events @ [e])))"
    then have "t \<in> set (tokens_of (agent_apply key e (agent_run key events)))" by simp
    from agent_apply_tokens [OF this] show "token_ok t"
      using snoc pushed_ok token_ok_grant unfolding list_all_iff by blast
  qed
qed

abbreviation agent_count :: "string \<Rightarrow> agent_token list \<Rightarrow> nat" where
  "agent_count user_id ts \<equiv> length (filter (\<lambda>t. at_user_id t = user_id) ts)"

lemma agent_count_grants: "map grant_of ts = map grant_of ts' \<Longrightarrow> agent_count user_id ts = agent_count user_id ts'"
proof -
  have "agent_count user_id ts = length (filter (\<lambda>g. fst (snd g) = user_id) (map grant_of ts))" for ts
    by (simp add: filter_map o_def grant_of_def)
  then show "map grant_of ts = map grant_of ts' \<Longrightarrow> agent_count user_id ts = agent_count user_id ts'" by metis
qed

lemma agent_count_filter: "agent_count user_id (filter P ts) \<le> agent_count user_id ts"
  by (induction ts) auto

lemma agent_apply_count:
  assumes "\<And>u. agent_count u (tokens_of s) \<le> 10"
  shows "agent_count user_id (tokens_of (agent_apply key e s)) \<le> 10"
proof (cases e)
  case (CreateAgent auth session_id payload now_seconds random_token new_id now saved)
  obtain s' r where c: "create_agent_token key auth session_id payload now_seconds random_token new_id now saved s = (s', r)"
    by (cases "create_agent_token key auth session_id payload now_seconds random_token new_id now saved s")
  show ?thesis
  proof (cases r)
    case (Inl e)
    then show ?thesis using c create_failure assms by (metis CreateAgent agent_apply.simps(2) fst_conv)
  next
    case (Inr x)
    then obtain secret token where "r = Inr (secret, token)" by (cases x) auto
    then have "create_agent_token key auth session_id payload now_seconds random_token new_id now saved s = (s', Inr (secret, token))"
      using c by simp
    note new = create_success [OF this]
    show ?thesis using new(1,4,8) assms [of user_id] c by (auto simp: CreateAgent)
  qed
next
  case (AgentRequest h now saved)
  then show ?thesis
    using agent_count_grants [OF middleware_keeps_grants] assms by (metis agent_apply.simps(5))
qed (use assms order_trans [OF agent_count_filter assms] in
    \<open>auto simp: set_agent_access_enabled_def revoke_agent_token_def revoke_agent_tokens_for_user_def mutate_agents_def Let_def
       split: sum.splits if_splits\<close>)

lemma agent_count_le: "agent_count user_id (tokens_of (agent_run key events)) \<le> 10"
proof (induction events arbitrary: user_id rule: rev_induct)
  case (snoc e events)
  then show ?case using agent_apply_count [of "agent_run key events" user_id key e] by simp
qed (simp add: no_agents_def)

text \<open>
  C14: whatever happens to the store of tokens, a listener never holds more than ten, and every token has
  a name of one line, trimmed and of at most 64 characters, and a choice of known scopes without
  repetition, in order and not empty.
\<close>

theorem agent_tokens_well_formed:
  "length (filter (\<lambda>t. at_user_id t = user_id) (tokens_of (agent_run key events))) \<le> 10
   \<and> list_all token_ok (tokens_of (agent_run key events))"
  using agent_count_le [of user_id key events] tokens_ok [of key events] by simp

end
