(* ===== verification/AgentText.thy ===== *)
theory AgentText
  imports Agents Progress
begin

text \<open>
  The tools of an assistant that read the library (\<open>agent.rs\<close>): the search, one book, the series and
  the text up to where the listener is. A reply is a record with the members of its JSON object. The
  library, the progress of the listener, the map of a book and the reading of numbers from JSON are
  parameters; an enrichment gives each book its progress.
\<close>

section \<open>Books\<close>

record book_chapter =
  ch_title :: ustr
  ch_start_seconds :: f64
  ch_end_seconds :: "f64 option"

record agent_book = book +
  ab_subtitle :: "ustr option"
  ab_description :: "ustr option"
  ab_language :: "ustr option"
  ab_tags :: "ustr list"
  ab_chapters :: "book_chapter list"
  ab_has_reading_file :: bool
  ab_has_sync_file :: bool

record sync_fragment =
  sf_start_seconds :: f64
  sf_end_seconds :: f64
  sf_href :: ustr
  sf_text :: ustr

record sync_map =
  sm_precision :: "ustr option"
  sm_fragments :: "sync_fragment list"

type_synonym enrichment = "auth_user \<Rightarrow> agent_book list \<Rightarrow> (string \<Rightarrow> book_progress option) result"

section \<open>Arguments\<close>

definition string_argument :: "json \<Rightarrow> string \<Rightarrow> ustr option" where
  "string_argument arguments name =
     (case Option.bind (json_get name arguments) as_str of
        None \<Rightarrow> None
      | Some value \<Rightarrow> if trim value = [] then None else Some (trim value))"

definition count_argument :: "(json \<Rightarrow> u64 option) \<Rightarrow> json \<Rightarrow> string \<Rightarrow> nat \<Rightarrow> nat \<Rightarrow> nat" where
  "count_argument as_u64 arguments name default_count most =
     min (case Option.bind (json_get name arguments) as_u64 of None \<Rightarrow> default_count | Some v \<Rightarrow> unat v) most"

definition book_id_argument :: "json \<Rightarrow> string + string" where
  "book_id_argument arguments =
     (case string_argument arguments ''bookId'' of None \<Rightarrow> Inl ''bookId is required.'' | Some s \<Rightarrow> Inr (utf8 s))"

fun f64_round :: "f64 \<Rightarrow> f64" where
  "f64_round (Fin r) = Fin (of_int (if 0 \<le> r then \<lfloor>r + 1 / 2\<rfloor> else - \<lfloor>- r + 1 / 2\<rfloor>))"
| "f64_round x = x"

definition rounded1 :: "f64 \<Rightarrow> f64" where
  "rounded1 value = f64_div (f64_round (f64_mul value (Fin 10))) (Fin 10)"

definition hours :: "f64 \<Rightarrow> f64" where
  "hours seconds = rounded1 (f64_div seconds (Fin 3600))"

definition minutes :: "f64 \<Rightarrow> f64" where
  "minutes seconds = rounded1 (f64_div seconds (Fin 60))"

section \<open>What the listener has heard\<close>

definition book_status :: "book_progress option \<Rightarrow> book_progress_status" where
  "book_status p = (case p of None \<Rightarrow> NotStarted | Some p \<Rightarrow> bp_status p)"

definition status_named :: "ustr \<Rightarrow> book_progress_status option" where
  "status_named name =
     (if name = cps ''notStarted'' then Some NotStarted else if name = cps ''inProgress'' then Some InProgress
      else if name = cps ''finished'' then Some Finished else None)"

definition heard_through :: "book_progress \<Rightarrow> f64" where
  "heard_through p = (if bp_finished_override p = Some True then PInf else bp_book_position_seconds p)"

definition progress_instant :: "string \<Rightarrow> string" where
  "progress_instant updated_at = rfc3339_utc (progress_timestamp_millis updated_at div 1000)"

text \<open>The starts of the chapters rise, so the partition point is the length of the prefix that has started.\<close>

definition chapter_index_at :: "book_chapter list \<Rightarrow> f64 \<Rightarrow> nat option" where
  "chapter_index_at chapters seconds =
     (case length (takeWhile (\<lambda>c. f64_le (ch_start_seconds c) seconds) chapters) of
        0 \<Rightarrow> None
      | Suc n \<Rightarrow> Some n)"

record book_summary =
  bs_id :: string
  bs_title :: ustr
  bs_author :: "ustr option"
  bs_narrator :: "ustr option"
  bs_series :: "ustr option"
  bs_series_position :: "string option"
  bs_genres :: "ustr list"
  bs_published_date :: "string option"
  bs_duration_hours :: "f64 option"
  bs_recap_available :: bool
  bs_status :: "book_progress_status option"
  bs_percent_complete :: "f64 option"
  bs_last_listened_at :: "string option"

text \<open>The members on progress are there only for a caller that may read it.\<close>

definition book_summary_of :: "agent_caller \<Rightarrow> agent_book \<times> book_progress option \<Rightarrow> book_summary" where
  "book_summary_of caller b =
     (let (book, progress) = b; shown = allows caller ProgressScope in
      \<lparr>bs_id = b_id book, bs_title = b_title book, bs_author = b_author book, bs_narrator = b_narrator book,
       bs_series = ms_series (b_metadata book), bs_series_position = ms_series_position (b_metadata book),
       bs_genres = b_genres book, bs_published_date = b_published_date book,
       bs_duration_hours = map_option hours (b_duration_seconds book), bs_recap_available = ab_has_sync_file book,
       bs_status = (if shown then Some (book_status progress) else None),
       bs_percent_complete = (if shown then map_option rounded1 (Option.bind progress bp_percent_complete) else None),
       bs_last_listened_at = (if shown then map_option (\<lambda>p. progress_instant (bp_updated_at p)) progress else None)\<rparr>)"

section \<open>Finding books\<close>

definition caller_books_where ::
  "unit result \<Rightarrow> enrichment \<Rightarrow> agent_book list \<Rightarrow> agent_caller \<Rightarrow> (agent_book \<Rightarrow> bool)
   \<Rightarrow> string + (agent_book \<times> book_progress option) list" where
  "caller_books_where scanned enrich library caller keep =
     (case scanned of
        Inl e \<Rightarrow> Inl (tool_failure e)
      | Inr _ \<Rightarrow>
          (let books = filter (\<lambda>b. can_access_book (ac_user caller) (b_id b) \<and> keep b) library in
           if allows caller ProgressScope
           then map_sum tool_failure (\<lambda>p. map (\<lambda>b. (b, p (b_id b))) books) (enrich (ac_user caller) books)
           else Inr (map (\<lambda>b. (b, None)) books)))"

definition caller_book ::
  "enrichment \<Rightarrow> agent_book list \<Rightarrow> agent_caller \<Rightarrow> string \<Rightarrow> bool \<Rightarrow> string + (agent_book \<times> book_progress option)" where
  "caller_book enrich library caller book_id with_progress =
     (let missing = Inl ''No book with that id. Use search_library to find one.'' in
      if \<not> can_access_book (ac_user caller) book_id then missing
      else case List.find (\<lambda>b. b_id b = book_id) library of
        None \<Rightarrow> missing
      | Some b \<Rightarrow>
          if with_progress then map_sum tool_failure (\<lambda>p. (b, p (b_id b))) (enrich (ac_user caller) [b])
          else Inr (b, None))"

definition contains_folded :: "unicode \<Rightarrow> ustr \<Rightarrow> ustr \<Rightarrow> bool" where
  "contains_folded u needle haystack \<longleftrightarrow> find_sub needle (to_lowercase u haystack) \<noteq> None"

definition any_folded :: "unicode \<Rightarrow> ustr option \<Rightarrow> ustr list \<Rightarrow> bool" where
  "any_folded u needle haystacks \<longleftrightarrow> (case needle of None \<Rightarrow> True | Some n \<Rightarrow> list_ex (contains_folded u n) haystacks)"

definition option_list :: "'a option \<Rightarrow> 'a list" where
  "option_list x = (case x of None \<Rightarrow> [] | Some y \<Rightarrow> [y])"

definition search_matches :: "unicode \<Rightarrow> json \<Rightarrow> agent_book \<Rightarrow> bool" where
  "search_matches u arguments b \<longleftrightarrow>
     (let fold = (\<lambda>name. map_option (to_lowercase u) (string_argument arguments name));
          series = option_list (ms_series (b_metadata b))
      in any_folded u (fold ''query'')
           (b_title b # option_list (b_author b) @ option_list (b_narrator b) @ series @ b_genres b @ ab_tags b)
         \<and> any_folded u (fold ''author'') (option_list (b_author b))
         \<and> any_folded u (fold ''series'') (series @ ab_tags b)
         \<and> any_folded u (fold ''genre'') (b_genres b))"

record search_reply =
  sr_total :: nat
  sr_offset :: nat
  sr_books :: "book_summary list"

definition status_argument :: "agent_caller \<Rightarrow> json \<Rightarrow> string + book_progress_status option" where
  "status_argument caller arguments =
     (case string_argument arguments ''status'' of
        None \<Rightarrow> Inr None
      | Some name \<Rightarrow>
          if \<not> allows caller ProgressScope
          then Inl ''This agent may not see listening progress, so it cannot filter by status.''
          else (case status_named name of
                  None \<Rightarrow> Inl ''status must be notStarted, inProgress, or finished.''
                | Some st \<Rightarrow> Inr (Some st)))"

definition search_library ::
  "unicode \<Rightarrow> (json \<Rightarrow> u64 option) \<Rightarrow> unit result \<Rightarrow> enrichment \<Rightarrow> agent_book list \<Rightarrow> agent_caller \<Rightarrow> json
   \<Rightarrow> string + search_reply" where
  "search_library u as_u64 scanned enrich library caller arguments =
     (case status_argument caller arguments of
        Inl e \<Rightarrow> Inl e
      | Inr wanted \<Rightarrow>
          (let limit = max (count_argument as_u64 arguments ''limit'' 25 100) 1;
               skipped = count_argument as_u64 arguments ''offset'' 0 (unat u64_max)
           in map_sum id (\<lambda>books.
                let found = filter (\<lambda>(_, p). case wanted of None \<Rightarrow> True | Some st \<Rightarrow> book_status p = st) books
                in \<lparr>sr_total = length found, sr_offset = skipped,
                    sr_books = map (book_summary_of caller) (take limit (drop skipped found))\<rparr>)
              (caller_books_where scanned enrich library caller (search_matches u arguments))))"

record chapter_entry =
  ce_index :: nat
  ce_title :: ustr
  ce_start_minutes :: f64

record book_reply =
  br_summary :: book_summary
  br_subtitle :: "ustr option"
  br_description :: "ustr option"
  br_publisher :: "ustr option"
  br_language :: "ustr option"
  br_asin :: "string option"
  br_tags :: "ustr list"
  br_chapter_count :: nat
  br_chapters :: "chapter_entry list"
  br_position :: "(f64 \<times> f64 option) option"

definition reached_chapters :: "agent_book \<Rightarrow> book_progress option \<Rightarrow> nat" where
  "reached_chapters b progress =
     (case progress of
        None \<Rightarrow> 0
      | Some p \<Rightarrow> (case chapter_index_at (ab_chapters b) (heard_through p) of None \<Rightarrow> 0 | Some i \<Rightarrow> i + 1))"

definition get_book ::
  "enrichment \<Rightarrow> agent_book list \<Rightarrow> agent_caller \<Rightarrow> json \<Rightarrow> string + book_reply" where
  "get_book enrich library caller arguments =
     (case book_id_argument arguments of Inl e \<Rightarrow> Inl e | Inr book_id \<Rightarrow>
       let with_progress = allows caller ProgressScope in
       map_sum id (\<lambda>(b, p).
         let progress = (if with_progress then p else None) in
         \<lparr>br_summary = book_summary_of caller (b, p),
          br_subtitle = ab_subtitle b, br_description = ab_description b, br_publisher = ms_publisher (b_metadata b),
          br_language = ab_language b, br_asin = b_asin b, br_tags = ab_tags b,
          br_chapter_count = length (ab_chapters b),
          br_chapters = map (\<lambda>i. \<lparr>ce_index = i, ce_title = ch_title (ab_chapters b ! i),
                                  ce_start_minutes = minutes (ch_start_seconds (ab_chapters b ! i))\<rparr>)
            [0..<min (reached_chapters b progress) (length (ab_chapters b))],
          br_position = map_option (\<lambda>p. (minutes (bp_book_position_seconds p), map_option hours (bp_remaining_seconds p))) progress\<rparr>)
       (caller_book enrich library caller book_id with_progress))"

section \<open>The text so far\<close>

record heard_chapter =
  hc_index :: nat
  hc_title :: ustr
  hc_text :: ustr
  hc_complete :: bool

definition new_heard_chapter :: "agent_book \<Rightarrow> f64 \<Rightarrow> nat \<Rightarrow> heard_chapter" where
  "new_heard_chapter book through index =
     (if index < length (ab_chapters book)
      then (let chapter = ab_chapters book ! index;
                stop = (if index + 1 < length (ab_chapters book) then Some (ch_start_seconds (ab_chapters book ! (index + 1)))
                        else case ch_end_seconds chapter of Some e \<Rightarrow> Some e | None \<Rightarrow> b_duration_seconds book)
            in \<lparr>hc_index = index, hc_title = ch_title chapter, hc_text = [],
                hc_complete = (case stop of None \<Rightarrow> False | Some e \<Rightarrow> f64_le e through)\<rparr>)
      else \<lparr>hc_index = index, hc_title = b_title book, hc_text = [], hc_complete = (through = PInf \<or> through = NInf)\<rparr>)"

definition hear_fragment ::
  "agent_book \<Rightarrow> f64 \<Rightarrow> heard_chapter list \<times> ustr option \<Rightarrow> sync_fragment \<Rightarrow> heard_chapter list \<times> ustr option" where
  "hear_fragment book through st f =
     (let (chapters, previous_href) = st;
          index = (case chapter_index_at (ab_chapters book) (sf_start_seconds f) of None \<Rightarrow> 0 | Some i \<Rightarrow> i);
          fresh = (chapters = [] \<or> hc_index (last chapters) \<noteq> index);
          (chapters, previous_href) =
            (if fresh then (chapters @ [new_heard_chapter book through index], None) else (chapters, previous_href));
          chapter = last chapters;
          sep = (if hc_text chapter = [] then [] else if previous_href = Some (sf_href f) then [32] else [10, 10])
      in (butlast chapters @ [chapter\<lparr>hc_text := hc_text chapter @ sep @ trim (sf_text f)\<rparr>], Some (sf_href f)))"

definition group_heard_text :: "agent_book \<Rightarrow> sync_fragment list \<Rightarrow> f64 \<Rightarrow> heard_chapter list" where
  "group_heard_text book heard through = fst (foldl (hear_fragment book through) ([], None) heard)"

definition tail_characters :: "ustr \<Rightarrow> nat \<Rightarrow> ustr \<times> bool" where
  "tail_characters text most =
     (if length text \<le> most then (text, False)
      else (let tail = drop (length text - most) text in
            (if list_ex is_whitespace tail
             then dropWhile is_whitespace (dropWhile (\<lambda>c. \<not> is_whitespace c) tail) else tail, True)))"

text \<open>\<open>f64::total_cmp\<close> on these doubles, whose only NaN is above all, and a stable sort by it.\<close>

definition f64_total_le :: "f64 \<Rightarrow> f64 \<Rightarrow> bool" where
  "f64_total_le x y \<longleftrightarrow> x = y \<or> y = NaN \<or> f64_lt x y"

fun insert_by :: "('a \<Rightarrow> 'a \<Rightarrow> bool) \<Rightarrow> 'a \<Rightarrow> 'a list \<Rightarrow> 'a list" where
  "insert_by le x [] = [x]"
| "insert_by le x (y # ys) = (if le x y then x # y # ys else y # insert_by le x ys)"

definition sort_by :: "('a \<Rightarrow> 'a \<Rightarrow> bool) \<Rightarrow> 'a list \<Rightarrow> 'a list" where
  "sort_by le xs = foldr (insert_by le) xs []"

definition heard_fragments :: "f64 \<Rightarrow> sync_map \<Rightarrow> sync_fragment list" where
  "heard_fragments through m =
     sort_by (\<lambda>a b. f64_total_le (sf_start_seconds a) (sf_start_seconds b))
       (filter (\<lambda>f. f64_le (sf_end_seconds f) through) (sm_fragments m))"

record heard_entry =
  he_index :: nat
  he_title :: ustr
  he_characters :: nat
  he_heard_in_full :: bool

record text_reply =
  tr_book_id :: string
  tr_title :: ustr
  tr_author :: "ustr option"
  tr_finished :: bool
  tr_position_minutes :: "f64 option"
  tr_percent_complete :: "f64 option"
  tr_chapters :: "heard_entry list"
  tr_index :: nat
  tr_chapter_title :: ustr
  tr_heard_in_full :: bool
  tr_truncated_from_start :: bool
  tr_text :: ustr

definition selected_chapter ::
  "(json \<Rightarrow> u64 option) \<Rightarrow> json \<Rightarrow> heard_chapter list \<Rightarrow> string + heard_chapter" where
  "selected_chapter as_u64 arguments chapters =
     (case Option.bind (json_get ''chapter'' arguments) as_u64 of
        Some index \<Rightarrow>
          (case List.find (\<lambda>c. hc_index c = unat index) chapters of
             Some c \<Rightarrow> Inr c
           | None \<Rightarrow> Inl ''That chapter has no text the listener has heard yet. Use an index from the chapters list.'')
      | None \<Rightarrow> Inr (last chapters))"

definition text_of_map ::
  "(json \<Rightarrow> u64 option) \<Rightarrow> agent_caller \<Rightarrow> json \<Rightarrow> agent_book \<Rightarrow> book_progress option \<Rightarrow> sync_map \<Rightarrow> string + text_reply" where
  "text_of_map as_u64 caller arguments book progress m =
     (let most = max (count_argument as_u64 arguments ''maxCharacters'' 30000 200000) 1000;
          finished = (case progress of None \<Rightarrow> False | Some p \<Rightarrow> bp_status p = Finished);
          pos = (case progress of None \<Rightarrow> Fin 0 | Some p \<Rightarrow> bp_book_position_seconds p);
          through = (case progress of None \<Rightarrow> Fin 0 | Some p \<Rightarrow> heard_through p);
          heard = heard_fragments through m;
          chapters = group_heard_text book heard through
      in if (case sm_precision m of None \<Rightarrow> False | Some precision \<Rightarrow> precision \<noteq> cps ''sentence'')
         then Inl ''This book's follow-along map is only an estimate, so it cannot mark a safe stopping point. Recreating the map fixes that.''
         else if heard = [] then Inl ''The listener has not reached the first sentence of the text yet.''
         else map_sum id (\<lambda>c. let (text, truncated) = tail_characters (hc_text c) most in
           \<lparr>tr_book_id = b_id book, tr_title = b_title book, tr_author = b_author book, tr_finished = finished,
            tr_position_minutes =
              (if allows caller ProgressScope \<and> f64_is_finite through then Some (minutes pos) else None),
            tr_percent_complete =
              (if allows caller ProgressScope then map_option rounded1 (Option.bind progress bp_percent_complete) else None),
            tr_chapters = map (\<lambda>c. \<lparr>he_index = hc_index c, he_title = hc_title c, he_characters = length (hc_text c),
                                    he_heard_in_full = hc_complete c\<rparr>) chapters,
            tr_index = hc_index c, tr_chapter_title = hc_title c, tr_heard_in_full = hc_complete c,
            tr_truncated_from_start = truncated, tr_text = text\<rparr>)
           (selected_chapter as_u64 arguments chapters))"

definition get_text_so_far ::
  "(json \<Rightarrow> u64 option) \<Rightarrow> enrichment \<Rightarrow> agent_book list \<Rightarrow> (string \<Rightarrow> string option) \<Rightarrow> (string \<Rightarrow> sync_map result)
   \<Rightarrow> agent_caller \<Rightarrow> json \<Rightarrow> string + text_reply" where
  "get_text_so_far as_u64 enrich library sync_path read_map caller arguments =
     (case book_id_argument arguments of
        Inl e \<Rightarrow> Inl e
      | Inr book_id \<Rightarrow>
          (case caller_book enrich library caller book_id True of
             Inl e \<Rightarrow> Inl e
           | Inr (book, progress) \<Rightarrow>
               (case sync_path (b_id book) of
                  None \<Rightarrow>
                    Inl (if ab_has_reading_file book
                         then ''This book has its text but no follow-along map yet, so OperaLibre cannot tell exactly where the listener is in it. An administrator can create the map from the book's page.''
                         else ''This book has no text on the server, so there is nothing to recap from.'')
                | Some path \<Rightarrow>
                    if \<not> (case progress of None \<Rightarrow> False | Some p \<Rightarrow> bp_status p = Finished)
                       \<and> f64_le (case progress of None \<Rightarrow> Fin 0 | Some p \<Rightarrow> bp_book_position_seconds p) (Fin 0)
                    then Inl ''The listener has not started this book yet.''
                    else (case read_map path of
                            Inl e \<Rightarrow> Inl (tool_failure e)
                          | Inr m \<Rightarrow> text_of_map as_u64 caller arguments book progress m))))"

section \<open>Series\<close>

definition series_order :: "string option \<Rightarrow> f64 option" where
  "series_order pos =
     Option.bind pos (\<lambda>p.
       Option.bind (List.find (\<lambda>part. part \<noteq> []) (split_by (\<lambda>c. \<not> (is_ascii_digit c \<or> c = CHR ''.'')) p)) parse_f64)"

fun ustr_le :: "ustr \<Rightarrow> ustr \<Rightarrow> bool" where
  "ustr_le [] b = True"
| "ustr_le (x # a) [] = False"
| "ustr_le (x # a) (y # b) = (x < y \<or> x = y \<and> ustr_le a b)"

definition volume_le :: "agent_book \<Rightarrow> agent_book \<Rightarrow> bool" where
  "volume_le a b =
     (case (series_order (ms_series_position (b_metadata a)), series_order (ms_series_position (b_metadata b))) of
        (Some x, Some y) \<Rightarrow> if x = y then ustr_le (b_title a) (b_title b) else f64_total_le x y
      | (Some _, None) \<Rightarrow> True
      | (None, Some _) \<Rightarrow> False
      | (None, None) \<Rightarrow> ustr_le (b_title a) (b_title b))"

text \<open>A whole position from 1 to 1000, as \<open>u32\<close>.\<close>

definition whole_position :: "f64 \<Rightarrow> nat option" where
  "whole_position x =
     (case x of
        Fin r \<Rightarrow> if of_int \<lfloor>r\<rfloor> = r \<and> 1 \<le> r \<and> r \<le> 1000 then Some (nat \<lfloor>r\<rfloor>) else None
      | _ \<Rightarrow> None)"

record series_progress =
  sp_name :: ustr
  sp_books :: "(agent_book \<times> book_progress option) list"
  sp_missing_positions :: "nat list"
  sp_next :: "(agent_book \<times> book_progress option) option"

definition series_key :: "unicode \<Rightarrow> agent_book \<Rightarrow> (ustr \<times> ustr) option" where
  "series_key u b =
     (case ms_series (b_metadata b) of
        None \<Rightarrow> None
      | Some s \<Rightarrow> if trim s = [] then None else Some (to_lowercase u (trim s), trim s))"

text \<open>Groups by lower-cased name, in order of first appearance, named as first written.\<close>

fun add_to_group :: "ustr \<Rightarrow> ustr \<Rightarrow> 'a \<Rightarrow> (ustr \<times> ustr \<times> 'a list) list \<Rightarrow> (ustr \<times> ustr \<times> 'a list) list" where
  "add_to_group key name b [] = [(key, name, [b])]"
| "add_to_group key name b ((k, n, bs) # gs) =
     (if k = key then (k, n, bs @ [b]) # gs else (k, n, bs) # add_to_group key name b gs)"

definition group_series ::
  "unicode \<Rightarrow> (agent_book \<times> book_progress option) list \<Rightarrow> (ustr \<times> ustr \<times> (agent_book \<times> book_progress option) list) list" where
  "group_series u books =
     foldl (\<lambda>gs b. case series_key u (fst b) of None \<Rightarrow> gs | Some (key, name) \<Rightarrow> add_to_group key name b gs) [] books"

definition held_positions :: "(agent_book \<times> book_progress option) list \<Rightarrow> nat list" where
  "held_positions books =
     List.map_filter (\<lambda>b. Option.bind (series_order (ms_series_position (b_metadata (fst b)))) whole_position) books"

definition missing_positions :: "nat list \<Rightarrow> nat list" where
  "missing_positions held = filter (\<lambda>p. p \<notin> set held) [1..<foldr max held 0]"

definition next_volume :: "(agent_book \<times> book_progress option) list \<Rightarrow> (agent_book \<times> book_progress option) option" where
  "next_volume books =
     (case List.find (\<lambda>b. book_status (snd b) = InProgress) books of
        Some b \<Rightarrow> Some b
      | None \<Rightarrow>
          if \<not> list_ex (\<lambda>b. book_status (snd b) = Finished) books then None
          else List.find (\<lambda>b. book_status (snd b) \<noteq> Finished)
                 (rev (takeWhile (\<lambda>b. book_status (snd b) \<noteq> Finished) (rev books))))"

definition series_progress_of :: "unicode \<Rightarrow> (agent_book \<times> book_progress option) list \<Rightarrow> series_progress list" where
  "series_progress_of u books =
     map (\<lambda>(_, name, bs). let sorted = sort_by (\<lambda>a b. volume_le (fst a) (fst b)) bs in
       \<lparr>sp_name = name, sp_books = sorted, sp_missing_positions = missing_positions (held_positions sorted),
        sp_next = next_volume sorted\<rparr>) (group_series u books)"

record series_volume =
  sv_id :: string
  sv_title :: ustr
  sv_position :: "string option"
  sv_status :: "book_progress_status option"

record series_entry =
  sn_name :: ustr
  sn_books :: "series_volume list"
  sn_missing_positions :: "nat list"
  sn_counts :: "(nat \<times> nat) option"
  sn_next :: "(string \<times> ustr) option"

definition last_listened :: "series_progress \<Rightarrow> u64" where
  "last_listened s =
     foldr max (map (\<lambda>p. progress_timestamp_millis (bp_updated_at p))
       (filter (\<lambda>p. bp_status p \<noteq> NotStarted) (List.map_filter snd (sp_books s)))) 0"

definition series_entry_of :: "bool \<Rightarrow> series_progress \<Rightarrow> series_entry" where
  "series_entry_of with_progress s =
     (let count = (\<lambda>st. length (filter (\<lambda>b. book_status (snd b) = st) (sp_books s))) in
      \<lparr>sn_name = sp_name s,
       sn_books = map (\<lambda>(b, p). \<lparr>sv_id = b_id b, sv_title = b_title b, sv_position = ms_series_position (b_metadata b),
                                 sv_status = (if with_progress then Some (book_status p) else None)\<rparr>) (sp_books s),
       sn_missing_positions = sp_missing_positions s,
       sn_counts = (if with_progress then Some (count Finished, count InProgress) else None),
       sn_next = (if with_progress then map_option (\<lambda>(b, _). (b_id b, b_title b)) (sp_next s) else None)\<rparr>)"

definition get_series_progress ::
  "unicode \<Rightarrow> (json \<Rightarrow> u64 option) \<Rightarrow> unit result \<Rightarrow> enrichment \<Rightarrow> agent_book list \<Rightarrow> agent_caller \<Rightarrow> json
   \<Rightarrow> string + (nat \<times> series_entry list)" where
  "get_series_progress u as_u64 scanned enrich library caller arguments =
     (let wanted = map_option (to_lowercase u) (string_argument arguments ''series'');
          limit = max (count_argument as_u64 arguments ''limit'' 25 100) 1;
          with_progress = allows caller ProgressScope
      in map_sum id (\<lambda>books.
           let series = filter (\<lambda>s. any_folded u wanted [sp_name s]) (series_progress_of u books);
               sorted = (if with_progress then sort_by (\<lambda>a b. last_listened b \<le> last_listened a) series
                         else sort_by (\<lambda>a b. ustr_le (to_lowercase u (sp_name a)) (to_lowercase u (sp_name b))) series)
           in (length sorted, map (series_entry_of with_progress) (take limit sorted)))
         (caller_books_where scanned enrich library caller
            (\<lambda>b. case ms_series (b_metadata b) of None \<Rightarrow> False | Some s \<Rightarrow> trim s \<noteq> [])))"

section \<open>An assistant cannot run ahead of the listener\<close>

definition agree_until :: "f64 \<Rightarrow> sync_map result \<Rightarrow> sync_map result \<Rightarrow> bool" where
  "agree_until pos a b \<longleftrightarrow>
     (case (a, b) of
        (Inr m, Inr n) \<Rightarrow>
          sm_precision m = sm_precision n
          \<and> filter (\<lambda>f. f64_le (sf_end_seconds f) pos) (sm_fragments m) = filter (\<lambda>f. f64_le (sf_end_seconds f) pos) (sm_fragments n)
      | (Inl d, Inl e) \<Rightarrow> d = e
      | _ \<Rightarrow> False)"

text \<open>
  Two ways to read the maps that differ only in what ends after the position of the listener, in books the
  listener has not marked as finished.
\<close>

definition agree_where_heard ::
  "enrichment \<Rightarrow> agent_book list \<Rightarrow> (string \<Rightarrow> string option) \<Rightarrow> agent_caller \<Rightarrow> (string \<Rightarrow> sync_map result)
   \<Rightarrow> (string \<Rightarrow> sync_map result) \<Rightarrow> bool" where
  "agree_where_heard enrich library sync_path caller read1 read2 \<longleftrightarrow>
     list_all (\<lambda>b. case (enrich (ac_user caller) [b], sync_path (b_id b)) of
         (Inr f, Some path) \<Rightarrow>
           (case f (b_id b) of
              None \<Rightarrow> agree_until (Fin 0) (read1 path) (read2 path)
            | Some p \<Rightarrow> bp_finished_override p \<noteq> Some True
                        \<and> agree_until (bp_book_position_seconds p) (read1 path) (read2 path))
       | _ \<Rightarrow> True) library"

lemma map_sum_eq_Inr: "map_sum f g x = Inr y \<longleftrightarrow> (\<exists>z. x = Inr z \<and> y = g z)"
  by (cases x) auto

lemma caller_book_found:
  assumes "caller_book enrich library caller book_id with_progress = Inr (b, p)"
  shows "b \<in> set library" "can_access_book (ac_user caller) (b_id b)" "b_id b = book_id"
    "with_progress \<Longrightarrow> \<exists>f. enrich (ac_user caller) [b] = Inr f \<and> p = f (b_id b)"
    "\<not> with_progress \<Longrightarrow> p = None"
  using assms
  by (auto simp: caller_book_def Let_def map_sum_eq_Inr dest!: find_Some_in split: if_splits option.splits)


lemma chapter_index_started:
  assumes "chapter_index_at chapters seconds = Some i" "k \<le> i"
  shows "k < length chapters" "f64_le (ch_start_seconds (chapters ! k)) seconds"
proof -
  let ?P = "\<lambda>c. f64_le (ch_start_seconds c) seconds"
  have k: "k < length (takeWhile ?P chapters)" using assms by (auto simp: chapter_index_at_def split: nat.splits)
  then show "k < length chapters" using length_takeWhile_le [of ?P chapters] by simp
  show "f64_le (ch_start_seconds (chapters ! k)) seconds"
    using nth_mem [OF k] set_takeWhileD [of "takeWhile ?P chapters ! k" ?P chapters] takeWhile_nth [OF k] by metis
qed

text \<open>
  C13: \<open>get_book\<close> (\<open>agent.rs\<close>) names a chapter only to a caller that may read progress, about a book the
  listener may open, and only once the listener has reached its start, unless the listener
  marked the book as finished.
\<close>

theorem chapter_titles_not_ahead:
  assumes "get_book enrich library caller arguments = Inr r" and "c \<in> set (br_chapters r)"
  shows "allows caller ProgressScope
    \<and> (\<exists>b f p. b \<in> set library \<and> b_id b = bs_id (br_summary r) \<and> can_access_book (ac_user caller) (b_id b)
         \<and> enrich (ac_user caller) [b] = Inr f \<and> f (b_id b) = Some p
         \<and> ce_index c < length (ab_chapters b) \<and> ce_title c = ch_title (ab_chapters b ! ce_index c)
         \<and> (bp_finished_override p = Some True
            \<or> f64_le (ch_start_seconds (ab_chapters b ! ce_index c)) (bp_book_position_seconds p)))"
proof -
  obtain book_id b p where g: "caller_book enrich library caller book_id (allows caller ProgressScope) = Inr (b, p)"
    "bs_id (br_summary r) = b_id b"
    "br_chapters r = map (\<lambda>i. \<lparr>ce_index = i, ce_title = ch_title (ab_chapters b ! i),
        ce_start_minutes = minutes (ch_start_seconds (ab_chapters b ! i))\<rparr>)
      [0..<min (reached_chapters b (if allows caller ProgressScope then p else None)) (length (ab_chapters b))]"
    using assms(1) by (auto simp: get_book_def Let_def book_summary_of_def map_sum_eq_Inr split: sum.splits)
  obtain i where i: "c = \<lparr>ce_index = i, ce_title = ch_title (ab_chapters b ! i),
        ce_start_minutes = minutes (ch_start_seconds (ab_chapters b ! i))\<rparr>"
    "i < reached_chapters b (if allows caller ProgressScope then p else None)" "i < length (ab_chapters b)"
    using assms(2) g(3) by auto
  have allowed: "allows caller ProgressScope" using i(2) by (auto simp: reached_chapters_def split: if_splits)
  obtain q where q: "p = Some q" "i < (case chapter_index_at (ab_chapters b) (heard_through q) of None \<Rightarrow> 0 | Some i \<Rightarrow> i + 1)"
    using i(2) allowed by (auto simp: reached_chapters_def split: option.splits)
  then obtain k where "chapter_index_at (ab_chapters b) (heard_through q) = Some k" "i \<le> k" by (auto split: option.splits)
  then have "f64_le (ch_start_seconds (ab_chapters b ! i)) (heard_through q)" by (rule chapter_index_started)
  then have heard: "bp_finished_override q = Some True
      \<or> f64_le (ch_start_seconds (ab_chapters b ! i)) (bp_book_position_seconds q)"
    by (simp add: heard_through_def split: if_splits)
  obtain f where f: "enrich (ac_user caller) [b] = Inr f" "f (b_id b) = Some q"
    using caller_book_found(4) [OF g(1) allowed] q(1) by auto
  have "b \<in> set library \<and> b_id b = bs_id (br_summary r) \<and> can_access_book (ac_user caller) (b_id b)
     \<and> enrich (ac_user caller) [b] = Inr f \<and> f (b_id b) = Some q
     \<and> ce_index c < length (ab_chapters b) \<and> ce_title c = ch_title (ab_chapters b ! ce_index c)
     \<and> (bp_finished_override q = Some True
        \<or> f64_le (ch_start_seconds (ab_chapters b ! ce_index c)) (bp_book_position_seconds q))"
    using caller_book_found(1,2) [OF g(1)] g(2) f heard i by simp
  then show ?thesis using allowed by blast
qed

text \<open>
  C12: to a caller without the progress scope the search, a book and the series (\<open>agent.rs\<close>) tell nothing of
  the listener's progress: the answers are the same whatever that progress is.
\<close>

theorem library_tools_hide_progress:
  assumes "\<not> allows caller ProgressScope"
  shows "search_library u as_u64 scanned enrich library caller arguments = search_library u as_u64 scanned enrich' library caller arguments
    \<and> get_book enrich library caller arguments = get_book enrich' library caller arguments
    \<and> get_series_progress u as_u64 scanned enrich library caller arguments
       = get_series_progress u as_u64 scanned enrich' library caller arguments"
proof -
  have "caller_books_where scanned enrich library caller = caller_books_where scanned enrich' library caller"
    using assms by (intro ext) (simp add: caller_books_where_def split: sum.split)
  moreover have "caller_book enrich library caller book_id False = caller_book enrich' library caller book_id False" for book_id
    by (simp add: caller_book_def Let_def split: option.split)
  ultimately show ?thesis using assms by (simp add: search_library_def get_book_def get_series_progress_def split: sum.split)
qed

section \<open>Examples\<close>

definition ex_story :: agent_book where
  "ex_story =
     \<lparr>b_id = ''b1'', b_title = cps ''Story'', b_author = None, b_narrator = None, b_duration_seconds = Some (Fin 100),
      b_track_count = 1, b_genres = [], b_published_date = None, b_asin = None,
      b_metadata = \<lparr>ms_publisher = None, ms_series = None, ms_series_position = None\<rparr>, b_tracks = [],
      ab_subtitle = None, ab_description = None, ab_language = None, ab_tags = [],
      ab_chapters = [\<lparr>ch_title = cps ''Dawn'', ch_start_seconds = Fin 0, ch_end_seconds = None\<rparr>,
                     \<lparr>ch_title = cps ''Betrayal'', ch_start_seconds = Fin 50, ch_end_seconds = None\<rparr>],
      ab_has_reading_file = True, ab_has_sync_file = True\<rparr>"

definition ex_heard :: book_progress where
  "ex_heard =
     \<lparr>bp_status = InProgress, bp_finished_override = None, bp_book_position_seconds = Fin 20, bp_duration_seconds = Some (Fin 100),
      bp_remaining_seconds = Some (Fin 80), bp_percent_complete = Some (Fin 20), bp_updated_at = ''1''\<rparr>"

definition ex_enrich :: enrichment where
  "ex_enrich user books = Inr (\<lambda>id. if id = ''b1'' then Some ex_heard else None)"

definition ex_assistant :: agent_caller where
  "ex_assistant = \<lparr>ac_scopes = [LibraryScope, ProgressScope, TextScope], ac_user = ex_owner\<rparr>"

definition ex_map :: "string \<Rightarrow> string \<Rightarrow> sync_map result" where
  "ex_map ending path =
     Inr \<lparr>sm_precision = None,
          sm_fragments =
            [\<lparr>sf_start_seconds = Fin 1, sf_end_seconds = Fin 9, sf_href = cps ''a'', sf_text = cps ''It began.''\<rparr>,
             \<lparr>sf_start_seconds = Fin 60, sf_end_seconds = Fin 70, sf_href = cps ''b'', sf_text = cps ending\<rparr>]\<rparr>"

abbreviation ex_read :: "string \<Rightarrow> string + text_reply" where
  "ex_read ending \<equiv> get_text_so_far (\<lambda>_. None) ex_enrich [ex_story] (\<lambda>_. Some ''m'') (ex_map ending) ex_assistant
     (JObject [(''bookId'', JString (cps ''b1''))])"


lemma ex_book_id: "book_id_argument (JObject [(''bookId'', JString (cps ''b1''))]) = Inr ''b1''"
  by code_simp

theorem chapter_titles_not_ahead_witness:
  "\<exists>r c. get_book ex_enrich [ex_story] ex_assistant (JObject [(''bookId'', JString (cps ''b1''))]) = Inr r
     \<and> c \<in> set (br_chapters r) \<and> allows ex_assistant ProgressScope"
proof -
  let ?reply = "get_book ex_enrich [ex_story] ex_assistant (JObject [(''bookId'', JString (cps ''b1''))])"
  have access: "can_access_book (ac_user ex_assistant) ''b1''" by code_simp
  have "reached_chapters ex_story (Some ex_heard) = 1" by code_simp
  then have "(case ?reply of Inl _ \<Rightarrow> False | Inr r \<Rightarrow> br_chapters r \<noteq> [])"
    using access
    by (simp add: get_book_def ex_book_id caller_book_def Let_def ex_enrich_def allows_def)
      (simp add: ex_assistant_def ex_story_def)
  then obtain r where r: "?reply = Inr r" "br_chapters r \<noteq> []" by (cases ?reply) auto
  from hd_in_set [OF r(2)] obtain c where c: "c \<in> set (br_chapters r)" by blast
  then show ?thesis using chapter_titles_not_ahead [OF r(1) c] c r(1) by blast
qed

theorem library_tools_hide_progress_witness:
  "get_book ex_enrich [ex_story] (ex_assistant\<lparr>ac_scopes := [LibraryScope]\<rparr>) (JObject [(''bookId'', JString (cps ''b1''))])
   = get_book (\<lambda>_ _. Inr (\<lambda>_. None)) [ex_story] (ex_assistant\<lparr>ac_scopes := [LibraryScope]\<rparr>)
       (JObject [(''bookId'', JString (cps ''b1''))])"
proof -
  have "\<not> allows (ex_assistant\<lparr>ac_scopes := [LibraryScope]\<rparr>) ProgressScope" by (simp add: allows_def)
  from library_tools_hide_progress [OF this] show ?thesis by blast
qed

end
