(* ===== verification/Streaks.thy ===== *)
theory Streaks
  imports Calendar
begin

text \<open>
  Listening streaks of \<open>apps/server/src/activity.rs\<close>: the current and the longest run
  of active days, and the calendar of whole weeks. One reader's activity is the list of
  (day, seconds) entries of a \<open>BTreeMap\<close>.
\<close>

type_synonym activity = "(string \<times> f64) list"

definition ACTIVE_DAY_MIN_SECONDS :: f64 where
  "ACTIVE_DAY_MIN_SECONDS = Fin 30"

definition active_day :: "string \<times> f64 \<Rightarrow> int option" where
  "active_day e = (if f64_gt (snd e) ACTIVE_DAY_MIN_SECONDS then ymd_to_days (fst e) else None)"

text \<open>\<open>filter_map\<close>, \<open>sort_unstable\<close>, \<open>dedup\<close>.\<close>

definition active_days :: "activity \<Rightarrow> int list" where
  "active_days activity = remdups_adj (sort (List.map_filter active_day activity))"

text \<open>The loop over \<open>active_days.windows(2)\<close> with \<open>run\<close> and \<open>longest\<close>.\<close>

fun longest_loop :: "int list \<Rightarrow> nat \<Rightarrow> nat \<Rightarrow> nat" where
  "longest_loop (a # b # r) run longest =
     (if b - a = 1
      then longest_loop (b # r) (run + 1) (if run + 1 > longest then run + 1 else longest)
      else longest_loop (b # r) 1 longest)"
| "longest_loop r run longest = longest"

text \<open>The loop over the windows in reverse, on the reversed list of days.\<close>

fun current_loop :: "int list \<Rightarrow> nat \<Rightarrow> nat" where
  "current_loop (b # a # r) run =
     (if b - a = 1 then current_loop (a # r) (run + 1) else run)"
| "current_loop r run = run"

definition compute_streaks :: "activity \<Rightarrow> int \<Rightarrow> nat \<times> nat" where
  "compute_streaks activity today =
     (let days = active_days activity
      in if days = [] then (0, 0)
         else let longest = longest_loop days 1 1;
                  final = List.last days;
                  current = (if today - final \<le> 1 then current_loop (rev days) 1 else 0)
              in (current, longest))"

record streak_day =
  date :: string
  minutes :: f64

definition build_streak_calendar :: "activity \<Rightarrow> int \<Rightarrow> int \<Rightarrow> streak_day list" where
  "build_streak_calendar activity weeks today =
     (let start = today - weekday_from_monday today - (weeks - 1) * 7
      in map (\<lambda>offset.
            let d = days_to_ymd (start + offset);
                seconds = (case map_of activity d of Some s \<Rightarrow> s | None \<Rightarrow> f64_zero)
            in \<lparr>date = d, minutes = f64_div seconds (Fin 60)\<rparr>)
          [0..weeks * 7 - 1])"

section \<open>What the loops compute\<close>

text \<open>A run of \<open>n\<close> days that ends on day \<open>e\<close> and lies in the set of active days.\<close>

definition run_ends :: "int set \<Rightarrow> nat \<Rightarrow> int \<Rightarrow> bool" where
  "run_ends D n e \<longleftrightarrow> {e - int n + 1 .. e} \<subseteq> D"

lemma run_ends_1 [simp]: "run_ends D (Suc 0) e \<longleftrightarrow> e \<in> D"
  by (simp add: run_ends_def)

lemma run_ends_Suc: "run_ends D (Suc n) e \<longleftrightarrow> e \<in> D \<and> run_ends D n (e - 1)"
proof -
  have "{e - int (Suc n) + 1 .. e} = insert e {e - 1 - int n + 1 .. e - 1}" by auto
  then show ?thesis by (simp add: run_ends_def)
qed

text \<open>The invariant of the first loop: the current run is the whole run that ends at the
  day just passed, and no run that ends at or before it is longer than \<open>longest\<close>.\<close>

definition loop_inv :: "int set \<Rightarrow> int \<Rightarrow> nat \<Rightarrow> nat \<Rightarrow> bool" where
  "loop_inv D a run longest \<longleftrightarrow>
     1 \<le> run \<and> run_ends D run a \<and> a - int run \<notin> D
     \<and> (\<forall>e \<le> a. \<forall>m. run_ends D m e \<longrightarrow> m \<le> longest)
     \<and> (\<exists>e \<in> D. run_ends D longest e)"

lemma run_bound: "a - int run \<notin> D \<Longrightarrow> run_ends D m a \<Longrightarrow> m \<le> run"
proof (rule ccontr)
  assume stop: "a - int run \<notin> D" "run_ends D m a" and more: "\<not> m \<le> run"
  from more have "a - int run \<in> {a - int m + 1 .. a}" by auto
  with stop show False unfolding run_ends_def by blast
qed

lemma loop_inv_next:
  assumes inv: "loop_inv D a run longest" and b: "b \<in> D" "a < b" "\<forall>d \<in> D. d \<le> a \<or> b \<le> d"
  shows "if b - a = 1
         then loop_inv D b (run + 1) (if run + 1 > longest then run + 1 else longest)
         else loop_inv D b 1 longest"
proof (cases "b - a = 1")
  case True
  then have a: "a = b - 1" by simp
  have run: "run_ends D (run + 1) b" using inv b a by (simp add: loop_inv_def run_ends_Suc)
  have "b - int (run + 1) = a - int run" using a by simp
  then have stop: "b - int (run + 1) \<notin> D" using inv by (simp only: loop_inv_def) blast
  let ?l = "if run + 1 > longest then run + 1 else longest"
  have "m \<le> ?l" if "e \<le> b" "run_ends D m e" for e m
  proof (cases "e = b")
    case True
    then show ?thesis using run_bound [OF stop] that by fastforce
  next
    case False
    then have "e \<le> a" using that a by simp
    then have "m \<le> longest" using that inv by (simp add: loop_inv_def)
    then show ?thesis by simp
  qed
  moreover have "\<exists>e \<in> D. run_ends D ?l e"
    using run b inv by (auto simp: loop_inv_def)
  ultimately show ?thesis using True run stop by (simp add: loop_inv_def)
next
  case False
  then have gap: "b - 1 \<notin> D" using b by force
  have "m \<le> longest" if e: "e \<le> b" "run_ends D m e" for e m
  proof -
    have old: "e' \<le> a \<Longrightarrow> run_ends D m' e' \<Longrightarrow> m' \<le> longest" for e' m'
      using inv by (simp add: loop_inv_def)
    have one: "1 \<le> longest" using inv old [of a run] by (force simp: loop_inv_def)
    consider "m = 0" | "e = b" | "0 < m" "e < b" using e by linarith
    then show ?thesis
    proof cases
      case 2
      then have "m \<le> 1" using e gap run_bound [of b 1 D m] by simp
      then show ?thesis using one by simp
    next
      case 3
      then have "e \<in> D" using e by (force simp: run_ends_def)
      then have "e \<le> a" using 3 b by force
      then show ?thesis using old e by blast
    qed simp
  qed
  then show ?thesis using False inv b gap by (simp add: loop_inv_def)
qed

lemma longest_loop_spec:
  assumes "sorted_wrt (<) (a # r)" "set (a # r) = D \<inter> {a..}" "loop_inv D a run longest"
  shows "\<exists>b \<in> D. \<exists>k. (\<forall>d \<in> D. d \<le> b) \<and> loop_inv D b k (longest_loop (a # r) run longest)"
  using assms
proof (induction r arbitrary: a run longest)
  case Nil
  then have top: "\<forall>d \<in> D. d \<le> a" and "a \<in> D" by force+
  then show ?case using Nil.prems(3) by auto
next
  case (Cons b r)
  have b: "b \<in> D" "a < b" using Cons.prems by auto
  have above: "\<forall>x \<in> set r. b < x" and "a \<notin> set (b # r)" using Cons.prems(1) by auto
  then have rest: "set (b # r) = D \<inter> {a..} - {a}" using Cons.prems(2) by auto
  have tail: "set (b # r) = D \<inter> {b..}"
  proof
    show "set (b # r) \<subseteq> D \<inter> {b..}"
    proof
      fix x assume x: "x \<in> set (b # r)"
      then have "b \<le> x" using above by auto
      with x rest show "x \<in> D \<inter> {b..}" by blast
    qed
    show "D \<inter> {b..} \<subseteq> set (b # r)" unfolding rest using b(2) by auto
  qed
  have gap: "\<forall>d \<in> D. d \<le> a \<or> b \<le> d"
  proof
    fix d assume "d \<in> D"
    show "d \<le> a \<or> b \<le> d"
    proof (cases "d \<le> a")
      case False
      then have "d \<in> set (a # b # r)" using \<open>d \<in> D\<close> Cons.prems(2) by auto
      with False Cons.prems(1) show ?thesis by auto
    qed simp
  qed
  have step: "if b - a = 1
         then loop_inv D b (run + 1) (if run + 1 > longest then run + 1 else longest)
         else loop_inv D b 1 longest"
    by (rule loop_inv_next [OF Cons.prems(3) b gap])
  have sorted: "sorted_wrt (<) (b # r)" using Cons.prems(1) by simp
  show ?case
  proof (cases "b - a = 1")
    case True
    with step Cons.IH [OF sorted tail] show ?thesis by simp
  next
    case False
    with step Cons.IH [OF sorted tail] show ?thesis by simp
  qed
qed

lemma current_loop_spec:
  assumes "sorted_wrt (>) (b # r)" "set (b # r) = D \<inter> {..b}"
    and "run_ends D k e" "b = e - int k + 1"
  shows "run_ends D (current_loop (b # r) k) e \<and> e - int (current_loop (b # r) k) \<notin> D"
  using assms
proof (induction r arbitrary: b k)
  case Nil
  then have "b - 1 \<notin> D" by force
  with Nil show ?case by simp
next
  case (Cons a r)
  have a: "a \<in> D" "a < b" using Cons.prems by auto
  have below: "\<forall>x \<in> set r. x < a" and "b \<notin> set (a # r)" using Cons.prems(1) by auto
  then have rest: "set (a # r) = D \<inter> {..b} - {b}" using Cons.prems(2) by auto
  have tail: "set (a # r) = D \<inter> {..a}"
  proof
    show "set (a # r) \<subseteq> D \<inter> {..a}"
    proof
      fix x assume x: "x \<in> set (a # r)"
      then have "x \<le> a" using below by auto
      with x rest show "x \<in> D \<inter> {..a}" by blast
    qed
    show "D \<inter> {..a} \<subseteq> set (a # r)" unfolding rest using a(2) by auto
  qed
  have sorted: "sorted_wrt (>) (a # r)" using Cons.prems(1) by simp
  show ?case
  proof (cases "b - a = 1")
    case True
    have "{e - int (k + 1) + 1 .. e} = insert a {e - int k + 1 .. e}"
      using True Cons.prems(4) by auto
    then have "run_ends D (k + 1) e"
      using Cons.prems(3) a by (simp only: run_ends_def) simp
    moreover have "a = e - int (k + 1) + 1" using True Cons.prems(4) by simp
    ultimately show ?thesis using True Cons.IH [OF sorted tail] by simp
  next
    case False
    have "b - 1 \<notin> set (a # r)" using below False a by force
    then have "b - 1 \<notin> D" unfolding rest by simp
    with False Cons.prems show ?thesis by simp
  qed
qed

lemma active_days_set: "set (active_days activity) = set (List.map_filter active_day activity)"
  by (simp add: active_days_def)

lemma strict_remdups_adj: "sorted xs \<Longrightarrow> sorted_wrt (<) (remdups_adj xs)"
  for xs :: "int list"
proof (induction xs rule: remdups_adj.induct)
  case (3 x y xs)
  then show ?case by (cases "x = y") (auto simp: less_le dest: order_trans)
qed auto

lemma active_days_sorted: "sorted_wrt (<) (active_days activity)"
  by (simp add: active_days_def strict_remdups_adj)

text \<open>
  C38: the streaks a profile shows are the ones its days have. The longest streak is the
  length of a run of consecutive active days and no run is longer; the current streak is
  the whole run that ends on the last active day, or nothing once that day is more than
  one day ago. Only days with more than 30 seconds count.
\<close>

theorem compute_streaks_spec:
  fixes activity :: activity and today :: int
  defines "D \<equiv> set (List.map_filter active_day activity)"
  shows "case compute_streaks activity today of (current, longest) \<Rightarrow>
     (if D = {} then current = 0 \<and> longest = 0
      else (\<exists>e \<in> D. run_ends D longest e) \<and> (\<forall>e. \<not> run_ends D (longest + 1) e)
        \<and> (if today - Max D \<le> 1
           then run_ends D current (Max D) \<and> \<not> run_ends D (current + 1) (Max D)
           else current = 0))"
proof (cases "active_days activity")
  case Nil
  then have "D = {}" unfolding D_def by (simp flip: active_days_set)
  with Nil show ?thesis by (simp add: compute_streaks_def)
next
  case (Cons a r)
  have sorted: "sorted_wrt (<) (a # r)" and set: "set (a # r) = D"
    using active_days_sorted [of activity] active_days_set [of activity] Cons
    by (simp_all add: D_def)
  then have least: "\<forall>d \<in> D. a \<le> d" and "D \<noteq> {}" by auto
  obtain z q where z: "rev (a # r) = z # q" by (metis list.exhaust rev_is_Nil_conv list.discI)
  then have last: "List.last (a # r) = z" by (metis hd_rev list.sel(1))
  have desc: "sorted_wrt (>) (z # q)"
    using sorted unfolding z [symmetric] sorted_wrt_rev by simp
  have zset: "set (z # q) = D" using set z by (metis set_rev)
  then have top: "\<forall>d \<in> D. d \<le> z" and "z \<in> D" using desc by auto
  then have max: "Max D = z" by (intro Max_eqI) (auto simp flip: set)
  have first: "loop_inv D a 1 1"
  proof -
    have "a \<in> D" "a - 1 \<notin> D" using least set by force+
    moreover have "m \<le> 1" if "e \<le> a" "run_ends D m e" for e m
    proof (cases "m = 0")
      case False
      then have "e \<in> D" using that by (force simp: run_ends_def)
      then have "e = a" using that least by force
      then show ?thesis using that \<open>a - 1 \<notin> D\<close> run_bound [of a 1 D m] by simp
    qed simp
    ultimately show ?thesis by (auto simp: loop_inv_def)
  qed
  have aset: "set (a # r) = D \<inter> {a..}" using set least by auto
  from longest_loop_spec [OF sorted aset first] obtain b k where
    b: "b \<in> D" "\<forall>d \<in> D. d \<le> b" and fin: "loop_inv D b k (longest_loop (a # r) 1 1)"
    by blast
  have no_longer: "m \<le> longest_loop (a # r) 1 1" if "run_ends D m e" for m e
  proof (cases "m = 0")
    case False
    then have "e \<in> D" using that by (force simp: run_ends_def)
    with b have "e \<le> b" by blast
    with that fin show ?thesis unfolding loop_inv_def by blast
  qed simp
  have zz: "set (z # q) = D \<inter> {..z}" using zset top by auto
  have cur: "run_ends D (current_loop (z # q) 1) z \<and> z - int (current_loop (z # q) 1) \<notin> D"
    using current_loop_spec [OF desc zz, of 1 z] \<open>z \<in> D\<close> by simp
  have whole: "\<not> run_ends D (current_loop (z # q) 1 + 1) z"
    using cur run_bound [of z "current_loop (z # q) 1" D "current_loop (z # q) 1 + 1"] by force
  have res: "compute_streaks activity today =
      ((if today - z \<le> 1 then current_loop (z # q) 1 else 0), longest_loop (a # r) 1 1)"
    unfolding compute_streaks_def Cons Let_def last z by simp
  have "\<exists>e \<in> D. run_ends D (longest_loop (a # r) 1 1) e" using fin by (simp add: loop_inv_def)
  moreover have "\<not> run_ends D (longest_loop (a # r) 1 1 + 1) e" for e
    using no_longer by force
  ultimately show ?thesis
    unfolding res using \<open>D \<noteq> {}\<close> max cur whole by simp
qed

end
