(* ===== verification/Throttle.thy ===== *)
theory Throttle
  imports Accounts Addresses Table "HOL-Library.Multiset"
begin

text \<open>
  The sign-in throttle (\<open>auth.rs\<close>): the counters of failed attempts kept per
  (address, name), per network and per name, the admission of an attempt before its password
  is checked, the eviction that keeps the table small, and the refund of a charge after a
  success. Addresses are printed as the standard library prints them, since the keys of the
  table are texts that the code takes apart again.

  A history is a list of events in the order in which they take the lock of the table: an
  attempt at a time, or the success of an attempt admitted earlier. The theorems bound the
  guesses a network can make whatever else happens on the server, show that nobody else's
  failures lift a refusal, and bound the table.
\<close>

unbundle bit_operations_syntax

section \<open>Counters and their keys\<close>

definition LOGIN_MAX_FAILURES :: u32 where "LOGIN_MAX_FAILURES = 5"
definition LOGIN_IP_MAX_FAILURES :: u32 where "LOGIN_IP_MAX_FAILURES = 25"
definition LOGIN_ACCOUNT_MAX_FAILURES :: u32 where "LOGIN_ACCOUNT_MAX_FAILURES = 50"
definition LOGIN_LOCKOUT_SECONDS :: u64 where "LOGIN_LOCKOUT_SECONDS = 60"
definition LOGIN_THROTTLE_KEY_MAX_CHARS :: nat where "LOGIN_THROTTLE_KEY_MAX_CHARS = 64"
definition LOGIN_THROTTLE_MAX_ENTRIES :: nat where "LOGIN_THROTTLE_MAX_ENTRIES = 10000"
definition LOGIN_THROTTLE_LOCKED_MAX_ENTRIES :: nat where "LOGIN_THROTTLE_LOCKED_MAX_ENTRIES = 50000"

lemmas throttle_limits = LOGIN_MAX_FAILURES_def LOGIN_IP_MAX_FAILURES_def
  LOGIN_ACCOUNT_MAX_FAILURES_def LOGIN_LOCKOUT_SECONDS_def

record login_throttle =
  lt_failures :: u32
  lt_last_failure :: u64
  lt_run :: u64

definition is_locked :: "login_throttle \<Rightarrow> u64 \<Rightarrow> u32 \<Rightarrow> bool" where
  "is_locked t now max_failures \<longleftrightarrow>
     max_failures \<le> lt_failures t \<and> sat_sub now (lt_last_failure t) < LOGIN_LOCKOUT_SECONDS"

definition is_stale :: "login_throttle \<Rightarrow> u64 \<Rightarrow> bool" where
  "is_stale t now \<longleftrightarrow> LOGIN_LOCKOUT_SECONDS \<le> sat_sub now (lt_last_failure t)"

type_synonym attempts = "(ustr, login_throttle) table"

definition login_throttle_key :: "unicode \<Rightarrow> ustr \<Rightarrow> ustr" where
  "login_throttle_key u username =
     cps ''user:'' @ take LOGIN_THROTTLE_KEY_MAX_CHARS (to_lowercase u username)"

definition login_account_throttle_key :: "unicode \<Rightarrow> ip_addr \<Rightarrow> ustr \<Rightarrow> ustr" where
  "login_account_throttle_key u client_ip username =
     cps (''ip:'' @ show_ip (to_canonical client_ip)) @ cps '':'' @ login_throttle_key u username"

definition login_throttle_network :: "ip_addr \<Rightarrow> string" where
  "login_throttle_network client_ip =
     (case to_canonical client_ip of
        V6 address \<Rightarrow>
          if segment address 0 AND 0xe000 = 0x2000
          then show_v6 (address AND NOT 0xffffffffffffffff) @ ''/64''
          else show_v6 address
      | V4 address \<Rightarrow> show_v4 address)"

definition login_ip_throttle_key :: "ip_addr \<Rightarrow> ustr" where
  "login_ip_throttle_key client_ip = cps (''ip:'' @ login_throttle_network client_ip)"

record throttle_keys =
  tk_account :: ustr
  tk_ip :: ustr
  tk_username :: ustr

definition throttle_keys_new :: "unicode \<Rightarrow> ip_addr \<Rightarrow> ustr \<Rightarrow> throttle_keys" where
  "throttle_keys_new u client_ip username =
     \<lparr>tk_account = login_account_throttle_key u client_ip username,
      tk_ip = login_ip_throttle_key client_ip,
      tk_username = login_throttle_key u username\<rparr>"

definition all_keys :: "throttle_keys \<Rightarrow> ustr list" where
  "all_keys k = [tk_account k, tk_ip k, tk_username k]"

definition over :: "attempts \<Rightarrow> u64 \<Rightarrow> ustr \<Rightarrow> u32 \<Rightarrow> bool" where
  "over m now key max_failures \<longleftrightarrow>
     (case tget m key of None \<Rightarrow> False | Some t \<Rightarrow> is_locked t now max_failures)"

definition failed_here :: "attempts \<Rightarrow> u64 \<Rightarrow> ustr \<Rightarrow> bool" where
  "failed_here m now key \<longleftrightarrow> (case tget m key of None \<Rightarrow> False | Some t \<Rightarrow> \<not> is_stale t now)"

definition keys_locked :: "throttle_keys \<Rightarrow> attempts \<Rightarrow> u64 \<Rightarrow> bool" where
  "keys_locked k m now \<longleftrightarrow>
     over m now (tk_account k) LOGIN_MAX_FAILURES
     \<or> over m now (tk_ip k) LOGIN_IP_MAX_FAILURES
     \<or> (failed_here m now (tk_account k) \<and> over m now (tk_username k) LOGIN_ACCOUNT_MAX_FAILURES)"

section \<open>Eviction\<close>

definition login_throttle_holds_lock ::
  "attempts \<Rightarrow> ustr \<Rightarrow> login_throttle \<Rightarrow> u64 \<Rightarrow> bool" where
  "login_throttle_holds_lock m key t now =
     (if take 5 key = cps ''user:'' then is_locked t now LOGIN_ACCOUNT_MAX_FAILURES
      else case find_sub (cps '':user:'') key of
        None \<Rightarrow> \<not> is_stale t now
      | Some username_at \<Rightarrow>
          is_locked t now LOGIN_MAX_FAILURES
          \<or> (\<not> is_stale t now
              \<and> over m now (drop (username_at + 1) key) LOGIN_ACCOUNT_MAX_FAILURES))"

text \<open>The order of \<open>min_by_key\<close>: stale entries first, then few failures, then old ones.\<close>

definition weaker :: "u64 \<Rightarrow> login_throttle \<Rightarrow> login_throttle \<Rightarrow> bool" where
  "weaker now a b \<longleftrightarrow>
     (is_stale a now \<and> \<not> is_stale b now)
     \<or> (is_stale a now = is_stale b now
         \<and> (lt_failures a < lt_failures b
             \<or> (lt_failures a = lt_failures b \<and> lt_last_failure a < lt_last_failure b)))"

fun min_entry :: "('a \<Rightarrow> 'a \<Rightarrow> bool) \<Rightarrow> 'a list \<Rightarrow> 'a option" where
  "min_entry lt [] = None"
| "min_entry lt (x # xs) = Some (foldl (\<lambda>best y. if lt y best then y else best) x xs)"

definition evict_weakest :: "attempts \<Rightarrow> ustr list \<Rightarrow> u64 \<Rightarrow> attempts option" where
  "evict_weakest m keep now =
     map_option (\<lambda>e. tremove (fst e) m)
       (min_entry (\<lambda>a b. weaker now (snd a) (snd b))
         (filter (\<lambda>e. fst e \<notin> set keep \<and> \<not> login_throttle_holds_lock m (fst e) (snd e) now) m))"

fun make_room :: "nat \<Rightarrow> nat \<Rightarrow> ustr list \<Rightarrow> u64 \<Rightarrow> attempts \<Rightarrow> attempts" where
  "make_room 0 missing keep now m = m"
| "make_room (Suc n) missing keep now m =
     (if length m + missing \<le> LOGIN_THROTTLE_MAX_ENTRIES then m
      else case evict_weakest m keep now of
        None \<Rightarrow> m
      | Some m' \<Rightarrow> make_room n missing keep now m')"

section \<open>Charging and refunding\<close>

record throttle =
  th_attempts :: attempts
  th_next_run :: u64

definition fresh_entry :: login_throttle where
  "fresh_entry = \<lparr>lt_failures = 0, lt_last_failure = 0, lt_run = 0\<rparr>"

definition entry_of :: "attempts \<Rightarrow> ustr \<Rightarrow> login_throttle" where
  "entry_of m key = (case tget m key of None \<Rightarrow> fresh_entry | Some t \<Rightarrow> t)"

definition restarts :: "attempts \<Rightarrow> ustr \<Rightarrow> u64 \<Rightarrow> bool" where
  "restarts m key now \<longleftrightarrow> lt_failures (entry_of m key) = 0 \<or> is_stale (entry_of m key) now"

definition charge_key :: "u64 \<Rightarrow> ustr \<Rightarrow> throttle \<Rightarrow> throttle" where
  "charge_key now key s =
     (if restarts (th_attempts s) key now
      then \<lparr>th_attempts = tinsert key \<lparr>lt_failures = 1, lt_last_failure = now,
                                       lt_run = th_next_run s\<rparr> (th_attempts s),
            th_next_run = th_next_run s + 1\<rparr>
      else s\<lparr>th_attempts := tinsert key
               \<lparr>lt_failures = lt_failures (entry_of (th_attempts s) key) + 1,
                lt_last_failure = now, lt_run = lt_run (entry_of (th_attempts s) key)\<rparr>
               (th_attempts s)\<rparr>)"

definition record_login_failures_in :: "throttle \<Rightarrow> ustr list \<Rightarrow> u64 \<Rightarrow> throttle \<times> bool" where
  "record_login_failures_in s keys now =
     (let missing = length (filter (\<lambda>k. tget (th_attempts s) k = None) keys);
          m = make_room missing missing keys now (th_attempts s)
      in if length m + missing > LOGIN_THROTTLE_LOCKED_MAX_ENTRIES
         then (s\<lparr>th_attempts := m\<rparr>, False)
         else (fold (charge_key now) keys (s\<lparr>th_attempts := m\<rparr>), True))"

definition charged_runs :: "attempts \<Rightarrow> ustr list \<Rightarrow> (ustr \<times> u64) list" where
  "charged_runs m keys =
     map (\<lambda>k. (k, case tget m k of None \<Rightarrow> 0 | Some t \<Rightarrow> lt_run t)) keys"

definition refund_key :: "ustr \<times> u64 \<Rightarrow> attempts \<Rightarrow> attempts" where
  "refund_key c m =
     tmodify (fst c)
       (\<lambda>t. if lt_run t = snd c
            then t\<lparr>lt_failures := (if lt_failures t = 0 then 0 else lt_failures t - 1)\<rparr> else t) m"

definition refund_login_charge :: "attempts \<Rightarrow> (ustr \<times> u64) list \<Rightarrow> attempts" where
  "refund_login_charge m charged = fold refund_key charged m"

section \<open>Signing in\<close>

text \<open>
  \<open>authenticate_and_open_session\<close> takes the lock twice, and other requests run in
  between. The ticket is what the first half leaves for the second.
\<close>

record ticket =
  ti_keys :: throttle_keys
  ti_charged :: "(ustr \<times> u64) list"

definition sign_in_admit ::
  "unicode \<Rightarrow> ip_addr \<Rightarrow> ustr \<Rightarrow> u64 \<Rightarrow> throttle \<Rightarrow> throttle \<times> ticket result" where
  "sign_in_admit u client_ip username now s =
     (let keys = throttle_keys_new u client_ip username;
          kept = s\<lparr>th_attempts := tretain (\<lambda>k t. \<not> is_stale t now) (th_attempts s)\<rparr>
      in if keys_locked keys (th_attempts kept) now
         then (kept, Inl (too_many_requests
                ''Too many failed sign-in attempts. Try again in a minute.''))
         else case record_login_failures_in kept (all_keys keys) now of
           (s', False) \<Rightarrow> (s', Inl (too_many_requests
                ''Too many sign-in attempts. Try again in a minute.''))
         | (s', True) \<Rightarrow>
             (s', Inr \<lparr>ti_keys = keys,
                       ti_charged = charged_runs (th_attempts s') [tk_ip keys, tk_username keys]\<rparr>))"

text \<open>The password work; \<open>verify\<close> runs in a bounded pool and may fail.\<close>

definition sign_in_verify ::
  "(ustr \<Rightarrow> string option \<Rightarrow> bool result) \<Rightarrow> users_store \<Rightarrow> ustr \<Rightarrow> ustr \<Rightarrow> user result" where
  "sign_in_verify verify store username password =
     (if MAX_PASSWORD_CHARS < length password
      then bind (verify (cps ''oversized-password'') None) (\<lambda>_.
             Inl (unauthorized ''Invalid username or password.''))
      else case List.find (\<lambda>x. same_name (u_username x) username) (users store) of
        None \<Rightarrow> bind (verify password None) (\<lambda>_.
             Inl (unauthorized ''Invalid username or password.''))
      | Some user \<Rightarrow>
          bind (verify password (Some (u_password_hash user))) (\<lambda>matches.
            if \<not> matches then Inl (unauthorized ''Invalid username or password.'')
            else Inr user))"

definition sign_in_succeed :: "ticket \<Rightarrow> throttle \<Rightarrow> throttle" where
  "sign_in_succeed t s =
     s\<lparr>th_attempts :=
         refund_login_charge (tremove (tk_account (ti_keys t)) (th_attempts s)) (ti_charged t)\<rparr>"

section \<open>The shape of the keys\<close>

lemma cp_inj: "cp a = cp b \<longleftrightarrow> a = b"
proof
  assume "cp a = cp b"
  then have "unat (cp a) = unat (cp b)" by simp
  moreover have "unat (cp c) = of_char c" for c
  proof -
    have "of_char c < (256 :: nat)" by simp
    then have "of_char c mod 4294967296 = (of_char c :: nat)" by (intro mod_less) linarith
    then show ?thesis by (simp add: cp_def unat_of_nat)
  qed
  ultimately have "of_char a = (of_char b :: nat)" by simp
  then show "a = b" by simp
qed simp

definition no_u :: "string \<Rightarrow> bool" where
  "no_u s \<longleftrightarrow> CHR ''u'' \<notin> set s"

lemma no_u_append [simp]: "no_u (a @ b) \<longleftrightarrow> no_u a \<and> no_u b"
  by (auto simp: no_u_def)

lemma no_u_join: "no_u sep \<Longrightarrow> \<forall>x \<in> set xs. no_u x \<Longrightarrow> no_u (join sep xs)"
  by (induction sep xs rule: join.induct) (auto simp: no_u_def)

lemma no_u_dec: "no_u (dec n)"
proof -
  have "\<not> is_ascii_digit CHR ''u''" by code_simp
  then show ?thesis using dec_digits [of n] by (auto simp: no_u_def list_all_iff)
qed

lemma hex_lower_no_u: "n < 16 \<Longrightarrow> hex_lower n \<noteq> CHR ''u''"
proof -
  have "\<forall>n \<in> set [0..<16]. hex_lower n \<noteq> CHR ''u''" by code_simp
  then show "n < 16 \<Longrightarrow> ?thesis" by simp
qed

lemma no_u_hex: "no_u (hex w)"
proof -
  have "w AND 15 < 16" for w :: u16
    using and_mask_less' [of 4 w] by (simp add: mask_eq_exp_minus_1)
  then have "unat (w AND 15) < 16" for w :: u16 by (simp add: word_less_nat_alt)
  then have "CHR ''u'' \<notin> set (hex_digits w)"
    using hex_lower_no_u by (fastforce simp: hex_digits_def)
  then show ?thesis by (auto simp: hex_def no_u_def dest: set_dropWhileD)
qed

lemma no_u_simps [simp]: "no_u []" "no_u (c # s) \<longleftrightarrow> c \<noteq> CHR ''u'' \<and> no_u s"
  by (auto simp: no_u_def)

lemma no_u_v4: "no_u (show_v4 a)"
  unfolding show_v4_def by (rule no_u_join) (auto simp: no_u_dec)

lemma no_u_segments: "no_u (show_segments ss)"
  unfolding show_segments_def by (rule no_u_join) (auto simp: no_u_hex)

lemma no_u_v6: "no_u (show_v6 a)"
  by (auto simp: show_v6_def no_u_v4 no_u_segments split: option.splits prod.splits)

lemma no_u_ip: "no_u (show_ip a)"
  by (cases a) (simp_all add: no_u_v4 no_u_v6)

lemma no_u_network: "no_u (login_throttle_network a)"
  by (auto simp: login_throttle_network_def no_u_v4 no_u_v6 split: ip_addr.splits)

lemma no_u_cps: "no_u s \<Longrightarrow> cp CHR ''u'' \<notin> set (cps s)"
  by (auto simp: no_u_def cps_def cp_inj)

lemma find_sub_subset: "find_sub p s = Some i \<Longrightarrow> set p \<subseteq> set s"
proof (induction s arbitrary: i)
  case (Cons x xs)
  show ?case
  proof (cases "take (length p) (x # xs) = p")
    case True
    then show ?thesis using set_take_subset [of "length p" "x # xs"] by simp
  qed (use Cons in auto)
qed (auto split: if_splits)

lemma cps_user_mark: "cps '':user:'' = [58, 117, 115, 101, 114, 58]"
  by code_simp

lemma cps_user: "cps ''user:'' = [117, 115, 101, 114, 58]"
  by code_simp

lemma cps_ip: "cps (''ip:'' @ r) = 105 # 112 # 58 # cps r"
proof -
  have "cps ''ip:'' = [105, 112, 58]" by code_simp
  then show ?thesis by (simp add: cps_def)
qed

lemma cp_u: "cp CHR ''u'' = 117"
  by code_simp

lemma cps_colon: "cps '':'' = [58]"
  by code_simp

lemma find_sub_first:
  "117 \<notin> set a \<Longrightarrow> find_sub [58, 117, 115, 101, 114, 58] (a @ [58, 117, 115, 101, 114, 58] @ r)
     = Some (length a)"
  (is "_ \<Longrightarrow> find_sub ?p _ = _")
proof (induction a)
  case (Cons x a)
  have "take (length ?p) (x # a @ ?p @ r) \<noteq> ?p"
    using Cons.prems by (cases a) auto
  then show ?case using Cons by simp
qed simp

definition ip_shaped :: "ustr \<Rightarrow> bool" where
  "ip_shaped k \<longleftrightarrow> 117 \<notin> set k"

lemma ip_key_shaped: "ip_shaped (login_ip_throttle_key a)"
  using no_u_cps [of "''ip:'' @ login_throttle_network a"] no_u_network [of a]
  by (simp add: ip_shaped_def login_ip_throttle_key_def cp_u no_u_def)

lemma other_keys_not_ip_shaped:
  "\<not> ip_shaped (login_throttle_key u n)" "\<not> ip_shaped (login_account_throttle_key u a n)"
  by (simp_all add: ip_shaped_def login_account_throttle_key_def login_throttle_key_def cps_user)

lemma holds_lock_ip: "ip_shaped k \<Longrightarrow> login_throttle_holds_lock m k t now \<longleftrightarrow> \<not> is_stale t now"
proof -
  assume k: "ip_shaped k"
  have "find_sub (cps '':user:'') k = None"
    using find_sub_subset [of "cps '':user:''" k] k by (cases "find_sub (cps '':user:'') k")
      (auto simp: ip_shaped_def cps_user_mark)
  moreover have "take 5 k \<noteq> cps ''user:''"
    using k set_take_subset [of 5 k] by (auto simp: ip_shaped_def cps_user)
  ultimately show ?thesis by (simp add: login_throttle_holds_lock_def)
qed

lemma holds_lock_user:
  "login_throttle_holds_lock m (login_throttle_key u n) t now
     \<longleftrightarrow> is_locked t now LOGIN_ACCOUNT_MAX_FAILURES"
  by (simp add: login_throttle_holds_lock_def login_throttle_key_def cps_user)

lemma holds_lock_account:
  "login_throttle_holds_lock m (login_account_throttle_key u a n) t now
     \<longleftrightarrow> is_locked t now LOGIN_MAX_FAILURES
       \<or> (\<not> is_stale t now \<and> over m now (login_throttle_key u n) LOGIN_ACCOUNT_MAX_FAILURES)"
proof -
  let ?ip = "cps (''ip:'' @ show_ip (to_canonical a))"
  have key: "login_account_throttle_key u a n
      = ?ip @ [58, 117, 115, 101, 114, 58]
        @ take LOGIN_THROTTLE_KEY_MAX_CHARS (to_lowercase u n)"
    by (simp add: login_account_throttle_key_def login_throttle_key_def cps_user cps_colon)
  have "117 \<notin> set ?ip"
    using no_u_cps [of "''ip:'' @ show_ip (to_canonical a)"] no_u_ip [of "to_canonical a"]
    by (simp add: cp_u no_u_def)
  then have found: "find_sub (cps '':user:'') (login_account_throttle_key u a n) = Some (length ?ip)"
    unfolding key cps_user_mark by (rule find_sub_first)
  have "drop (length ?ip + 1) (login_account_throttle_key u a n) = login_throttle_key u n"
    unfolding key by (simp add: login_throttle_key_def cps_user)
  moreover have "take 5 (login_account_throttle_key u a n) \<noteq> cps ''user:''"
    unfolding key cps_ip cps_user by simp
  ultimately show ?thesis using found by (simp add: login_throttle_holds_lock_def)
qed

section \<open>Evicting and charging\<close>

lemma min_entry_in: "min_entry lt xs = Some x \<Longrightarrow> x \<in> set xs"
proof -
  have "foldl (\<lambda>best y. if lt y best then y else best) x xs \<in> insert x (set xs)" for x and xs
    by (induction xs arbitrary: x) auto
  then show "min_entry lt xs = Some x \<Longrightarrow> ?thesis" by (cases xs) auto
qed

lemma evict_weakest_cases:
  assumes "evict_weakest m keep now = Some m'" "tvalid m"
  obtains j t where "m' = tremove j m" "j \<notin> set keep" "tget m j = Some t"
    "\<not> login_throttle_holds_lock m j t now"
proof -
  from assms(1) obtain e where "m' = tremove (fst e) m"
    "min_entry (\<lambda>a b. weaker now (snd a) (snd b))
       (filter (\<lambda>e. fst e \<notin> set keep \<and> \<not> login_throttle_holds_lock m (fst e) (snd e) now) m) = Some e"
    unfolding evict_weakest_def map_option_eq_Some by blast
  then have e: "m' = tremove (fst e) m"
    "e \<in> set (filter (\<lambda>e. fst e \<notin> set keep \<and> \<not> login_throttle_holds_lock m (fst e) (snd e) now) m)"
    by (simp_all only: min_entry_in)
  then have "tget m (fst e) = Some (snd e)" using in_tget [OF assms(2), of "fst e" "snd e"] by simp
  with e show ?thesis using that by auto
qed

text \<open>A property of tables that no eviction destroys survives making room.\<close>

lemma make_room_induct:
  assumes "P m" "tvalid m"
    and "\<And>m j t. P m \<Longrightarrow> tvalid m \<Longrightarrow> j \<notin> set keep \<Longrightarrow> tget m j = Some t \<Longrightarrow>
           \<not> login_throttle_holds_lock m j t now \<Longrightarrow> P (tremove j m)"
  shows "P (make_room n missing keep now m) \<and> tvalid (make_room n missing keep now m)"
  using assms(1,2)
proof (induction n arbitrary: m)
  case (Suc n)
  show ?case
  proof (cases "evict_weakest m keep now")
    case (Some m')
    from evict_weakest_cases [OF Some Suc.prems(2)] obtain j t where
      j: "m' = tremove j m" "j \<notin> set keep" "tget m j = Some t"
      "\<not> login_throttle_holds_lock m j t now" .
    from Suc.IH [of m'] assms(3) [OF Suc.prems j(2-4)] Suc.prems j(1)
    show ?thesis by (simp add: Some tbl.valid_remove)
  qed (simp add: Suc.prems)
qed simp

lemma valid_make_room: "tvalid m \<Longrightarrow> tvalid (make_room n missing keep now m)"
  using make_room_induct [of "\<lambda>_. True"] by blast

lemma make_room_keeps:
  assumes "tvalid m" "k \<in> set keep"
  shows "tget (make_room n missing keep now m) k = tget m k"
proof -
  have "tget (make_room n missing keep now m) k = tget m k
      \<and> tvalid (make_room n missing keep now m)"
    by (rule make_room_induct [of "\<lambda>m'. tget m' k = tget m k"])
      (use assms in \<open>auto simp: tbl.lookup_remove\<close>)
  then show ?thesis ..
qed

lemma make_room_some:
  assumes "tvalid m" "tget (make_room n missing keep now m) k = Some t"
  shows "tget m k = Some t"
proof -
  let ?P = "\<lambda>m'. \<forall>t. tget m' k = Some t \<longrightarrow> tget m k = Some t"
  have "?P (make_room n missing keep now m) \<and> tvalid (make_room n missing keep now m)"
    by (rule make_room_induct [of ?P]) (use assms(1) in \<open>auto simp: tbl.lookup_remove split: if_splits\<close>)
  then show ?thesis using assms(2) by blast
qed

lemma make_room_network:
  assumes "tvalid m" "ip_shaped k" "\<And>t. tget m k = Some t \<Longrightarrow> \<not> is_stale t now"
  shows "tget (make_room n missing keep now m) k = tget m k"
proof -
  have "tget (make_room n missing keep now m) k = tget m k
      \<and> tvalid (make_room n missing keep now m)"
    by (rule make_room_induct [of "\<lambda>m'. tget m' k = tget m k"])
      (use assms in \<open>auto simp: tbl.lookup_remove holds_lock_ip\<close>)
  then show ?thesis ..
qed

lemma length_make_room: "length (make_room n missing keep now m) \<le> length m"
proof (induction n arbitrary: m)
  case (Suc n)
  have "length m' \<le> length m" if "evict_weakest m keep now = Some m'" for m'
    using that by (auto simp: evict_weakest_def tremove_def length_delete_le)
  with Suc show ?case by (auto split: option.splits intro: order_trans)
qed simp

definition charged_entry :: "u64 \<Rightarrow> u64 \<Rightarrow> attempts \<Rightarrow> ustr \<Rightarrow> login_throttle" where
  "charged_entry now next m k =
     (if restarts m k now then \<lparr>lt_failures = 1, lt_last_failure = now, lt_run = next\<rparr>
      else \<lparr>lt_failures = lt_failures (entry_of m k) + 1, lt_last_failure = now,
            lt_run = lt_run (entry_of m k)\<rparr>)"

lemma charge_key_attempts:
  "th_attempts (charge_key now k s) = tinsert k (charged_entry now (th_next_run s) (th_attempts s) k) (th_attempts s)"
  by (simp add: charge_key_def charged_entry_def)

lemma charge_key_next:
  "th_next_run (charge_key now k s) = (if restarts (th_attempts s) k now then th_next_run s + 1 else th_next_run s)"
  by (simp add: charge_key_def)

lemma charge_key_other: "j \<noteq> k \<Longrightarrow> tget (th_attempts (charge_key now k s)) j = tget (th_attempts s) j"
  by (simp add: charge_key_attempts tbl.lookup_insert)

lemma charge_key_same:
  "tget (th_attempts (charge_key now k s)) k = Some (charged_entry now (th_next_run s) (th_attempts s) k)"
  by (simp add: charge_key_attempts tbl.lookup_insert)

lemma valid_charges: "tvalid (th_attempts s) \<Longrightarrow> tvalid (th_attempts (fold (charge_key now) ks s))"
  by (induction ks arbitrary: s) (simp_all add: charge_key_attempts tbl.valid_insert)

lemma charges_other: "j \<notin> set ks \<Longrightarrow> tget (th_attempts (fold (charge_key now) ks s)) j = tget (th_attempts s) j"
  by (induction ks arbitrary: s) (auto simp: charge_key_other)

lemma length_tinsert:
  "length (tinsert k v m) = (if tget m k = None then Suc (length m) else length m)"
  by (induction m) (auto simp: tinsert_def tget_def)

lemma length_charges:
  "length (th_attempts (fold (charge_key now) ks s))
     \<le> length (th_attempts s) + length (filter (\<lambda>k. tget (th_attempts s) k = None) ks)"
proof (induction ks arbitrary: s)
  case (Cons k ks)
  let ?missing = "\<lambda>m. length (filter (\<lambda>k. tget m k = None) ks)"
  have "?missing (th_attempts (charge_key now k s)) \<le> ?missing (th_attempts s)"
    by (induction ks) (auto simp: charge_key_attempts tbl.lookup_insert)
  with Cons [of "charge_key now k s"] show ?case
    by (auto simp: charge_key_attempts length_tinsert)
qed simp

lemma refund_key_lookup:
  "tget (refund_key c m) k =
     (if k = fst c then map_option (\<lambda>t. if lt_run t = snd c
        then t\<lparr>lt_failures := (if lt_failures t = 0 then 0 else lt_failures t - 1)\<rparr> else t) (tget m k)
      else tget m k)"
  by (simp add: refund_key_def tget_modify)

lemma valid_refund: "tvalid m \<Longrightarrow> tvalid (refund_login_charge m cs)"
  unfolding refund_login_charge_def
  by (induction cs arbitrary: m) (auto simp: refund_key_def intro: tvalid_modify)

lemma length_refund: "length (refund_login_charge m cs) = length m"
proof -
  have "length (refund_key c m) = length m" for c and m :: attempts
    by (simp add: refund_key_def tmodify_def length_tinsert split: option.splits)
  then show ?thesis unfolding refund_login_charge_def by (induction cs arbitrary: m) auto
qed

section \<open>What admission does to the table\<close>

definition kept_attempts :: "u64 \<Rightarrow> attempts \<Rightarrow> attempts" where
  "kept_attempts now m = tretain (\<lambda>k t. \<not> is_stale t now) m"

lemma kept_lookup:
  "tvalid m \<Longrightarrow> tget (kept_attempts now m) k =
     (case tget m k of None \<Rightarrow> None | Some t \<Rightarrow> if is_stale t now then None else Some t)"
  by (simp add: kept_attempts_def tget_retain split: option.splits)

lemma kept_not_stale: "tvalid m \<Longrightarrow> tget (kept_attempts now m) k = Some t \<Longrightarrow> \<not> is_stale t now"
  by (auto simp: kept_lookup split: option.splits if_splits)

lemma valid_kept: "tvalid m \<Longrightarrow> tvalid (kept_attempts now m)"
  by (simp add: kept_attempts_def tvalid_retain)

definition room_for :: "throttle_keys \<Rightarrow> u64 \<Rightarrow> attempts \<Rightarrow> attempts" where
  "room_for keys now m =
     make_room (length (filter (\<lambda>k. tget m k = None) (all_keys keys)))
       (length (filter (\<lambda>k. tget m k = None) (all_keys keys))) (all_keys keys) now m"

lemma length_room: "length (room_for keys now m) \<le> length m"
  by (simp add: room_for_def length_make_room)

lemma valid_room: "tvalid m \<Longrightarrow> tvalid (room_for keys now m)"
  by (simp add: room_for_def valid_make_room)

lemma sign_in_admit_cases:
  obtains (locked) "keys_locked (throttle_keys_new u ip n) (kept_attempts now (th_attempts s)) now"
      "fst (sign_in_admit u ip n now s) = s\<lparr>th_attempts := kept_attempts now (th_attempts s)\<rparr>"
      "\<exists>e. snd (sign_in_admit u ip n now s) = Inl e"
  | (full) "\<not> keys_locked (throttle_keys_new u ip n) (kept_attempts now (th_attempts s)) now"
      "fst (sign_in_admit u ip n now s)
        = s\<lparr>th_attempts := room_for (throttle_keys_new u ip n) now (kept_attempts now (th_attempts s))\<rparr>"
      "\<exists>e. snd (sign_in_admit u ip n now s) = Inl e"
  | (admitted) s' where
      "\<not> keys_locked (throttle_keys_new u ip n) (kept_attempts now (th_attempts s)) now"
      "length (room_for (throttle_keys_new u ip n) now (kept_attempts now (th_attempts s)))
         + length (filter (\<lambda>k. tget (kept_attempts now (th_attempts s)) k = None)
             (all_keys (throttle_keys_new u ip n))) \<le> LOGIN_THROTTLE_LOCKED_MAX_ENTRIES"
      "s' = fold (charge_key now) (all_keys (throttle_keys_new u ip n))
         (s\<lparr>th_attempts := room_for (throttle_keys_new u ip n) now (kept_attempts now (th_attempts s))\<rparr>)"
      "sign_in_admit u ip n now s =
         (s', Inr \<lparr>ti_keys = throttle_keys_new u ip n,
           ti_charged = charged_runs (th_attempts s')
             [tk_ip (throttle_keys_new u ip n), tk_username (throttle_keys_new u ip n)]\<rparr>)"
proof -
  let ?k = "throttle_keys_new u ip n" and ?m = "kept_attempts now (th_attempts s)"
  let ?missing = "length (filter (\<lambda>k. tget ?m k = None) (all_keys ?k))"
  show ?thesis
  proof (cases "keys_locked ?k ?m now")
    case True
    then show ?thesis using that(1) by (simp add: sign_in_admit_def kept_attempts_def)
  next
    case False
    have recorded: "record_login_failures_in (s\<lparr>th_attempts := ?m\<rparr>) (all_keys ?k) now =
       (if length (room_for ?k now ?m) + ?missing > LOGIN_THROTTLE_LOCKED_MAX_ENTRIES
        then (s\<lparr>th_attempts := room_for ?k now ?m\<rparr>, False)
        else (fold (charge_key now) (all_keys ?k) (s\<lparr>th_attempts := room_for ?k now ?m\<rparr>), True))"
      by (simp add: record_login_failures_in_def room_for_def Let_def)
    have admit: "sign_in_admit u ip n now s =
       (case record_login_failures_in (s\<lparr>th_attempts := ?m\<rparr>) (all_keys ?k) now of
           (s', False) \<Rightarrow> (s', Inl (too_many_requests
                ''Too many sign-in attempts. Try again in a minute.''))
         | (s', True) \<Rightarrow>
             (s', Inr \<lparr>ti_keys = ?k,
                       ti_charged = charged_runs (th_attempts s') [tk_ip ?k, tk_username ?k]\<rparr>))"
      using False by (simp add: sign_in_admit_def Let_def kept_attempts_def)
    show ?thesis
    proof (cases "length (room_for ?k now ?m) + ?missing > LOGIN_THROTTLE_LOCKED_MAX_ENTRIES")
      case True
      then show ?thesis using that(2) False admit recorded by simp
    next
      case fits: False
      then show ?thesis using that(3) [OF False] admit recorded fits by (simp add: not_less)
    qed
  qed
qed

lemma kept_eq: "tretain (\<lambda>k t. \<not> is_stale t now) m = kept_attempts now m"
  by (simp add: kept_attempts_def)

lemma valid_admit: "tvalid (th_attempts s) \<Longrightarrow> tvalid (th_attempts (fst (sign_in_admit u ip n now s)))"
  by (cases rule: sign_in_admit_cases [of u ip n now s])
    (simp_all add: valid_kept valid_room valid_charges)

lemma valid_succeed: "tvalid (th_attempts s) \<Longrightarrow> tvalid (th_attempts (sign_in_succeed t s))"
  by (simp add: sign_in_succeed_def valid_refund tbl.valid_remove)

lemma all_keys_new:
  "all_keys (throttle_keys_new u ip n)
     = [login_account_throttle_key u ip n, login_ip_throttle_key ip, login_throttle_key u n]"
  by (simp add: all_keys_def throttle_keys_new_def)

section \<open>The table stays bounded\<close>

lemma length_admit:
  assumes "tvalid (th_attempts s)" "length (th_attempts s) \<le> LOGIN_THROTTLE_LOCKED_MAX_ENTRIES"
  shows "length (th_attempts (fst (sign_in_admit u ip n now s))) \<le> LOGIN_THROTTLE_LOCKED_MAX_ENTRIES"
proof (cases rule: sign_in_admit_cases [of u ip n now s])
  case locked
  then show ?thesis using assms(2) length_tretain_le [of "\<lambda>k t. \<not> is_stale t now" "th_attempts s"]
    by (simp add: kept_attempts_def)
next
  case full
  then show ?thesis
    using assms(2) length_tretain_le [of "\<lambda>k t. \<not> is_stale t now" "th_attempts s"]
      length_room [of "throttle_keys_new u ip n" now "kept_attempts now (th_attempts s)"]
    by (simp add: kept_attempts_def)
next
  case (admitted s')
  let ?k = "throttle_keys_new u ip n" and ?m = "kept_attempts now (th_attempts s)"
  have "filter (\<lambda>k. tget (room_for ?k now ?m) k = None) (all_keys ?k)
      = filter (\<lambda>k. tget ?m k = None) (all_keys ?k)"
    by (rule filter_cong) (simp_all add: room_for_def make_room_keeps [OF valid_kept [OF assms(1)]])
  then have "length (th_attempts s') \<le> length (room_for ?k now ?m)
      + length (filter (\<lambda>k. tget ?m k = None) (all_keys ?k))"
    unfolding admitted(3)
    using length_charges [of now "all_keys ?k" "s\<lparr>th_attempts := room_for ?k now ?m\<rparr>"] by simp
  with admitted(2,4) show ?thesis by simp
qed

section \<open>The budget of one counter\<close>

text \<open>
  One counter beside the attempts charged to it and not taken back, each with the run and
  the time of its charge. Charges of different runs are a lockout apart, and a run has at
  most as many as the limit.
\<close>

type_synonym charges = "(u64 \<times> u64) multiset"

definition sep :: "u64 \<Rightarrow> u64 \<Rightarrow> bool" where
  "sep a b \<longleftrightarrow> unat a + 60 \<le> unat b"

definition slot_ok :: "login_throttle option \<Rightarrow> charges \<Rightarrow> u64 \<Rightarrow> nat \<Rightarrow> bool" where
  "slot_ok slot A now next \<longleftrightarrow>
     (case slot of
        None \<Rightarrow> \<forall>a \<in># A. sep (snd a) now
      | Some e \<Rightarrow> unat (lt_failures e) = size {#a \<in># A. fst a = lt_run e#}
          \<and> lt_last_failure e \<le> now \<and> unat (lt_run e) < next
          \<and> (\<forall>a \<in># A. if fst a = lt_run e then snd a \<le> lt_last_failure e
               else sep (snd a) (lt_last_failure e)))"

definition spread :: "charges \<Rightarrow> bool" where
  "spread A \<longleftrightarrow>
     (\<forall>a \<in># A. \<forall>b \<in># A. fst a = fst b \<or> sep (snd a) (snd b) \<or> sep (snd b) (snd a))
     \<and> (\<forall>r. size {#a \<in># A. fst a = r#} \<le> 25)"

definition budget_ok :: "login_throttle option \<Rightarrow> charges \<Rightarrow> u64 \<Rightarrow> nat \<Rightarrow> bool" where
  "budget_ok slot A now next \<longleftrightarrow>
     (\<forall>a \<in># A. unat (fst a) < next) \<and> spread A \<and> slot_ok slot A now next"

lemma filter_mset_none: "{#a \<in># A. P a#} = {#} \<longleftrightarrow> (\<forall>a \<in># A. \<not> P a)"
  by (induction A) auto

lemma size_filter_le:
  "(\<And>a. a \<in># A \<Longrightarrow> P a \<Longrightarrow> Q a) \<Longrightarrow> size (filter_mset P A) \<le> size (filter_mset Q A)"
  by (induction A) (auto simp: le_SucI)

lemma is_stale_sep: "is_stale t now \<longleftrightarrow> sep (lt_last_failure t) now"
proof -
  have "unat (60 :: u64) = 60" by simp
  then show ?thesis
    by (simp add: is_stale_def sep_def throttle_limits word_le_nat_alt unat_sat_sub) arith
qed

lemma sep_mono: "a \<le> b \<Longrightarrow> sep b c \<Longrightarrow> c \<le> d \<Longrightarrow> sep a d"
  by (simp add: sep_def word_le_nat_alt)

lemma sep_le: "sep a b \<Longrightarrow> a \<le> b"
  by (simp add: sep_def word_le_nat_alt)

lemma budget_time:
  assumes "budget_ok slot A now next" "now \<le> now'" "next \<le> next'"
  shows "budget_ok slot A now' next'"
  using assms unfolding budget_ok_def slot_ok_def
  by (fastforce split: option.splits intro: sep_mono [OF order_refl] intro: order_trans)

text \<open>The charges of a counter that is absent, stale or back at zero are all old.\<close>

lemma budget_old:
  assumes "budget_ok slot A now next" "now \<le> now'" "a \<in># A"
    and "case slot of None \<Rightarrow> True | Some e \<Rightarrow> lt_failures e = 0 \<or> is_stale e now'"
  shows "sep (snd a) now'"
proof (cases slot)
  case None
  then show ?thesis using assms sep_mono [OF order_refl, of "snd a" now now']
    by (auto simp: budget_ok_def slot_ok_def)
next
  case (Some e)
  have e: "unat (lt_failures e) = size {#a \<in># A. fst a = lt_run e#}" "lt_last_failure e \<le> now"
    "if fst a = lt_run e then snd a \<le> lt_last_failure e else sep (snd a) (lt_last_failure e)"
    using assms(1,3) Some by (auto simp: budget_ok_def slot_ok_def)
  show ?thesis
  proof (cases "is_stale e now'")
    case True
    have "snd a \<le> lt_last_failure e" using e(3) sep_le by (auto split: if_splits)
    then show ?thesis using True by (auto simp: is_stale_sep intro: sep_mono)
  next
    case False
    then have "lt_failures e = 0" using assms(4) Some by simp
    then have "{#a \<in># A. fst a = lt_run e#} = {#}" using e(1) by simp
    then have "fst a \<noteq> lt_run e" using assms(3) unfolding filter_mset_none by blast
    then have "sep (snd a) (lt_last_failure e)" using e(3) by simp
    then show ?thesis using e(2) assms(2) by (auto intro: sep_mono order_trans)
  qed
qed

lemma budget_drop:
  assumes "budget_ok (Some e) A now next" "now \<le> now'" "is_stale e now'"
  shows "budget_ok None A now' next"
  using assms budget_old [OF assms(1,2)] by (simp add: budget_ok_def slot_ok_def)

lemma budget_restart:
  assumes ok: "budget_ok slot A now (unat r)" and now: "now \<le> now'"
    and zero: "case slot of None \<Rightarrow> True | Some e \<Rightarrow> lt_failures e = 0 \<or> is_stale e now'"
    and nxt: "unat r < next'"
  shows "budget_ok (Some \<lparr>lt_failures = 1, lt_last_failure = now', lt_run = r\<rparr>)
      (add_mset (r, now') A) now' next'"
proof -
  have old: "sep (snd a) now'" if "a \<in># A" for a by (rule budget_old [OF ok now that zero])
  have runs: "unat (fst a) < unat r" if "a \<in># A" for a using ok that by (simp add: budget_ok_def)
  have other: "fst a \<noteq> r" if "a \<in># A" for a using runs [OF that] by auto
  have none: "{#a \<in># A. fst a = r#} = {#}" using other unfolding filter_mset_none by blast
  have "spread A" using ok by (simp add: budget_ok_def)
  moreover have "size {#a \<in># add_mset (r, now') A. fst a = x#} \<le> 25" for x
    using \<open>spread A\<close> by (cases "x = r") (simp_all add: spread_def none)
  ultimately have "spread (add_mset (r, now') A)"
    using old unfolding spread_def by auto
  moreover have "slot_ok (Some \<lparr>lt_failures = 1, lt_last_failure = now', lt_run = r\<rparr>)
      (add_mset (r, now') A) now' next'"
    using old none other nxt by (auto simp: slot_ok_def)
  moreover have "\<forall>a \<in># add_mset (r, now') A. unat (fst a) < next'"
    using runs nxt by (auto intro: less_trans)
  ultimately show ?thesis by (simp add: budget_ok_def)
qed

lemma budget_extend:
  assumes ok: "budget_ok (Some e) A now next" and now: "now \<le> now'" and room: "lt_failures e < 25"
  shows "budget_ok (Some \<lparr>lt_failures = lt_failures e + 1, lt_last_failure = now', lt_run = lt_run e\<rparr>)
      (add_mset (lt_run e, now') A) now' next"
proof -
  have e: "unat (lt_failures e) = size {#a \<in># A. fst a = lt_run e#}" "lt_last_failure e \<le> now"
    "unat (lt_run e) < next"
    and each: "\<And>a. a \<in># A \<Longrightarrow> if fst a = lt_run e then snd a \<le> lt_last_failure e
      else sep (snd a) (lt_last_failure e)"
    and spread: "spread A" and runs: "\<And>a. a \<in># A \<Longrightarrow> unat (fst a) < next"
    using ok by (auto simp: budget_ok_def slot_ok_def)
  have few: "unat (lt_failures e) < 25" using room by (simp add: word_less_nat_alt)
  then have suc: "unat (lt_failures e + 1) = Suc (unat (lt_failures e))"
    by (simp add: unat_word_ariths)
  have later: "lt_last_failure e \<le> now'" using e(2) now by simp
  have each': "if fst a = lt_run e then snd a \<le> now' else sep (snd a) now'" if "a \<in># A" for a
    using each [OF that] later by (auto split: if_splits intro: sep_mono order_trans)
  have "spread (add_mset (lt_run e, now') A)"
    unfolding spread_def
  proof (intro conjI allI ballI)
    fix r
    show "size {#a \<in># add_mset (lt_run e, now') A. fst a = r#} \<le> 25"
      using spread e(1) few by (auto simp: spread_def)
  next
    fix a b assume ab: "a \<in># add_mset (lt_run e, now') A" "b \<in># add_mset (lt_run e, now') A"
    have far: "c \<in># A \<Longrightarrow> fst c = lt_run e \<or> sep (snd c) now'" for c
      using each' [of c] by (auto split: if_splits)
    have old: "a \<in># A \<Longrightarrow> b \<in># A \<Longrightarrow> fst a = fst b \<or> sep (snd a) (snd b) \<or> sep (snd b) (snd a)"
      using spread unfolding spread_def by blast
    consider "a = (lt_run e, now')" "b = (lt_run e, now')" | "a = (lt_run e, now')" "b \<in># A"
      | "a \<in># A" "b = (lt_run e, now')" | "a \<in># A" "b \<in># A"
      using ab by auto
    then show "fst a = fst b \<or> sep (snd a) (snd b) \<or> sep (snd b) (snd a)"
      using far [of a] far [of b] old by cases auto
  qed
  moreover have "slot_ok (Some \<lparr>lt_failures = lt_failures e + 1, lt_last_failure = now',
      lt_run = lt_run e\<rparr>) (add_mset (lt_run e, now') A) now' next"
    using each' e suc by (auto simp: slot_ok_def)
  ultimately show ?thesis using runs e(3) by (auto simp: budget_ok_def)
qed

lemma spread_remove: "spread A \<Longrightarrow> spread (A - {#x#})"
proof -
  assume A: "spread A"
  have "size {#a \<in># A - {#x#}. fst a = r#} \<le> 25" for r
  proof -
    have "{#a \<in># A - {#x#}. fst a = r#} \<subseteq># {#a \<in># A. fst a = r#}"
      by (rule multiset_filter_mono) simp
    then show ?thesis using A size_mset_mono order_trans unfolding spread_def by blast
  qed
  moreover have "fst a = fst b \<or> sep (snd a) (snd b) \<or> sep (snd b) (snd a)"
    if "a \<in># A - {#x#}" "b \<in># A - {#x#}" for a b
    using A in_diffD [OF that(1)] in_diffD [OF that(2)] unfolding spread_def by blast
  ultimately show ?thesis unfolding spread_def by blast
qed

lemma budget_refund:
  assumes ok: "budget_ok slot A now next" and c: "(r, t) \<in># A"
  shows "budget_ok (map_option (\<lambda>e. if lt_run e = r
      then e\<lparr>lt_failures := (if lt_failures e = 0 then 0 else lt_failures e - 1)\<rparr> else e) slot)
    (A - {#(r, t)#}) now next"
proof -
  have sub: "a \<in># A - {#(r, t)#} \<Longrightarrow> a \<in># A" for a by (rule in_diffD)
  have "slot_ok (map_option (\<lambda>e. if lt_run e = r
      then e\<lparr>lt_failures := (if lt_failures e = 0 then 0 else lt_failures e - 1)\<rparr> else e) slot)
    (A - {#(r, t)#}) now next"
  proof (cases slot)
    case None
    then show ?thesis using ok sub by (auto simp: budget_ok_def slot_ok_def)
  next
    case (Some e)
    have e: "unat (lt_failures e) = size {#a \<in># A. fst a = lt_run e#}" "lt_last_failure e \<le> now"
      "unat (lt_run e) < next"
      "\<And>a. a \<in># A \<Longrightarrow> if fst a = lt_run e then snd a \<le> lt_last_failure e
        else sep (snd a) (lt_last_failure e)"
      using ok Some by (auto simp: budget_ok_def slot_ok_def)
    show ?thesis
    proof (cases "lt_run e = r")
      case True
      then have cr: "(r, t) \<in># {#a \<in># A. fst a = lt_run e#}" using c by simp
      then have "0 < size {#a \<in># A. fst a = lt_run e#}"
        by (metis gr0I size_eq_0_iff_empty empty_iff set_mset_empty)
      then have pos: "lt_failures e \<noteq> 0" using e(1) by (metis less_irrefl unat_0)
      then have "unat (lt_failures e - 1) = unat (lt_failures e) - 1"
        by (metis unat_minus_one)
      moreover have "size {#a \<in># A - {#(r, t)#}. fst a = lt_run e#}
          = size {#a \<in># A. fst a = lt_run e#} - 1"
        using cr True by (simp add: filter_diff_mset size_Diff_singleton)
      ultimately show ?thesis using Some True pos e sub
        by (auto simp: slot_ok_def)
    next
      case False
      then have "{#a \<in># A - {#(r, t)#}. fst a = lt_run e#} = {#a \<in># A. fst a = lt_run e#}"
        by (simp add: filter_diff_mset)
      then show ?thesis using Some False e sub by (auto simp: slot_ok_def)
    qed
  qed
  then show ?thesis using ok spread_remove sub by (auto simp: budget_ok_def)
qed

text \<open>Charges less than a lockout apart belong to one run, so there are few of them.\<close>

lemma budget_window:
  assumes "budget_ok slot A now next"
  shows "size {#a \<in># A. T \<le> snd a \<and> unat (snd a) < unat T + 60#} \<le> 25"
proof (cases "{#a \<in># A. T \<le> snd a \<and> unat (snd a) < unat T + 60#} = {#}")
  case False
  let ?W = "\<lambda>a. T \<le> snd a \<and> unat (snd a) < unat T + 60"
  obtain b where b: "b \<in># A" "?W b" using False by (auto simp: filter_mset_none)
  have "fst a = fst b" if "a \<in># A" "?W a" for a
    using assms that b unfolding budget_ok_def spread_def
    by (fastforce simp: sep_def word_le_nat_alt)
  then have "size {#a \<in># A. ?W a#} \<le> size {#a \<in># A. fst a = fst b#}"
    by (intro size_filter_le) blast
  also have "\<dots> \<le> 25" using assms by (simp add: budget_ok_def spread_def)
  finally show ?thesis .
next
  case True
  then show ?thesis by (simp only: size_empty zero_le)
qed

section \<open>Histories\<close>

datatype throttle_event = Attempt ip_addr ustr u64 | Succeeded nat

type_synonym guesses = "(ticket \<times> u64) list"

text \<open>
  The state of the throttle beside the admitted attempts whose charge still stands, each with
  its time. \<open>Succeeded i\<close> is the second half of the \<open>i\<close>-th of them.
\<close>

fun throttle_step :: "unicode \<Rightarrow> throttle_event \<Rightarrow> throttle \<times> guesses \<Rightarrow> throttle \<times> guesses" where
  "throttle_step u (Attempt ip n now) (s, gs) =
     (case sign_in_admit u ip n now s of
        (s', Inl e) \<Rightarrow> (s', gs)
      | (s', Inr t) \<Rightarrow> (s', gs @ [(t, now)]))"
| "throttle_step u (Succeeded i) (s, gs) =
     (if i < length gs
      then (sign_in_succeed (fst (gs ! i)) s, take i gs @ drop (Suc i) gs) else (s, gs))"

definition throttle_run :: "unicode \<Rightarrow> throttle_event list \<Rightarrow> throttle \<times> guesses" where
  "throttle_run u es = fold (throttle_step u) es (\<lparr>th_attempts = [], th_next_run = 1\<rparr>, [])"

fun attempt_time :: "throttle_event \<Rightarrow> u64 option" where
  "attempt_time (Attempt ip n now) = Some now"
| "attempt_time (Succeeded i) = None"

definition attempt_times :: "throttle_event list \<Rightarrow> u64 list" where
  "attempt_times es = List.map_filter attempt_time es"

lemma attempt_times_simps [simp]:
  "attempt_times [] = []"
  "attempt_times (Attempt ip n now # es) = now # attempt_times es"
  "attempt_times (Succeeded i # es) = attempt_times es"
  "attempt_times (es @ fs) = attempt_times es @ attempt_times fs"
  by (simp_all add: attempt_times_def map_filter_simps map_filter_def)

definition charge_of :: "ticket \<times> u64 \<Rightarrow> u64 \<times> u64" where
  "charge_of g = (snd (hd (ti_charged (fst g))), snd g)"

definition network_of :: "ticket \<times> u64 \<Rightarrow> ustr" where
  "network_of g = tk_ip (ti_keys (fst g))"

definition charges_to :: "ustr \<Rightarrow> guesses \<Rightarrow> charges" where
  "charges_to k gs = image_mset charge_of (filter_mset (\<lambda>g. network_of g = k) (mset gs))"

definition ticket_ok :: "ticket \<Rightarrow> bool" where
  "ticket_ok t \<longleftrightarrow> \<not> ip_shaped (tk_account (ti_keys t)) \<and> \<not> ip_shaped (tk_username (ti_keys t))
     \<and> map fst (ti_charged t) = [tk_ip (ti_keys t), tk_username (ti_keys t)]"

definition budgets_ok :: "u64 \<Rightarrow> throttle \<Rightarrow> guesses \<Rightarrow> bool" where
  "budgets_ok now s gs \<longleftrightarrow> tvalid (th_attempts s) \<and> (\<forall>g \<in> set gs. ticket_ok (fst g))
     \<and> (\<forall>k. ip_shaped k \<longrightarrow>
          budget_ok (tget (th_attempts s) k) (charges_to k gs) now (unat (th_next_run s)))"

lemma kept_budget:
  assumes "budget_ok (tget m k) A now next" "tvalid m" "now \<le> now'"
  shows "budget_ok (tget (kept_attempts now' m) k) A now' next"
proof (cases "tget m k")
  case None
  then show ?thesis using budget_time [OF assms(1,3) order_refl] by (simp add: kept_lookup assms(2))
next
  case (Some e)
  then show ?thesis
    using budget_time [OF assms(1,3) order_refl] budget_drop [OF _ assms(3)] assms(1)
    by (auto simp: kept_lookup assms(2))
qed

lemma room_network:
  "tvalid m \<Longrightarrow> ip_shaped k
     \<Longrightarrow> tget (room_for keys now (kept_attempts now m)) k = tget (kept_attempts now m) k"
  unfolding room_for_def by (rule make_room_network) (auto intro: valid_kept dest: kept_not_stale)

text \<open>The three counters of an attempt are charged one after the other.\<close>

lemma next_run_bounds:
  assumes "unat (th_next_run s) + 1 < 2 ^ 64"
  shows "unat (th_next_run s) \<le> unat (th_next_run (charge_key now k s))
       \<and> unat (th_next_run (charge_key now k s)) \<le> unat (th_next_run s) + 1"
  using assms by (simp add: charge_key_next unat_add_u64)

lemma charge_budget:
  assumes ok: "budget_ok (tget (th_attempts s) k) A now (unat (th_next_run s))"
    and now: "now \<le> now'" and fits: "unat (th_next_run s) + 1 < 2 ^ 64"
    and free: "\<not> over (th_attempts s) now' k LOGIN_IP_MAX_FAILURES"
  defines "s' \<equiv> charge_key now' k s"
  shows "\<exists>e. tget (th_attempts s') k = Some e
      \<and> budget_ok (Some e) (add_mset (lt_run e, now') A) now' (unat (th_next_run s'))"
proof (cases "restarts (th_attempts s) k now'")
  case True
  then have "case tget (th_attempts s) k of None \<Rightarrow> True
      | Some e \<Rightarrow> lt_failures e = 0 \<or> is_stale e now'"
    by (auto simp: restarts_def entry_of_def split: option.splits)
  moreover have "unat (th_next_run s) < unat (th_next_run s')"
    using True fits by (simp add: s'_def charge_key_next unat_add_u64)
  ultimately show ?thesis
    using budget_restart [OF ok now] True
    by (simp add: s'_def charge_key_same charged_entry_def)
next
  case False
  then obtain e where e: "tget (th_attempts s) k = Some e" "\<not> is_stale e now'"
    by (auto simp: restarts_def entry_of_def fresh_entry_def split: option.splits)
  then have "lt_failures e < 25"
    using free by (simp add: over_def is_locked_def is_stale_def throttle_limits not_le)
  then have "budget_ok (Some \<lparr>lt_failures = lt_failures e + 1, lt_last_failure = now', lt_run = lt_run e\<rparr>)
      (add_mset (lt_run e, now') A) now' (unat (th_next_run s))"
    using ok e(1) now by (intro budget_extend) simp_all
  then show ?thesis using False e(1)
    by (simp add: s'_def charge_key_same charge_key_next charged_entry_def entry_of_def)
qed

lemma charges_to_simps [simp]:
  "charges_to k [] = {#}"
  "charges_to k (g # gs) = (if network_of g = k then add_mset (charge_of g) (charges_to k gs)
     else charges_to k gs)"
  "charges_to k (gs @ hs) = charges_to k gs + charges_to k hs"
  by (simp_all add: charges_to_def)

lemma not_locked_network:
  "\<not> keys_locked (throttle_keys_new u ip n) m now
     \<Longrightarrow> \<not> over m now (login_ip_throttle_key ip) LOGIN_IP_MAX_FAILURES"
  by (simp add: keys_locked_def throttle_keys_new_def)

lemma admit_budgets:
  assumes inv: "budgets_ok now s gs" and now: "now \<le> now'" and fits: "unat (th_next_run s) + 3 < 2 ^ 64"
  shows "case throttle_step u (Attempt ip n now') (s, gs) of (s', gs') \<Rightarrow>
      budgets_ok now' s' gs' \<and> unat (th_next_run s') \<le> unat (th_next_run s) + 3"
proof -
  let ?m = "th_attempts s" and ?k = "throttle_keys_new u ip n"
  have v: "tvalid ?m" and tickets: "\<forall>g \<in> set gs. ticket_ok (fst g)"
    and each: "\<And>k. ip_shaped k \<Longrightarrow> budget_ok (tget ?m k) (charges_to k gs) now (unat (th_next_run s))"
    using inv by (auto simp: budgets_ok_def)
  have kept: "ip_shaped k \<Longrightarrow> budget_ok (tget (kept_attempts now' ?m) k) (charges_to k gs) now'
      (unat (th_next_run s))" for k
    by (rule kept_budget [OF each v now])
  show ?thesis
  proof (cases rule: sign_in_admit_cases [of u ip n now' s])
    case locked
    then show ?thesis using kept v tickets
      by (auto simp: budgets_ok_def valid_kept split: prod.splits)
  next
    case full
    then show ?thesis using kept v tickets
      by (auto simp: budgets_ok_def valid_kept valid_room room_network split: prod.splits)
  next
    case (admitted s')
    define s0 where "s0 = s\<lparr>th_attempts := room_for ?k now' (kept_attempts now' ?m)\<rparr>"
    define s1 where "s1 = charge_key now' (login_account_throttle_key u ip n) s0"
    define s2 where "s2 = charge_key now' (login_ip_throttle_key ip) s1"
    have s': "s' = charge_key now' (login_throttle_key u n) s2"
      by (simp add: admitted(3) all_keys_new s2_def s1_def s0_def)
    have n0: "th_next_run s0 = th_next_run s" by (simp add: s0_def)
    have n1: "unat (th_next_run s0) \<le> unat (th_next_run s1)" "unat (th_next_run s1) \<le> unat (th_next_run s0) + 1"
      using next_run_bounds [of s0] fits n0 by (simp_all add: s1_def)
    have n2: "unat (th_next_run s1) \<le> unat (th_next_run s2)" "unat (th_next_run s2) \<le> unat (th_next_run s1) + 1"
      using next_run_bounds [of s1] fits n0 n1 by (simp_all add: s2_def)
    have n3: "unat (th_next_run s2) \<le> unat (th_next_run s')" "unat (th_next_run s') \<le> unat (th_next_run s2) + 1"
      using next_run_bounds [of s2] fits n0 n1 n2 by (simp_all add: s')
    let ?ip = "login_ip_throttle_key ip"
    have apart: "ip_shaped k \<Longrightarrow> k \<noteq> login_account_throttle_key u ip n"
      "ip_shaped k \<Longrightarrow> k \<noteq> login_throttle_key u n" for k
      using other_keys_not_ip_shaped by auto
    have slot1: "ip_shaped k \<Longrightarrow> tget (th_attempts s1) k = tget (kept_attempts now' ?m) k" for k
      by (simp add: s1_def s0_def charge_key_other apart room_network [OF v])
    have slot3: "ip_shaped k \<Longrightarrow> tget (th_attempts s') k = tget (th_attempts s2) k" for k
      by (simp add: s' charge_key_other apart)
    have "\<exists>e. tget (th_attempts s2) ?ip = Some e
        \<and> budget_ok (Some e) (add_mset (lt_run e, now') (charges_to ?ip gs)) now' (unat (th_next_run s2))"
      unfolding s2_def
    proof (rule charge_budget)
      show "budget_ok (tget (th_attempts s1) ?ip) (charges_to ?ip gs) now' (unat (th_next_run s1))"
        using budget_time [OF kept [OF ip_key_shaped] order_refl] n0 n1 by (simp add: slot1 ip_key_shaped)
      show "\<not> over (th_attempts s1) now' ?ip LOGIN_IP_MAX_FAILURES"
        using not_locked_network [OF admitted(1)] by (simp add: over_def slot1 ip_key_shaped)
    qed (use fits n0 n1 in simp_all)
    then obtain e where e: "tget (th_attempts s') ?ip = Some e"
      "budget_ok (Some e) (add_mset (lt_run e, now') (charges_to ?ip gs)) now' (unat (th_next_run s2))"
      by (auto simp: slot3 ip_key_shaped)
    define t where "t = \<lparr>ti_keys = ?k,
        ti_charged = charged_runs (th_attempts s') [tk_ip ?k, tk_username ?k]\<rparr>"
    have step: "throttle_step u (Attempt ip n now') (s, gs) = (s', gs @ [(t, now')])"
      using admitted(4) by (simp add: t_def)
    have net: "network_of (t, now') = ?ip" by (simp add: network_of_def t_def throttle_keys_new_def)
    have charge: "charge_of (t, now') = (lt_run e, now')"
      using e(1) by (simp add: charge_of_def t_def charged_runs_def throttle_keys_new_def)
    have tok: "ticket_ok t"
      using other_keys_not_ip_shaped
      by (simp add: ticket_ok_def t_def charged_runs_def throttle_keys_new_def)
    have "budget_ok (tget (th_attempts s') k) (charges_to k (gs @ [(t, now')])) now' (unat (th_next_run s'))"
      if k: "ip_shaped k" for k
    proof (cases "k = ?ip")
      case True
      then show ?thesis using budget_time [OF e(2) order_refl n3(1)] e(1) net charge by simp
    next
      case False
      then have "tget (th_attempts s') k = tget (kept_attempts now' ?m) k"
        by (simp add: slot3 k s2_def charge_key_other slot1)
      then show ?thesis using budget_time [OF kept [OF k] order_refl, of "unat (th_next_run s')"]
          False net n0 n1 n2 n3 by simp
    qed
    moreover have "tvalid (th_attempts s')"
      using valid_admit [OF v, of u ip n now'] admitted(4) by simp
    ultimately show ?thesis unfolding step using tickets tok n0 n1 n2 n3 by (simp add: budgets_ok_def)
  qed
qed

lemma succeed_budgets:
  assumes inv: "budgets_ok now s gs"
  shows "case throttle_step u (Succeeded i) (s, gs) of (s', gs') \<Rightarrow>
      budgets_ok now s' gs' \<and> th_next_run s' = th_next_run s"
proof (cases "i < length gs")
  case True
  let ?m = "th_attempts s"
  obtain xs g ys where gs: "gs = xs @ g # ys" "gs ! i = g" "take i gs @ drop (Suc i) gs = xs @ ys"
    using id_take_nth_drop [OF True] by (metis that)
  obtain t at' where g: "g = (t, at')" by fastforce
  have v: "tvalid ?m" and tickets: "\<forall>g \<in> set gs. ticket_ok (fst g)"
    and each: "\<And>k. ip_shaped k \<Longrightarrow> budget_ok (tget ?m k) (charges_to k gs) now (unat (th_next_run s))"
    using inv by (auto simp: budgets_ok_def)
  have tok: "ticket_ok t" using tickets gs(1) g by simp
  then obtain r r' where charged: "ti_charged t = [(tk_ip (ti_keys t), r), (tk_username (ti_keys t), r')]"
    unfolding ticket_ok_def by (cases "ti_charged t"; cases "tl (ti_charged t)") auto
  let ?s' = "sign_in_succeed t s"
  have slot: "tget (th_attempts ?s') k =
      (if k = tk_ip (ti_keys t) then map_option (\<lambda>e. if lt_run e = r
         then e\<lparr>lt_failures := (if lt_failures e = 0 then 0 else lt_failures e - 1)\<rparr> else e) (tget ?m k)
       else tget ?m k)" if "ip_shaped k" for k
    using tok that unfolding ticket_ok_def sign_in_succeed_def refund_login_charge_def charged
    by (auto simp: refund_key_lookup tbl.lookup_remove v)
  have "budget_ok (tget (th_attempts ?s') k) (charges_to k (xs @ ys)) now (unat (th_next_run s))"
    if k: "ip_shaped k" for k
  proof (cases "k = tk_ip (ti_keys t)")
    case True
    have charge: "charge_of g = (r, at')" by (simp add: charge_of_def g charged)
    have all: "charges_to k gs = add_mset (r, at') (charges_to k (xs @ ys))"
      using charge True by (simp add: gs(1) network_of_def g)
    show ?thesis using budget_refund [OF each [OF k], of r at'] all True slot [OF k] by simp
  next
    case False
    then show ?thesis using each [OF k] slot [OF k] by (simp add: gs(1) network_of_def g)
  qed
  moreover have "tvalid (th_attempts ?s')" by (rule valid_succeed [OF v])
  ultimately show ?thesis using True gs g tickets by (simp add: budgets_ok_def) (simp add: sign_in_succeed_def)
qed (simp add: inv)

lemma run_budgets:
  assumes "budgets_ok now s gs" "sorted (now # attempt_times es)"
    and "unat (th_next_run s) + 3 * length es < 2 ^ 64"
  shows "\<exists>now'. case fold (throttle_step u) es (s, gs) of (s', gs') \<Rightarrow> budgets_ok now' s' gs'"
  using assms
proof (induction es arbitrary: now s gs)
  case Nil
  then show ?case by auto
next
  case (Cons e es)
  obtain s' gs' where step: "throttle_step u e (s, gs) = (s', gs')" by fastforce
  have rest: "fold (throttle_step u) (e # es) (s, gs) = fold (throttle_step u) es (s', gs')"
    by (simp add: step)
  show ?case
  proof (cases e)
    case (Attempt ip n now')
    have "budgets_ok now' s' gs'" "unat (th_next_run s') \<le> unat (th_next_run s) + 3"
      using admit_budgets [OF Cons.prems(1), of now' u ip n] Cons.prems(2,3) step
      by (simp_all add: Attempt)
    with Cons.IH [of now' s' gs'] Cons.prems(2,3) show ?thesis unfolding rest by (simp add: Attempt)
  next
    case (Succeeded i)
    have "budgets_ok now s' gs'" "th_next_run s' = th_next_run s"
      using succeed_budgets [OF Cons.prems(1), of u i] step by (simp_all add: Succeeded)
    with Cons.IH [of now s' gs'] Cons.prems(2,3) show ?thesis
      unfolding rest by (simp add: Succeeded)
  qed
qed

lemma budgets_start: "budgets_ok 0 \<lparr>th_attempts = [], th_next_run = 1\<rparr> []"
  by (simp add: budgets_ok_def budget_ok_def slot_ok_def spread_def)

text \<open>C2: Whatever names are tried, whatever everybody else does and however full the table is,
  at most 25 of the sign-in attempts a network gets admitted within any sixty seconds stay
  uncounted as successes. An attempt counts from its admission, before its password is checked,
  and an eviction or a refund never gives a network back an attempt that failed.\<close>

theorem guesses_per_network_bounded:
  assumes "sorted (attempt_times es)" and "length es < 2 ^ 60"
    and "throttle_run u es = (s, gs)"
  shows "length (filter (\<lambda>g. network_of g = login_ip_throttle_key ip \<and> T \<le> snd g
      \<and> unat (snd g) < unat T + 60) gs) \<le> 25"
proof -
  let ?k = "login_ip_throttle_key ip" and ?W = "\<lambda>t. T \<le> t \<and> unat t < unat T + 60"
  have "sorted (0 # attempt_times es)" using assms(1) by simp
  then obtain now where "budgets_ok now s gs"
    using run_budgets [OF budgets_start, of es u] assms(2,3) by (auto simp: throttle_run_def)
  then have "budget_ok (tget (th_attempts s) ?k) (charges_to ?k gs) now (unat (th_next_run s))"
    using ip_key_shaped by (simp add: budgets_ok_def)
  from budget_window [OF this, of T] have "size {#a \<in># charges_to ?k gs. ?W (snd a)#} \<le> 25" .
  moreover have "size {#a \<in># charges_to ?k gs. ?W (snd a)#}
      = length (filter (\<lambda>g. network_of g = ?k \<and> ?W (snd g)) gs)"
    by (induction gs) (auto simp: charge_of_def)
  ultimately show ?thesis by simp
qed

text \<open>Code equations that compare the sizes as integers.\<close>

lemma make_room_code [code]:
  "make_room n missing keep now m =
     (if n = 0 \<or> int (length m + missing) \<le> 10000 then m
      else case evict_weakest m keep now of
        None \<Rightarrow> m
      | Some m' \<Rightarrow> make_room (n - 1) missing keep now m')"
  by (cases n) (auto simp: LOGIN_THROTTLE_MAX_ENTRIES_def split: option.splits)

lemma record_login_failures_in_code [code]:
  "record_login_failures_in s keys now =
     (let missing = length (filter (\<lambda>k. tget (th_attempts s) k = None) keys);
          m = make_room missing missing keys now (th_attempts s)
      in if int (length m + missing) > 50000
         then (s\<lparr>th_attempts := m\<rparr>, False)
         else (fold (charge_key now) keys (s\<lparr>th_attempts := m\<rparr>), True))"
  by (simp add: record_login_failures_in_def LOGIN_THROTTLE_LOCKED_MAX_ENTRIES_def Let_def)

definition ex_guess :: "nat \<Rightarrow> throttle_event" where
  "ex_guess i = Attempt (V4 0x0a000005) (cps [char_of (65 + i)]) (of_nat i)"

lemma guesses_per_network_bounded_witness:
  "length (filter (\<lambda>g. network_of g = login_ip_throttle_key (V4 0x0a000005) \<and> 0 \<le> snd g
      \<and> unat (snd g) < unat (0 :: u64) + 60)
     (snd (throttle_run ascii_tables (map ex_guess [0, 1, 2])))) \<le> 25
   \<and> length (snd (throttle_run ascii_tables (map ex_guess [0, 1, 2]))) = 3"
proof
  let ?r = "throttle_run ascii_tables (map ex_guess [0, 1, 2])"
  show "length (filter (\<lambda>g. network_of g = login_ip_throttle_key (V4 0x0a000005) \<and> 0 \<le> snd g
      \<and> unat (snd g) < unat (0 :: u64) + 60) (snd ?r)) \<le> 25"
  proof (rule guesses_per_network_bounded)
    show "sorted (attempt_times (map ex_guess [0, 1, 2]))" by (simp add: ex_guess_def)
    show "length (map ex_guess [0, 1, 2]) < 2 ^ 60" by simp
    show "throttle_run ascii_tables (map ex_guess [0, 1, 2]) = (fst ?r, snd ?r)" by simp
  qed
  show "length (snd ?r) = 3" by code_simp
qed

section \<open>Refusals stand\<close>

text \<open>What a refusal rests on, in terms of what a table holds.\<close>

definition times_ok :: "u64 \<Rightarrow> nat \<Rightarrow> throttle \<Rightarrow> bool" where
  "times_ok now n s \<longleftrightarrow> tvalid (th_attempts s)
     \<and> (\<forall>k e. tget (th_attempts s) k = Some e \<longrightarrow> lt_last_failure e \<le> now \<and> unat (lt_failures e) \<le> n)"

lemma not_stale_earlier: "\<not> is_stale t later \<Longrightarrow> now \<le> later \<Longrightarrow> \<not> is_stale t now"
  by (auto simp: is_stale_sep intro: sep_mono)

lemma locked_not_stale: "is_locked t now n \<longleftrightarrow> n \<le> lt_failures t \<and> \<not> is_stale t now"
  by (auto simp: is_locked_def is_stale_def)

lemma keys_locked_not_stale:
  "keys_locked (throttle_keys_new u ip n) m later \<longleftrightarrow>
     (\<exists>a. tget m (login_account_throttle_key u ip n) = Some a \<and> \<not> is_stale a later
        \<and> (LOGIN_MAX_FAILURES \<le> lt_failures a
           \<or> (\<exists>b. tget m (login_throttle_key u n) = Some b \<and> \<not> is_stale b later
                \<and> LOGIN_ACCOUNT_MAX_FAILURES \<le> lt_failures b)))
     \<or> (\<exists>i. tget m (login_ip_throttle_key ip) = Some i \<and> \<not> is_stale i later
          \<and> LOGIN_IP_MAX_FAILURES \<le> lt_failures i)"
  by (auto simp: keys_locked_def throttle_keys_new_def over_def failed_here_def locked_not_stale
      split: option.splits)

lemma kept_refusal:
  assumes "keys_locked (throttle_keys_new u ip n) m later" "tvalid m" "now \<le> later"
  shows "keys_locked (throttle_keys_new u ip n) (kept_attempts now m) later"
proof -
  have "tget (kept_attempts now m) k = Some t" if "tget m k = Some t" "\<not> is_stale t later" for k t
    using not_stale_earlier [OF that(2) assms(3)] that(1) by (simp add: kept_lookup assms(2))
  then show ?thesis using assms(1) unfolding keys_locked_not_stale by blast
qed

text \<open>An eviction spares what a refusal rests on.\<close>

lemma evict_refusal:
  assumes locked: "keys_locked (throttle_keys_new u ip n) m later" and v: "tvalid m" and now: "now \<le> later"
    and j: "tget m j = Some t" "\<not> login_throttle_holds_lock m j t now"
  shows "keys_locked (throttle_keys_new u ip n) (tremove j m) later"
proof -
  let ?a = "login_account_throttle_key u ip n" and ?n = "login_throttle_key u n"
    and ?i = "login_ip_throttle_key ip"
  note ns = not_stale_earlier [OF _ now]
  have ip: "j \<noteq> ?i" if "tget m ?i = Some x" "\<not> is_stale x later" for x
    using j that ns by (auto simp: holds_lock_ip ip_key_shaped)
  have user: "j \<noteq> ?n" if "tget m ?n = Some x" "\<not> is_stale x later" "LOGIN_ACCOUNT_MAX_FAILURES \<le> lt_failures x" for x
    using j that ns by (auto simp: holds_lock_user locked_not_stale)
  have account: "j \<noteq> ?a" if "tget m ?a = Some x" "\<not> is_stale x later" "LOGIN_MAX_FAILURES \<le> lt_failures x" for x
    using j that ns by (auto simp: holds_lock_account locked_not_stale)
  have pair: "j \<noteq> ?a" if "tget m ?a = Some x" "\<not> is_stale x later"
    "tget m ?n = Some y" "\<not> is_stale y later" "LOGIN_ACCOUNT_MAX_FAILURES \<le> lt_failures y" for x y
    using j that ns by (auto simp: holds_lock_account locked_not_stale over_def)
  show ?thesis
    using locked unfolding keys_locked_not_stale tbl.lookup_remove [OF v]
    by (metis ip user account pair)
qed

lemma room_refusal:
  assumes "keys_locked (throttle_keys_new u ip n) m later" "tvalid m" "now \<le> later"
  shows "keys_locked (throttle_keys_new u ip n) (room_for keys now m) later"
proof -
  let ?P = "\<lambda>m. keys_locked (throttle_keys_new u ip n) m later"
  have "?P (room_for keys now m) \<and> tvalid (room_for keys now m)"
    unfolding room_for_def
    by (rule make_room_induct [of ?P]) (use assms evict_refusal in blast)+
  then show ?thesis ..
qed

text \<open>A charge never weakens a counter that is still in force.\<close>

lemma charge_refusal:
  assumes locked: "keys_locked (throttle_keys_new u ip n) (th_attempts s) later"
    and now: "now \<le> later" and times: "times_ok now N s" and N: "N < 2 ^ 32 - 1"
  shows "keys_locked (throttle_keys_new u ip n) (th_attempts (charge_key now j s)) later"
proof -
  have keeps: "\<exists>e'. tget (th_attempts (charge_key now j s)) k = Some e' \<and> \<not> is_stale e' later
      \<and> lt_failures e \<le> lt_failures e'"
    if e: "tget (th_attempts s) k = Some e" "\<not> is_stale e later" for k e
  proof (cases "j = k")
    case False
    then show ?thesis using e by (auto simp: charge_key_other)
  next
    case True
    have old: "lt_last_failure e \<le> now" "unat (lt_failures e) \<le> N"
      using times e(1) by (auto simp: times_ok_def)
    let ?c = "charged_entry now (th_next_run s) (th_attempts s) k"
    have entry: "entry_of (th_attempts s) k = e" by (simp add: entry_of_def e(1))
    have "\<not> is_stale e now" by (rule not_stale_earlier [OF e(2) now])
    then have "lt_failures ?c = lt_failures e + 1 \<and> lt_last_failure ?c = now
        \<or> lt_failures e = 0 \<and> lt_last_failure ?c = now"
      by (simp add: charged_entry_def restarts_def entry)
    moreover have "lt_failures e \<le> lt_failures e + 1"
      using old(2) N by (simp add: word_le_nat_alt unat_word_ariths)
    moreover have "\<not> is_stale ?c later" if "lt_last_failure ?c = now"
      using e(2) old(1) that sep_mono [of "lt_last_failure e" now later later]
      by (auto simp: is_stale_sep)
    ultimately show ?thesis using True by (auto simp: charge_key_same)
  qed
  show ?thesis
    using locked unfolding keys_locked_not_stale
    by (meson keeps order_trans)
qed

lemma charges_times:
  assumes "times_ok now N s"
  shows "times_ok now (Suc N) (charge_key now j s)"
proof -
  have v: "tvalid (th_attempts s)" using assms by (simp add: times_ok_def)
  have "lt_last_failure e \<le> now \<and> unat (lt_failures e) \<le> Suc N"
    if "tget (th_attempts (charge_key now j s)) k = Some e" for k e
  proof (cases "k = j")
    case False
    then show ?thesis using assms that by (auto simp: times_ok_def charge_key_other intro: le_SucI)
  next
    case True
    then have e: "e = charged_entry now (th_next_run s) (th_attempts s) j"
      using that by (simp add: charge_key_same)
    have "unat (lt_failures (entry_of (th_attempts s) j)) \<le> N"
      using assms by (auto simp: times_ok_def entry_of_def fresh_entry_def split: option.splits)
    moreover have "unat (a + 1) \<le> Suc (unat a)" for a :: u32
      by (simp add: unat_word_ariths)
    ultimately show ?thesis unfolding e charged_entry_def
      by (auto intro: order_trans)
  qed
  moreover have "tvalid (th_attempts (charge_key now j s))"
    by (simp add: charge_key_attempts tbl.valid_insert v)
  ultimately show ?thesis by (simp add: times_ok_def)
qed

lemma times_weaken: "times_ok now N s \<Longrightarrow> now \<le> now' \<Longrightarrow> N \<le> N' \<Longrightarrow> times_ok now' N' s"
  unfolding times_ok_def by (meson order_trans)

lemma kept_room_times:
  assumes "times_ok now N s" "now \<le> now'"
  shows "times_ok now' N (s\<lparr>th_attempts := kept_attempts now' (th_attempts s)\<rparr>)"
    and "times_ok now' N (s\<lparr>th_attempts := room_for keys now' (kept_attempts now' (th_attempts s))\<rparr>)"
proof -
  have v: "tvalid (th_attempts s)" using assms by (simp add: times_ok_def)
  have sub: "tget (th_attempts s) k = Some e" if "tget (kept_attempts now' (th_attempts s)) k = Some e" for k e
    using that by (auto simp: kept_lookup v split: option.splits if_splits)
  have ok: "tget (th_attempts s) k = Some e \<Longrightarrow> lt_last_failure e \<le> now' \<and> unat (lt_failures e) \<le> N" for k e
    using assms unfolding times_ok_def by (meson order_trans)
  show "times_ok now' N (s\<lparr>th_attempts := kept_attempts now' (th_attempts s)\<rparr>)"
    unfolding times_ok_def using ok [OF sub] valid_kept [OF v] by simp
  have room: "tget (kept_attempts now' (th_attempts s)) k = Some e"
    if "tget (room_for keys now' (kept_attempts now' (th_attempts s))) k = Some e" for k e
    using make_room_some [OF valid_kept [OF v]] that by (simp add: room_for_def)
  show "times_ok now' N (s\<lparr>th_attempts := room_for keys now' (kept_attempts now' (th_attempts s))\<rparr>)"
    unfolding times_ok_def using ok [OF sub [OF room]] valid_room [OF valid_kept [OF v]] by simp
qed

lemma admit_times:
  assumes "times_ok now N s" "now \<le> now'"
  shows "times_ok now' (N + 3) (fst (sign_in_admit u ip n now' s))"
proof (cases rule: sign_in_admit_cases [of u ip n now' s])
  case locked
  then show ?thesis using times_weaken [OF kept_room_times(1) [OF assms]] by simp
next
  case full
  then show ?thesis using times_weaken [OF kept_room_times(2) [OF assms]] by simp
next
  case (admitted s')
  then show ?thesis
    using charges_times [OF charges_times [OF charges_times [OF kept_room_times(2) [OF assms]]]]
    by (simp add: all_keys_new numeral_3_eq_3)
qed

lemma succeed_times:
  assumes "times_ok now N s"
  shows "times_ok now N (sign_in_succeed t s)"
proof -
  let ?ok = "\<lambda>m. tvalid m \<and> (\<forall>k e. tget m k = Some e \<longrightarrow> lt_last_failure e \<le> now \<and> unat (lt_failures e) \<le> N)"
  have less: "unat (a - 1) \<le> unat a" if "a \<noteq> 0" for a :: u32
    using unat_minus_one [OF that] by simp
  have refund: "?ok (refund_key c m)" if "?ok m" for c and m :: attempts
  proof
    show "tvalid (refund_key c m)" using that by (simp add: refund_key_def tvalid_modify)
    have "lt_last_failure e \<le> now \<and> unat (lt_failures e) \<le> N" if e: "tget (refund_key c m) k = Some e" for k e
    proof -
      obtain t where t: "tget m k = Some t" "lt_last_failure e = lt_last_failure t"
        "lt_failures e = lt_failures t \<or> lt_failures t \<noteq> 0 \<and> lt_failures e = lt_failures t - 1"
        using e by (auto simp: refund_key_lookup split: if_splits)
      then have "unat (lt_failures e) \<le> unat (lt_failures t)" using less by auto
      then show ?thesis using t \<open>?ok m\<close> by (metis order_trans)
    qed
    then show "\<forall>k e. tget (refund_key c m) k = Some e \<longrightarrow>
        lt_last_failure e \<le> now \<and> unat (lt_failures e) \<le> N" by blast
  qed
  have refunds: "?ok (fold refund_key cs m)" if "?ok m" for cs m
    using that
  proof (induction cs arbitrary: m)
    case (Cons c cs)
    show ?case unfolding fold_simps by (rule Cons.IH [OF refund [OF Cons.prems]])
  qed simp
  have "?ok (tremove (tk_account (ti_keys t)) (th_attempts s))"
    using assms by (auto simp: times_ok_def table_laws split: if_splits)
  from refunds [OF this] show ?thesis
    by (simp add: times_ok_def sign_in_succeed_def refund_login_charge_def)
qed

lemma admit_refusal:
  assumes "keys_locked (throttle_keys_new u ip n) (th_attempts s) later" "times_ok now N s"
    and "now \<le> now'" "now' \<le> later" "N + 3 < 2 ^ 32 - 1"
  shows "keys_locked (throttle_keys_new u ip n) (th_attempts (fst (sign_in_admit u ip' n' now' s))) later"
proof -
  have v: "tvalid (th_attempts s)" using assms(2) by (simp add: times_ok_def)
  note kept = kept_refusal [OF assms(1) v assms(4)]
  show ?thesis
  proof (cases rule: sign_in_admit_cases [of u ip' n' now' s])
    case locked
    then show ?thesis using kept by simp
  next
    case full
    then show ?thesis using room_refusal [OF kept valid_kept [OF v] assms(4)] by simp
  next
    case (admitted s')
    define s0 where "s0 = s\<lparr>th_attempts := room_for (throttle_keys_new u ip' n') now'
        (kept_attempts now' (th_attempts s))\<rparr>"
    have t0: "times_ok now' N s0" unfolding s0_def by (rule kept_room_times(2) [OF assms(2,3)])
    have r0: "keys_locked (throttle_keys_new u ip n) (th_attempts s0) later"
      using room_refusal [OF kept valid_kept [OF v] assms(4)] by (simp add: s0_def)
    note r1 = charge_refusal [OF r0 assms(4) t0] and t1 = charges_times [OF t0]
    note r2 = charge_refusal [OF r1 assms(4) t1] and t2 = charges_times [OF t1]
    note r3 = charge_refusal [OF r2 assms(4) t2]
    show ?thesis
      unfolding admitted(4) fst_conv admitted(3) s0_def [symmetric] all_keys_new
      using r3 assms(5) by simp
  qed
qed

definition only_attempts :: "throttle_event list \<Rightarrow> bool" where
  "only_attempts es \<longleftrightarrow> list_all (\<lambda>e. attempt_time e \<noteq> None) es"

lemma fst_throttle_step_attempt:
  "fst (throttle_step u (Attempt ip n now) (s, gs)) = fst (sign_in_admit u ip n now s)"
  by (auto split: prod.splits sum.splits)

lemma run_times:
  assumes "times_ok now N (fst st)" "sorted (now # attempt_times es)" "N + 3 * length es < 2 ^ 32 - 1"
  shows "times_ok (last (now # attempt_times es)) (N + 3 * length es) (fst (fold (throttle_step u) es st))"
  using assms
proof (induction es arbitrary: now N st)
  case (Cons e es)
  obtain s gs where st: "st = (s, gs)" by fastforce
  show ?case
  proof (cases e)
    case (Attempt ip n now')
    have "times_ok now' (N + 3) (fst (throttle_step u e st))"
      using admit_times [of now N s now' u ip n] Cons.prems
      by (simp add: st Attempt fst_throttle_step_attempt del: throttle_step.simps)
    from Cons.IH [OF this] Cons.prems show ?thesis
      by (simp add: Attempt add.assoc del: throttle_step.simps)
  next
    case (Succeeded i)
    have "times_ok now (N + 3) (fst (throttle_step u e st))"
      using succeed_times [of now N s] times_weaken [of now N _ now "N + 3"] Cons.prems(1)
      by (simp add: st Succeeded)
    from Cons.IH [OF this] Cons.prems show ?thesis
      by (simp add: Succeeded add.assoc del: throttle_step.simps)
  qed
qed simp

lemma run_refusal:
  assumes "keys_locked (throttle_keys_new u ip n) (th_attempts (fst st)) later" "times_ok now N (fst st)"
    and "sorted (now # attempt_times es @ [later])" "N + 3 * length es < 2 ^ 32 - 1" "only_attempts es"
  shows "keys_locked (throttle_keys_new u ip n) (th_attempts (fst (fold (throttle_step u) es st))) later"
  using assms
proof (induction es arbitrary: now N st)
  case (Cons e es)
  obtain s gs where st: "st = (s, gs)" by fastforce
  obtain ip' n' now' where e: "e = Attempt ip' n' now'"
    using Cons.prems(5) by (cases e) (auto simp: only_attempts_def)
  have le: "now \<le> now'" "now' \<le> later" using Cons.prems(3) by (auto simp: e)
  have fits: "N + 3 < 2 ^ 32 - 1" using Cons.prems(4) by simp
  have "keys_locked (throttle_keys_new u ip n) (th_attempts (fst (throttle_step u e st))) later"
    using admit_refusal [OF _ _ le fits, of u ip n s ip' n'] Cons.prems(1,2)
    by (simp add: st e fst_throttle_step_attempt del: throttle_step.simps)
  moreover have "times_ok now' (N + 3) (fst (throttle_step u e st))"
    using admit_times [of now N s now' u ip' n'] Cons.prems(2) le(1)
    by (simp add: st e fst_throttle_step_attempt del: throttle_step.simps)
  ultimately show ?case
    using Cons.IH [of "throttle_step u e st" now' "N + 3"] Cons.prems
    by (simp add: e only_attempts_def add.assoc del: throttle_step.simps)
qed simp

lemma times_start: "times_ok 0 0 \<lparr>th_attempts = [], th_next_run = 1\<rparr>"
  by (simp add: times_ok_def)

text \<open>C3: Nobody's guesses lift a refusal. If a sign-in would be refused as locked at some time,
  it is still refused at that time after any number of further failed attempts by anybody,
  however many made-up names and addresses they use to fill the table in between.\<close>

theorem refusal_stands:
  assumes "sorted (attempt_times (es @ flood) @ [later])" and "length (es @ flood) < 2 ^ 30"
    and "only_attempts flood"
    and "keys_locked (throttle_keys_new u ip n) (th_attempts (fst (throttle_run u es))) later"
  shows "snd (sign_in_admit u ip n later (fst (throttle_run u (es @ flood))))
      = Inl (too_many_requests ''Too many failed sign-in attempts. Try again in a minute.'')"
proof -
  let ?s = "throttle_run u es" and ?s' = "throttle_run u (es @ flood)"
  define now where "now = last (0 # attempt_times es)"
  have fold: "?s' = fold (throttle_step u) flood ?s" by (simp add: throttle_run_def)
  have sorted: "sorted (0 # attempt_times es)" "sorted (now # attempt_times flood @ [later])"
    using assms(1) by (auto simp: now_def sorted_append)
  have t: "times_ok now (3 * length es) (fst ?s)"
    using run_times [of 0 0 "(\<lparr>th_attempts = [], th_next_run = 1\<rparr>, [])" es u] times_start sorted(1) assms(2)
    by (simp add: throttle_run_def now_def)
  have locked: "keys_locked (throttle_keys_new u ip n) (th_attempts (fst ?s')) later"
    unfolding fold by (rule run_refusal [OF assms(4) t sorted(2) _ assms(3)]) (use assms(2) in simp)
  have "sorted (0 # attempt_times (es @ flood))" using assms(1) by (auto simp: sorted_append)
  then have "tvalid (th_attempts (fst ?s'))"
    using run_times [of 0 0 "(\<lparr>th_attempts = [], th_next_run = 1\<rparr>, [])" "es @ flood" u] times_start assms(2)
    by (simp add: throttle_run_def times_ok_def)
  then have "keys_locked (throttle_keys_new u ip n) (kept_attempts later (th_attempts (fst ?s'))) later"
    using kept_refusal [OF locked _ order_refl] by simp
  then show ?thesis by (simp add: sign_in_admit_def kept_attempts_def)
qed

definition ex_bad_password :: "u64 \<Rightarrow> throttle_event" where
  "ex_bad_password t = Attempt (V6 0x20010db8000000000000000000000001) (cps ''Ada'') t"

lemma refusal_stands_witness:
  "snd (sign_in_admit ascii_tables (V6 0x20010db8000000000000000000000001) (cps ''ada'') 60
     (fst (throttle_run ascii_tables (map ex_bad_password [1, 2, 3, 4, 5] @ [ex_guess 6]))))
   = Inl (too_many_requests ''Too many failed sign-in attempts. Try again in a minute.'')"
proof (rule refusal_stands)
  show "sorted (attempt_times (map ex_bad_password [1, 2, 3, 4, 5] @ [ex_guess 6]) @ [60])"
    by (simp add: ex_bad_password_def ex_guess_def)
  show "keys_locked (throttle_keys_new ascii_tables (V6 0x20010db8000000000000000000000001) (cps ''ada''))
     (th_attempts (fst (throttle_run ascii_tables (map ex_bad_password [1, 2, 3, 4, 5])))) 60"
    by code_simp
qed (simp_all add: only_attempts_def ex_guess_def)

text \<open>The table of counters never holds more than fifty thousand entries, whatever requests
  arrive.\<close>

theorem throttle_table_bounded:
  "length (th_attempts (fst (throttle_run u es))) \<le> LOGIN_THROTTLE_LOCKED_MAX_ENTRIES"
proof -
  let ?ok = "\<lambda>s. tvalid (th_attempts s) \<and> length (th_attempts s) \<le> LOGIN_THROTTLE_LOCKED_MAX_ENTRIES"
  have step: "?ok (fst (throttle_step u e st))" if "?ok (fst st)" for e st
  proof (cases e)
    case (Attempt ip n now)
    obtain s gs where "st = (s, gs)" by fastforce
    then show ?thesis using that length_admit valid_admit
      by (simp add: Attempt fst_throttle_step_attempt del: throttle_step.simps)
  next
    case (Succeeded i)
    obtain s gs where st: "st = (s, gs)" by fastforce
    have "length (tremove k m) \<le> length m" for k and m :: attempts
      by (simp add: tremove_def length_delete_le)
    then have "length (th_attempts (sign_in_succeed t s)) \<le> length (th_attempts s)" for t
      by (simp add: sign_in_succeed_def length_refund)
    then show ?thesis using that valid_succeed by (simp add: st Succeeded) (meson order_trans)
  qed
  have "?ok (fst (throttle_run u es))"
    unfolding throttle_run_def
    by (induction es rule: rev_induct) (simp_all add: step)
  then show ?thesis ..
qed

end
