(* ===== verification/Spec2Isabelle.thy ===== *)
theory Spec2Isabelle
  imports Progress Remux SyncSchedule UpdateTrust Scopes AgentText Util Streaks Works ReadingLog Accounts Throttle Sessions Credentials
begin

text \<open>
  A model of the OperaLibre audiobook server (\<open>src/apps/server/src\<close>).

  The server keeps its durable state in a handful of stores (accounts, sessions, playback positions,
  reading history, works, daily activity), reads or rewrites them in HTTP handlers, and derives what it shows from
  them. The model has one theory per component; a store is a record or a list, a handler a function from the
  request and the store to the reply and the new store, an error a value of \<open>api_error\<close>. A write that
  fails leaves its store as it was. Clocks, fresh identifiers, password hashes, digests, the Unicode
  tables and the URI parser are parameters.

  Foundations.
  \<^item> \<open>Prelude\<close>: 64-bit saturating and checked arithmetic, list and fold lemmas.
  \<^item> \<open>F64\<close>: binary64 as exact rationals rounded to 53 bits, with the infinities and NaN, and the laws of
    comparison, clamping and rounding that the position rules need.
  \<^item> \<open>Text\<close>: byte strings, scalar values, decimal numbers and their parsers.
  \<^item> \<open>Table\<close>: hash maps as association lists in an arbitrary iteration order, behind the locale
    \<open>hash_map\<close>, which is interpreted on them.
  \<^item> \<open>Errors\<close> (\<open>error.rs\<close>), \<open>Util\<close> (\<open>util.rs\<close>): responses; file names, byte ranges, percent encoding, digests.

  Components.
  \<^item> \<open>Calendar\<close>, \<open>Streaks\<close> (\<open>activity.rs\<close>): civil days in both directions, time-zone offsets, the two streak counts
    shown equal to the lengths of runs of active days.
  \<^item> \<open>Works\<close> (\<open>works.rs\<close>): the index of works and editions. Every operation preserves its invariant; what an
    administrator linked or rejected is never undone by a rescan.
  \<^item> \<open>ReadingLog\<close> (\<open>reading_log.rs\<close>, \<open>reading.rs\<close>): open sittings, debounced flushing, compaction, pages. The buffered log refines the log
    that stores each checkpoint at once.
  \<^item> \<open>Accounts\<close> (\<open>auth.rs\<close>, \<open>config.rs\<close>): set-up and every account handler; the account invariant and the absence of
    escalation over arbitrary request histories.
  \<^item> \<open>Throttle\<close>, \<open>Addresses\<close> (\<open>auth.rs\<close>): the sign-in throttle with its three counters per attempt, eviction and refunds. A sign-in
    is two steps, between which any other steps may happen.
  \<^item> \<open>Sessions\<close> (\<open>auth.rs\<close>, \<open>storage.rs\<close>): opening, pruning, resolving and revoking sessions.
  \<^item> \<open>Credentials\<close> (\<open>auth.rs\<close>): headers, cookies, media links, the cross-site check and the middleware.
  \<^item> \<open>Progress\<close> (\<open>progress.rs\<close>, \<open>storage.rs\<close>, \<open>reading.rs\<close>): which checkpoints are stored, the transaction that stores them with the
    backup copy, the effects on the reading log, summaries, the finish inherited from another edition and sharing.
  \<^item> \<open>Remux\<close>, \<open>Json\<close> (\<open>faststart.rs\<close>): the walk over the boxes of an MP4 file, what ffprobe reports, and the conversion as a
    sequence of file system states, each of which keeps the book.
  \<^item> \<open>Jobs\<close> (\<open>jobs.rs\<close>), \<open>SyncQueue\<close> (\<open>sync.rs\<close>, \<open>sync_schedule.rs\<close>): the background job table and the durable queue of read-along
    syncs. A request is two steps; a write of the queue may fail before or after it is published. \<open>SyncSafety\<close> relates every
    operation to the set of syncs the server owes, in memory and on disk, over all interleavings.
  \<^item> \<open>SyncSchedule\<close> (\<open>sync_schedule.rs\<close>): one-time entries and the nightly sweep, with the instants of local times as a
    parameter; what others do to the queue while a tick runs is a function of the state.
  \<^item> \<open>UpdateTrust\<close> (\<open>update_manifest.rs\<close>, \<open>update_channel.rs\<close>, \<open>updates.rs\<close>): roots of trust, signed manifests and the
    download of an update. Signatures, digests, JSON and versions are a record of functions.
  \<^item> \<open>Agents\<close>, \<open>AgentText\<close> (\<open>agent.rs\<close>): tokens for assistants and what a request with one may do, over all histories, and
    the tools that read: how far the text and the titles they give go, and what they keep to themselves.
  \<^item> \<open>Labels\<close>, \<open>ChapterMatch\<close>, \<open>Scopes\<close> (\<open>alignment.rs\<close>): reading chapter labels, the order-keeping matching of two lists of
    labels and the longest chain of recognized words, each shown to reach the optimum of its specification, and the scopes of
    tracks and embedded chapters, which never overlap. \<open>None\<close> is a panic on a section that does not exist.

  Bounds. Histories assume a clock below \<open>2 ^ 53\<close> milliseconds where revisions are compared, since a revision is
  read back as a double, and fresh identifiers that do not repeat. The box walk stops after
  \<open>MAX_BOXES\<close> boxes as the code does; no operation needs fuel.

  Not modelled: directory walks, tag parsing, media streaming, SQL, archives, external processes and
  remote services, the updater process and the launcher.
\<close>

end
